theory Spec2Isabelle
  imports Complex_Main "HOL-Library.Monad_Syntax"
begin

unbundle bit_operations_syntax

section \<open>Machine arithmetic of the C++ source\<close>

text \<open>
  The integers of \<^verbatim>\<open>AudioSRC.cpp\<close> are \<^verbatim>\<open>int\<close> (32 bits), \<^verbatim>\<open>int64_t\<close> and
  \<^verbatim>\<open>uint32_t\<close>.  They are modelled as mathematical integers; a conversion to a narrower
  type is written out as a reduction into the two's-complement range of that type.
  Arithmetic in \<^verbatim>\<open>int64_t\<close> is reduced in the same way where a claim speaks of its
  overflow; elsewhere a theorem names the ranges it needs.
  Division is the truncating division of C++.  A value \<open>None\<close> of a model function
  stands for "no defined result": a failed \<^verbatim>\<open>assert\<close>, an access outside an array,
  a division by zero, or a loop that never ends.
\<close>

definition wrap32 :: "int \<Rightarrow> int" where
  "wrap32 x = (x + 2 ^ 31) mod 2 ^ 32 - 2 ^ 31"

definition wrap64 :: "int \<Rightarrow> int" where
  "wrap64 x = (x + 2 ^ 63) mod 2 ^ 64 - 2 ^ 63"

definition cdiv :: "int \<Rightarrow> int \<Rightarrow> int" where
  "cdiv a b = sgn a * sgn b * (\<bar>a\<bar> div \<bar>b\<bar>)"

definition crem :: "int \<Rightarrow> int \<Rightarrow> int" where
  "crem a b = a - b * cdiv a b"

text \<open>
  The result of an arithmetic operation on \<^verbatim>\<open>int\<close>.  Signed overflow has no defined
  result.
\<close>

definition int32 :: "int \<Rightarrow> int option" where
  "int32 x = (if - (2 ^ 31) \<le> x \<and> x < 2 ^ 31 then Some x else None)"

text \<open>
  The macros \<^verbatim>\<open>hi32\<close> and \<^verbatim>\<open>lo32\<close> read the two halves of an \<^verbatim>\<open>int64_t\<close> in place
  (on a little-endian machine): the high half as \<^verbatim>\<open>int32_t\<close>, the low half as
  \<^verbatim>\<open>uint32_t\<close>.
\<close>

definition hi32 :: "int \<Rightarrow> int" where
  "hi32 a = a div 2 ^ 32"

definition lo32 :: "int \<Rightarrow> int" where
  "lo32 a = a mod 2 ^ 32"

definition PROTOTYPE_TAPS :: int where "PROTOTYPE_TAPS = 96"
definition PROTOTYPE_PHASES :: int where "PROTOTYPE_PHASES = 32"
definition PROTOTYPE_COEFS :: int where "PROTOTYPE_COEFS = PROTOTYPE_TAPS * PROTOTYPE_PHASES"
definition SRC_PHASEBITS :: nat where "SRC_PHASEBITS = 8"
definition SRC_PHASES :: int where "SRC_PHASES = 2 ^ SRC_PHASEBITS"
definition SRC_FRACBITS :: nat where "SRC_FRACBITS = 32 - SRC_PHASEBITS"
definition SRC_FRACMASK :: int where "SRC_FRACMASK = 2 ^ SRC_FRACBITS - 1"
definition SRC_BLOCK :: int where "SRC_BLOCK = 1024"

text \<open>
  Modelled from the spec: \<^verbatim>\<open>MAX_CHANNELS\<close> is declared in \<^verbatim>\<open>AudioSRC.h\<close>, which is not
  part of the sources; the spec fixes the channel count to 1 or 2, and the constructor
  allocates two buffers of each kind.
\<close>

definition MAX_CHANNELS :: int where "MAX_CHANNELS = 2"

section \<open>Single-precision arithmetic\<close>

text \<open>
  The type \<^verbatim>\<open>float\<close> is a type parameter \<open>'f\<close>, and its operations are the fields of
  a record: nothing is assumed about rounding.  Every theorem below holds for each
  choice of these operations, unless it names the laws it needs.
\<close>

record 'f fpu =
  fadd :: "'f \<Rightarrow> 'f \<Rightarrow> 'f"
  fsub :: "'f \<Rightarrow> 'f \<Rightarrow> 'f"
  fmul :: "'f \<Rightarrow> 'f \<Rightarrow> 'f"
  fdiv :: "'f \<Rightarrow> 'f \<Rightarrow> 'f"
  flt :: "'f \<Rightarrow> 'f \<Rightarrow> bool"
  feq :: "'f \<Rightarrow> 'f \<Rightarrow> bool"
  f_of_int :: "int \<Rightarrow> 'f"
  int_of_f :: "'f \<Rightarrow> int"

definition QFRAC_TO_FLOAT :: "'f fpu \<Rightarrow> 'f" where
  "QFRAC_TO_FLOAT fp = fdiv fp (f_of_int fp 1) (f_of_int fp (2 ^ SRC_FRACBITS))"

definition Q32_TO_FLOAT :: "'f fpu \<Rightarrow> 'f" where
  "Q32_TO_FLOAT fp = fdiv fp (f_of_int fp 1) (f_of_int fp (2 ^ 32))"

section \<open>Arrays\<close>

text \<open>An array is a list; reading or writing outside it has no defined result.\<close>

definition rd :: "'a list \<Rightarrow> int \<Rightarrow> 'a option" where
  "rd xs k = (if 0 \<le> k \<and> k < int (length xs) then Some (xs ! nat k) else None)"

definition wr :: "'a list \<Rightarrow> int \<Rightarrow> 'a \<Rightarrow> 'a list option" where
  "wr xs k v = (if 0 \<le> k \<and> k < int (length xs) then Some (xs[nat k := v]) else None)"

text \<open>
  \<^verbatim>\<open>memcpy(dst + d, src + s, n * sizeof(float))\<close> and \<^verbatim>\<open>memmove\<close>: the source array is
  read before the destination is written, which is what \<^verbatim>\<open>memmove\<close> does and what
  \<^verbatim>\<open>memcpy\<close> does on arrays that do not overlap.  A negative count would convert to a
  huge \<^verbatim>\<open>size_t\<close>.
\<close>

definition memcpy :: "'a list \<Rightarrow> int \<Rightarrow> 'a list \<Rightarrow> int \<Rightarrow> int \<Rightarrow> 'a list option" where
  "memcpy dst d src s n =
     (if 0 \<le> n \<and> 0 \<le> d \<and> 0 \<le> s \<and> d + n \<le> int (length dst) \<and> s + n \<le> int (length src)
      then Some (take (nat d) dst @ take (nat n) (drop (nat s) src) @ drop (nat (d + n)) dst)
      else None)"

section \<open>The resampler object\<close>

text \<open>
  The members of \<^verbatim>\<open>class AudioSRC\<close>, named as in the source without the leading
  underscore; the conversion buffers \<^verbatim>\<open>_inputs\<close> and \<^verbatim>\<open>_outputs\<close> are \<open>inputs_m\<close> and
  \<open>outputs_m\<close>, to tell them from the parameters \<^verbatim>\<open>inputs\<close> and \<^verbatim>\<open>outputs\<close> of
  \<^verbatim>\<open>processFloat\<close>.  The three members \<^verbatim>\<open>float* _history[MAX_CHANNELS]\<close>,
  \<^verbatim>\<open>_inputs\<close> and \<^verbatim>\<open>_outputs\<close> hold two arrays each: a pair of lists.  The header
  \<^verbatim>\<open>AudioSRC.h\<close> is not part of the sources; \<^verbatim>\<open>_offset\<close> and \<^verbatim>\<open>_step\<close> are
  \<^verbatim>\<open>int64_t\<close> (the source reads them with \<^verbatim>\<open>hi32\<close> and \<^verbatim>\<open>lo32\<close>), the other
  numbers are \<^verbatim>\<open>int\<close>.
\<close>

record 'f audio_src =
  polyphaseFilter :: "'f list"
  stepTable :: "int list"
  history :: "'f list \<times> 'f list"
  inputs_m :: "'f list \<times> 'f list"
  outputs_m :: "'f list \<times> 'f list"
  inputSampleRate :: int
  outputSampleRate :: int
  numChannels :: int
  upFactor :: int
  downFactor :: int
  numTaps :: int
  numHistory :: int
  inputBlock :: int
  phase :: int
  offset :: int
  step :: int

subsection \<open>Output-count oracles\<close>

definition getMinOutput :: "'f audio_src \<Rightarrow> int \<Rightarrow> int option" where
  "getMinOutput s inputFrames =
     (if step s = 0 then
        (if downFactor s = 0 then None
         else Some (wrap32 (cdiv (wrap64 (inputFrames * upFactor s)) (downFactor s))))
      else Some (wrap32 (cdiv (wrap64 (inputFrames * 2 ^ 32)) (step s))))"

definition getMaxOutput :: "'f audio_src \<Rightarrow> int \<Rightarrow> int option" where
  "getMaxOutput s inputFrames =
     (if step s = 0 then
        (if downFactor s = 0 then None
         else Some (wrap32 (cdiv (wrap64 (wrap64 (inputFrames * upFactor s) + downFactor s - 1))
                                 (downFactor s))))
      else Some (wrap32 (cdiv (wrap64 (wrap64 (inputFrames * 2 ^ 32) + step s - 1)) (step s))))"

definition getMinInput :: "'f audio_src \<Rightarrow> int \<Rightarrow> int option" where
  "getMinInput s outputFrames =
     (if step s = 0 then
        (if upFactor s = 0 then None
         else Some (wrap32 (cdiv (wrap64 (wrap64 (outputFrames * downFactor s) + upFactor s - 1))
                                 (upFactor s))))
      else Some (wrap32 (wrap64 (wrap64 (outputFrames * step s) + 4294967295) div 2 ^ 32)))"

definition getMaxInput :: "'f audio_src \<Rightarrow> int \<Rightarrow> int option" where
  "getMaxInput s outputFrames =
     (if step s = 0 then
        (if upFactor s = 0 then None
         else Some (wrap32 (cdiv (wrap64 (outputFrames * downFactor s)) (upFactor s))))
      else Some (wrap32 (wrap64 (outputFrames * step s) div 2 ^ 32)))"


subsection \<open>Greatest common divisor\<close>

text \<open>The subtraction loop of \<^verbatim>\<open>gcd\<close>; it does not end on every pair of integers.\<close>

partial_function (option) gcd_src :: "int \<Rightarrow> int \<Rightarrow> int option" where
  "gcd_src a b =
     (if a \<noteq> b then (if a > b then gcd_src (a - b) b else gcd_src a (b - a)) else Some a)"

subsection \<open>3rd-order Lagrange interpolation\<close>

definition fzero :: "'f fpu \<Rightarrow> 'f" where
  "fzero fp = f_of_int fp 0"

definition fsixth :: "'f fpu \<Rightarrow> 'f" where
  "fsixth fp = fdiv fp (f_of_int fp 1) (f_of_int fp 6)"

definition fhalf :: "'f fpu \<Rightarrow> 'f" where
  "fhalf fp = fdiv fp (f_of_int fp 1) (f_of_int fp 2)"

definition fthird :: "'f fpu \<Rightarrow> 'f" where
  "fthird fp = fdiv fp (f_of_int fp 1) (f_of_int fp 3)"

text \<open>The body of the loop of \<^verbatim>\<open>cubicInterpolation\<close>: the value stored in \<^verbatim>\<open>output[j]\<close>.\<close>

definition cubicSample :: "'f fpu \<Rightarrow> 'f list \<Rightarrow> int \<Rightarrow> int \<Rightarrow> 'f \<Rightarrow> 'f option" where
  "cubicSample fp input inputSize off gain =
     (let i = hi32 off; f = lo32 off in
      do {
        x0 \<leftarrow> (if i - 1 < 0 then Some (fzero fp) else rd input (i - 1));
        x1 \<leftarrow> (if i - 0 < 0 then Some (fzero fp) else rd input (i - 0));
        x2 \<leftarrow> (if i + 1 < inputSize then rd input (i + 1) else Some (fzero fp));
        x3 \<leftarrow> (if i + 2 < inputSize then rd input (i + 2) else Some (fzero fp));
        let c0 = fadd fp (fmul fp (fsixth fp) (fsub fp x3 x0)) (fmul fp (fhalf fp) (fsub fp x1 x2));
            c1 = fsub fp (fmul fp (fhalf fp) (fadd fp x0 x2)) x1;
            c2 = fsub fp (fsub fp (fsub fp x2 (fmul fp (fthird fp) x0)) (fmul fp (fhalf fp) x1))
                         (fmul fp (fsixth fp) x3);
            c3 = x1;
            frac = fmul fp (f_of_int fp f) (Q32_TO_FLOAT fp)
        in Some (fmul fp
                   (fadd fp (fmul fp (fadd fp (fmul fp (fadd fp (fmul fp c0 frac) c1) frac) c2) frac) c3)
                   gain)
      })"

fun cubicLoop ::
  "'f fpu \<Rightarrow> 'f list \<Rightarrow> int \<Rightarrow> int \<Rightarrow> 'f \<Rightarrow> nat list \<Rightarrow> int \<Rightarrow> 'f list \<Rightarrow> 'f list option" where
  "cubicLoop fp input inputSize stp gain [] off output = Some output"
| "cubicLoop fp input inputSize stp gain (j # js) off output =
     do {
       y \<leftarrow> cubicSample fp input inputSize off gain;
       output' \<leftarrow> wr output (int j) y;
       cubicLoop fp input inputSize stp gain js (off + stp) output'
     }"

definition cubicInterpolation ::
  "'f fpu \<Rightarrow> 'f list \<Rightarrow> 'f list \<Rightarrow> int \<Rightarrow> int \<Rightarrow> 'f \<Rightarrow> 'f list option" where
  "cubicInterpolation fp input output inputSize outputSize gain =
     (if outputSize = 0 then None
      else
        let stp = cdiv (inputSize * 2 ^ 32) outputSize;
            off = (if outputSize < inputSize then cdiv stp 2 else 0)
        in cubicLoop fp input inputSize stp gain [0..<nat outputSize] off output)"

subsection \<open>The filter builders\<close>

text \<open>
  Both builders start with the same statements (lines 138 to 151 and 186 to 199 of the
  source): the number of taps, the number of coefficients to interpolate, and the gain
  handed to \<^verbatim>\<open>cubicInterpolation\<close>.  The result is \<open>(numTaps, numCoefs, gain)\<close>.
\<close>

definition filterSize :: "'f fpu \<Rightarrow> int \<Rightarrow> int \<Rightarrow> 'f \<Rightarrow> (int \<times> int \<times> 'f) option" where
  "filterSize fp upFactor' downFactor' gain =
     (let numTaps' = PROTOTYPE_TAPS;
          numPhases = upFactor'
      in do {
        numCoefs \<leftarrow> int32 (numTaps' * numPhases);
        let oldCoefs = numCoefs;
        if downFactor' > upFactor' then
          (if upFactor' = 0 then None
           else do {
             let numCoefs = wrap32 (cdiv (wrap64 (oldCoefs * downFactor')) upFactor');
             a \<leftarrow> int32 (numCoefs + upFactor');
             b \<leftarrow> int32 (a - 1);
             let numTaps' = cdiv b upFactor';
             Some (numTaps', numCoefs,
                   fmul fp gain (fdiv fp (f_of_int fp oldCoefs) (f_of_int fp numCoefs)))
           })
        else Some (numTaps', numCoefs, gain)
      })"

text \<open>
  One row of the polyphase bank: \<^verbatim>\<open>_polyphaseFilter[base + j] = tempFilter[(numTaps - j - 1)
  * numPhases + phase]\<close> for the \<open>j\<close> of the list.
\<close>

fun fillRow ::
  "'f list \<Rightarrow> int \<Rightarrow> int \<Rightarrow> int \<Rightarrow> int \<Rightarrow> nat list \<Rightarrow> 'f list \<Rightarrow> 'f list option" where
  "fillRow tempFilter numTaps' numPhases ph base [] poly = Some poly"
| "fillRow tempFilter numTaps' numPhases ph base (j # js) poly =
     do {
       a \<leftarrow> int32 ((numTaps' - int j - 1) * numPhases);
       k \<leftarrow> int32 (a + ph);
       f \<leftarrow> rd tempFilter k;
       k' \<leftarrow> int32 (base + int j);
       poly' \<leftarrow> wr poly k' f;
       fillRow tempFilter numTaps' numPhases ph base js poly'
     }"

text \<open>Rational mode: row \<open>i\<close> holds the phase \<^verbatim>\<open>(i * downFactor) % upFactor\<close>.\<close>

fun rationalRows ::
  "'f list \<Rightarrow> int \<Rightarrow> int \<Rightarrow> int \<Rightarrow> int \<Rightarrow> nat list \<Rightarrow> 'f list \<Rightarrow> 'f list option" where
  "rationalRows tempFilter numTaps' numPhases upFactor' downFactor' [] poly = Some poly"
| "rationalRows tempFilter numTaps' numPhases upFactor' downFactor' (i # is) poly =
     do {
       p \<leftarrow> int32 (int i * downFactor');
       ph \<leftarrow> (if upFactor' = 0 then None else Some (crem p upFactor'));
       base \<leftarrow> int32 (numTaps' * int i);
       poly' \<leftarrow> fillRow tempFilter numTaps' numPhases ph base [0..<nat numTaps'] poly;
       rationalRows tempFilter numTaps' numPhases upFactor' downFactor' is poly'
     }"

text \<open>Irrational mode: row \<open>phase\<close> holds the phase \<open>phase\<close>.\<close>

fun irrationalRows ::
  "'f list \<Rightarrow> int \<Rightarrow> int \<Rightarrow> nat list \<Rightarrow> 'f list \<Rightarrow> 'f list option" where
  "irrationalRows tempFilter numTaps' numPhases [] poly = Some poly"
| "irrationalRows tempFilter numTaps' numPhases (ph # phs) poly =
     do {
       base \<leftarrow> int32 (numTaps' * int ph);
       poly' \<leftarrow> fillRow tempFilter numTaps' numPhases (int ph) base [0..<nat numTaps'] poly;
       irrationalRows tempFilter numTaps' numPhases phs poly'
     }"

text \<open>The loop that precomputes the input steps (lines 175 to 180).\<close>

definition makeStepTable :: "int \<Rightarrow> int \<Rightarrow> int \<Rightarrow> int list" where
  "makeStepTable numPhases upFactor' downFactor' =
     map (\<lambda>i. cdiv ((int i + 1) * downFactor') upFactor' - cdiv ((int i + 0) * downFactor') upFactor')
       [0..<nat numPhases]"

text \<open>
  \<^verbatim>\<open>createRationalFilter\<close> returns \<open>numTaps\<close> and leaves the bank in \<^verbatim>\<open>_polyphaseFilter\<close>
  and the steps in \<^verbatim>\<open>_stepTable\<close>: the model returns the three.  \<^verbatim>\<open>tempFilter\<close> is set
  to zeros by \<^verbatim>\<open>memset\<close>.  The bank is allocated without a value and each entry of it is
  written by the loop; it starts as zeros here.  An array of negative size is not
  allocated.  \<open>rationalBank\<close> is the part of the function after the call of
  \<^verbatim>\<open>cubicInterpolation\<close> (lines 159 to 182): the bank and the step table, from the
  interpolated coefficients.
\<close>

definition rationalBank ::
  "'f fpu \<Rightarrow> 'f list \<Rightarrow> int \<Rightarrow> int \<Rightarrow> int \<Rightarrow> ('f list \<times> int list) option" where
  "rationalBank fp tempFilter numTaps' upFactor' downFactor' =
     (let numPhases = upFactor' in
      do {
        size \<leftarrow> int32 (numTaps' * numPhases);
        poly \<leftarrow> (if size < 0 then None else Some (replicate (nat size) (fzero fp)));
        poly \<leftarrow> rationalRows tempFilter numTaps' numPhases upFactor' downFactor' [0..<nat numPhases] poly;
        Some (poly, makeStepTable numPhases upFactor' downFactor')
      })"

definition createRationalFilter ::
  "'f fpu \<Rightarrow> 'f list \<Rightarrow> int \<Rightarrow> int \<Rightarrow> 'f \<Rightarrow> (int \<times> 'f list \<times> int list) option" where
  "createRationalFilter fp prototypeFilter upFactor' downFactor' gain =
     do {
       (numTaps', numCoefs, gain') \<leftarrow> filterSize fp upFactor' downFactor' gain;
       let numPhases = upFactor';
       size \<leftarrow> int32 (numTaps' * numPhases);
       tempFilter \<leftarrow> (if size < 0 then None else Some (replicate (nat size) (fzero fp)));
       tempFilter \<leftarrow> cubicInterpolation fp prototypeFilter tempFilter PROTOTYPE_COEFS numCoefs gain';
       (poly, tbl) \<leftarrow> rationalBank fp tempFilter numTaps' upFactor' downFactor';
       Some (numTaps', poly, tbl)
     }"

text \<open>The extra phase: \<^verbatim>\<open>_polyphaseFilter[numTaps * numPhases + j] = _polyphaseFilter[j-1]\<close>.\<close>

fun extraPhase :: "int \<Rightarrow> int \<Rightarrow> nat list \<Rightarrow> 'f list \<Rightarrow> 'f list option" where
  "extraPhase numTaps' numPhases [] poly = Some poly"
| "extraPhase numTaps' numPhases (j # js) poly =
     do {
       f \<leftarrow> rd poly (int j - 1);
       a \<leftarrow> int32 (numTaps' * numPhases);
       k \<leftarrow> int32 (a + int j);
       poly' \<leftarrow> wr poly k f;
       extraPhase numTaps' numPhases js poly'
     }"

text \<open>
  \<open>irrationalBank\<close> is the part of \<^verbatim>\<open>createIrrationalFilter\<close> after the call of
  \<^verbatim>\<open>cubicInterpolation\<close> (lines 207 to 231): the bank with its extra phase.  It has no
  result when the assertion fails.
\<close>

definition irrationalBank :: "'f fpu \<Rightarrow> 'f list \<Rightarrow> int \<Rightarrow> int \<Rightarrow> 'f list option" where
  "irrationalBank fp tempFilter numTaps' upFactor' =
     (let numPhases = upFactor' in
      do {
        phases \<leftarrow> int32 (numPhases + 1);
        size \<leftarrow> int32 (numTaps' * phases);
        poly \<leftarrow> (if size < 0 then None else Some (replicate (nat size) (fzero fp)));
        poly \<leftarrow> irrationalRows tempFilter numTaps' numPhases [0..<nat numPhases] poly;
        last0 \<leftarrow> rd poly (numTaps' - 1);
        if feq fp last0 (fzero fp) then
          do {
            a \<leftarrow> int32 (numTaps' * numPhases);
            k \<leftarrow> int32 (a + 0);
            poly \<leftarrow> wr poly k (fzero fp);
            extraPhase numTaps' numPhases [1..<nat numTaps'] poly
          }
        else None
      })"

definition createIrrationalFilter ::
  "'f fpu \<Rightarrow> 'f list \<Rightarrow> int \<Rightarrow> int \<Rightarrow> 'f \<Rightarrow> (int \<times> 'f list) option" where
  "createIrrationalFilter fp prototypeFilter upFactor' downFactor' gain =
     do {
       (numTaps', numCoefs, gain') \<leftarrow> filterSize fp upFactor' downFactor' gain;
       let numPhases = upFactor';
       size \<leftarrow> int32 (numTaps' * numPhases);
       tempFilter \<leftarrow> (if size < 0 then None else Some (replicate (nat size) (fzero fp)));
       tempFilter \<leftarrow> cubicInterpolation fp prototypeFilter tempFilter PROTOTYPE_COEFS numCoefs gain';
       poly \<leftarrow> irrationalBank fp tempFilter numTaps' upFactor';
       Some (numTaps', poly)
     }"

subsection \<open>The multirate filters\<close>

text \<open>
  The inner loops over the taps.  \<open>c\<close> is the bank \<^verbatim>\<open>_polyphaseFilter\<close> and \<open>cb\<close> the
  index where the row \<^verbatim>\<open>c0\<close> starts in it.
\<close>

fun taps1 :: "'f fpu \<Rightarrow> 'f list \<Rightarrow> int \<Rightarrow> 'f list \<Rightarrow> int \<Rightarrow> nat list \<Rightarrow> 'f \<Rightarrow> 'f option" where
  "taps1 fp c cb input0 i [] acc0 = Some acc0"
| "taps1 fp c cb input0 i (j # js) acc0 =
     do {
       coef \<leftarrow> rd c (cb + int j);
       x0 \<leftarrow> rd input0 (i + int j);
       taps1 fp c cb input0 i js (fadd fp acc0 (fmul fp x0 coef))
     }"

fun taps2 ::
  "'f fpu \<Rightarrow> 'f list \<Rightarrow> int \<Rightarrow> 'f list \<Rightarrow> 'f list \<Rightarrow> int \<Rightarrow> nat list \<Rightarrow> 'f \<times> 'f \<Rightarrow> ('f \<times> 'f) option" where
  "taps2 fp c cb input0 input1 i [] acc = Some acc"
| "taps2 fp c cb input0 input1 i (j # js) acc =
     do {
       coef \<leftarrow> rd c (cb + int j);
       x0 \<leftarrow> rd input0 (i + int j);
       x1 \<leftarrow> rd input1 (i + int j);
       taps2 fp c cb input0 input1 i js
         (fadd fp (fst acc) (fmul fp x0 coef), fadd fp (snd acc) (fmul fp x1 coef))
     }"

text \<open>Irrational mode: the coefficient is interpolated between the rows \<^verbatim>\<open>c0\<close> and \<^verbatim>\<open>c1\<close>.\<close>

fun itaps1 ::
  "'f fpu \<Rightarrow> 'f list \<Rightarrow> int \<Rightarrow> int \<Rightarrow> 'f \<Rightarrow> 'f list \<Rightarrow> int \<Rightarrow> nat list \<Rightarrow> 'f \<Rightarrow> 'f option" where
  "itaps1 fp c cb0 cb1 frc input0 i [] acc0 = Some acc0"
| "itaps1 fp c cb0 cb1 frc input0 i (j # js) acc0 =
     do {
       k0 \<leftarrow> rd c (cb0 + int j);
       k1 \<leftarrow> rd c (cb1 + int j);
       x0 \<leftarrow> rd input0 (i + int j);
       itaps1 fp c cb0 cb1 frc input0 i js
         (fadd fp acc0 (fmul fp x0 (fadd fp k0 (fmul fp frc (fsub fp k1 k0)))))
     }"

fun itaps2 ::
  "'f fpu \<Rightarrow> 'f list \<Rightarrow> int \<Rightarrow> int \<Rightarrow> 'f \<Rightarrow> 'f list \<Rightarrow> 'f list \<Rightarrow> int \<Rightarrow> nat list \<Rightarrow> 'f \<times> 'f \<Rightarrow>
   ('f \<times> 'f) option" where
  "itaps2 fp c cb0 cb1 frc input0 input1 i [] acc = Some acc"
| "itaps2 fp c cb0 cb1 frc input0 input1 i (j # js) acc =
     do {
       k0 \<leftarrow> rd c (cb0 + int j);
       k1 \<leftarrow> rd c (cb1 + int j);
       x0 \<leftarrow> rd input0 (i + int j);
       x1 \<leftarrow> rd input1 (i + int j);
       itaps2 fp c cb0 cb1 frc input0 input1 i js
         (fadd fp (fst acc) (fmul fp x0 (fadd fp k0 (fmul fp frc (fsub fp k1 k0)))),
          fadd fp (snd acc) (fmul fp x1 (fadd fp k0 (fmul fp frc (fsub fp k1 k0)))))
     }"

text \<open>
  The \<^verbatim>\<open>while\<close> loops.  \<open>ob\<close> is the index in the output array where the pointer
  \<^verbatim>\<open>output0\<close> of the call points (\<^verbatim>\<open>_outputs[0] + outputFrames\<close> in \<^verbatim>\<open>processFloat\<close>).
  The loops change \<^verbatim>\<open>_phase\<close> (rational) and \<^verbatim>\<open>_offset\<close> (irrational) in the object.
\<close>

partial_function (option) rationalLoop1 ::
  "'f fpu \<Rightarrow> 'f list \<Rightarrow> int \<Rightarrow> int \<Rightarrow> 'f audio_src \<Rightarrow> 'f list \<Rightarrow> int \<Rightarrow> int \<Rightarrow>
   ('f audio_src \<times> 'f list \<times> int \<times> int) option" where
  "rationalLoop1 fp input0 inputFrames ob s output0 i outputFrames =
     (if i < inputFrames then
        do {
          acc0 \<leftarrow> taps1 fp (polyphaseFilter s) (numTaps s * phase s) input0 i
                    [0..<nat (numTaps s)] (fzero fp);
          output0' \<leftarrow> wr output0 (ob + outputFrames) acc0;
          d \<leftarrow> rd (stepTable s) (phase s);
          rationalLoop1 fp input0 inputFrames ob
            (s\<lparr>phase := (if phase s + 1 = upFactor s then 0 else phase s + 1)\<rparr>)
            output0' (i + d) (outputFrames + 1)
        }
      else Some (s, output0, i, outputFrames))"

partial_function (option) irrationalLoop1 ::
  "'f fpu \<Rightarrow> 'f list \<Rightarrow> int \<Rightarrow> int \<Rightarrow> 'f audio_src \<Rightarrow> 'f list \<Rightarrow> int \<Rightarrow>
   ('f audio_src \<times> 'f list \<times> int) option" where
  "irrationalLoop1 fp input0 inputFrames ob s output0 outputFrames =
     (if hi32 (offset s) < inputFrames then
        do {
          acc0 \<leftarrow> itaps1 fp (polyphaseFilter s)
                    (numTaps s * (drop_bit SRC_FRACBITS (lo32 (offset s)) + 0))
                    (numTaps s * (drop_bit SRC_FRACBITS (lo32 (offset s)) + 1))
                    (fmul fp (f_of_int fp (lo32 (offset s) AND SRC_FRACMASK)) (QFRAC_TO_FLOAT fp))
                    input0 (hi32 (offset s)) [0..<nat (numTaps s)] (fzero fp);
          output0' \<leftarrow> wr output0 (ob + outputFrames) acc0;
          irrationalLoop1 fp input0 inputFrames ob (s\<lparr>offset := offset s + step s\<rparr>)
            output0' (outputFrames + 1)
        }
      else Some (s, output0, outputFrames))"

definition multirateFilter1 ::
  "'f fpu \<Rightarrow> 'f audio_src \<Rightarrow> 'f list \<Rightarrow> 'f list \<Rightarrow> int \<Rightarrow> int \<Rightarrow>
   ('f audio_src \<times> 'f list \<times> int) option" where
  "multirateFilter1 fp s input0 output0 ob inputFrames =
     (if step s = 0 then
        do {
          (s', output0', i, outputFrames) \<leftarrow>
            rationalLoop1 fp input0 inputFrames ob s output0 (hi32 (offset s)) 0;
          Some (s'\<lparr>offset := (i - inputFrames) * 2 ^ 32\<rparr>, output0', outputFrames)
        }
      else
        do {
          (s', output0', outputFrames) \<leftarrow> irrationalLoop1 fp input0 inputFrames ob s output0 0;
          Some (s'\<lparr>offset := offset s' - inputFrames * 2 ^ 32\<rparr>, output0', outputFrames)
        })"

partial_function (option) rationalLoop2 ::
  "'f fpu \<Rightarrow> 'f list \<Rightarrow> 'f list \<Rightarrow> int \<Rightarrow> int \<Rightarrow> 'f audio_src \<Rightarrow> 'f list \<Rightarrow> 'f list \<Rightarrow> int \<Rightarrow> int \<Rightarrow>
   ('f audio_src \<times> 'f list \<times> 'f list \<times> int \<times> int) option" where
  "rationalLoop2 fp input0 input1 inputFrames ob s output0 output1 i outputFrames =
     (if i < inputFrames then
        do {
          acc \<leftarrow> taps2 fp (polyphaseFilter s) (numTaps s * phase s) input0 input1 i
                   [0..<nat (numTaps s)] (fzero fp, fzero fp);
          output0' \<leftarrow> wr output0 (ob + outputFrames) (fst acc);
          output1' \<leftarrow> wr output1 (ob + outputFrames) (snd acc);
          d \<leftarrow> rd (stepTable s) (phase s);
          rationalLoop2 fp input0 input1 inputFrames ob
            (s\<lparr>phase := (if phase s + 1 = upFactor s then 0 else phase s + 1)\<rparr>)
            output0' output1' (i + d) (outputFrames + 1)
        }
      else Some (s, output0, output1, i, outputFrames))"

partial_function (option) irrationalLoop2 ::
  "'f fpu \<Rightarrow> 'f list \<Rightarrow> 'f list \<Rightarrow> int \<Rightarrow> int \<Rightarrow> 'f audio_src \<Rightarrow> 'f list \<Rightarrow> 'f list \<Rightarrow> int \<Rightarrow>
   ('f audio_src \<times> 'f list \<times> 'f list \<times> int) option" where
  "irrationalLoop2 fp input0 input1 inputFrames ob s output0 output1 outputFrames =
     (if hi32 (offset s) < inputFrames then
        do {
          acc \<leftarrow> itaps2 fp (polyphaseFilter s)
                   (numTaps s * (drop_bit SRC_FRACBITS (lo32 (offset s)) + 0))
                   (numTaps s * (drop_bit SRC_FRACBITS (lo32 (offset s)) + 1))
                   (fmul fp (f_of_int fp (lo32 (offset s) AND SRC_FRACMASK)) (QFRAC_TO_FLOAT fp))
                   input0 input1 (hi32 (offset s)) [0..<nat (numTaps s)] (fzero fp, fzero fp);
          output0' \<leftarrow> wr output0 (ob + outputFrames) (fst acc);
          output1' \<leftarrow> wr output1 (ob + outputFrames) (snd acc);
          irrationalLoop2 fp input0 input1 inputFrames ob (s\<lparr>offset := offset s + step s\<rparr>)
            output0' output1' (outputFrames + 1)
        }
      else Some (s, output0, output1, outputFrames))"

definition multirateFilter2 ::
  "'f fpu \<Rightarrow> 'f audio_src \<Rightarrow> 'f list \<Rightarrow> 'f list \<Rightarrow> 'f list \<Rightarrow> 'f list \<Rightarrow> int \<Rightarrow> int \<Rightarrow>
   ('f audio_src \<times> 'f list \<times> 'f list \<times> int) option" where
  "multirateFilter2 fp s input0 input1 output0 output1 ob inputFrames =
     (if step s = 0 then
        do {
          (s', output0', output1', i, outputFrames) \<leftarrow>
            rationalLoop2 fp input0 input1 inputFrames ob s output0 output1 (hi32 (offset s)) 0;
          Some (s'\<lparr>offset := (i - inputFrames) * 2 ^ 32\<rparr>, output0', output1', outputFrames)
        }
      else
        do {
          (s', output0', output1', outputFrames) \<leftarrow>
            irrationalLoop2 fp input0 input1 inputFrames ob s output0 output1 0;
          Some (s'\<lparr>offset := offset s' - inputFrames * 2 ^ 32\<rparr>, output0', output1', outputFrames)
        })"

subsection \<open>Format conversion\<close>

text \<open>Entry \<open>j\<close> of an array of \<^verbatim>\<open>MAX_CHANNELS\<close> pointers.\<close>

definition chan :: "'a \<times> 'a \<Rightarrow> int \<Rightarrow> 'a option" where
  "chan p j = (if j = 0 then Some (fst p) else if j = 1 then Some (snd p) else None)"

definition set_chan :: "'a \<times> 'a \<Rightarrow> int \<Rightarrow> 'a \<Rightarrow> ('a \<times> 'a) option" where
  "set_chan p j v = (if j = 0 then Some (v, snd p) else if j = 1 then Some (fst p, v) else None)"

fun convertInputFrame ::
  "'f fpu \<Rightarrow> int \<Rightarrow> int list \<Rightarrow> int \<Rightarrow> nat list \<Rightarrow> 'f list \<times> 'f list \<Rightarrow> ('f list \<times> 'f list) option" where
  "convertInputFrame fp nc input i [] outputs = Some outputs"
| "convertInputFrame fp nc input i (j # js) outputs =
     do {
       x \<leftarrow> rd input (nc * i + int j);
       row \<leftarrow> chan outputs (int j);
       row' \<leftarrow> wr row i (fmul fp (f_of_int fp x) (fdiv fp (f_of_int fp 1) (f_of_int fp 32768)));
       outputs' \<leftarrow> set_chan outputs (int j) row';
       convertInputFrame fp nc input i js outputs'
     }"

fun convertInputFrames ::
  "'f fpu \<Rightarrow> int \<Rightarrow> int list \<Rightarrow> nat list \<Rightarrow> 'f list \<times> 'f list \<Rightarrow> ('f list \<times> 'f list) option" where
  "convertInputFrames fp nc input [] outputs = Some outputs"
| "convertInputFrames fp nc input (i # is) outputs =
     do {
       outputs' \<leftarrow> convertInputFrame fp nc input (int i) [0..<nat nc] outputs;
       convertInputFrames fp nc input is outputs'
     }"

definition convertInputFromInt16 ::
  "'f fpu \<Rightarrow> 'f audio_src \<Rightarrow> int list \<Rightarrow> 'f list \<times> 'f list \<Rightarrow> int \<Rightarrow> ('f list \<times> 'f list) option" where
  "convertInputFromInt16 fp s input outputs numFrames =
     convertInputFrames fp (numChannels s) input [0..<nat numFrames] outputs"

text \<open>
  \<^verbatim>\<open>convertOutputToInt16\<close> stores at \<^verbatim>\<open>output[_numChannels * i + j]\<close>, for \<open>i\<close> and then \<open>j\<close>
  ascending: the model returns the stored samples in the order of their indices.  The
  array of the caller is taken to be long enough (the spec leaves its size to the
  caller).  \<^verbatim>\<open>SRC_DITHER\<close> is not defined in the source.
\<close>

definition saturate16 :: "'f fpu \<Rightarrow> 'f \<Rightarrow> int" where
  "saturate16 fp x =
     (let f = fmul fp x (f_of_int fp 32768);
          f = (if flt fp (f_of_int fp 32767) f then f_of_int fp 32767 else f);
          f = (if flt fp f (f_of_int fp (- 32768)) then f_of_int fp (- 32768) else f)
      in int_of_f fp f)"

fun convertOutputFrame ::
  "'f fpu \<Rightarrow> 'f list \<times> 'f list \<Rightarrow> int \<Rightarrow> nat list \<Rightarrow> int list option" where
  "convertOutputFrame fp inputs i [] = Some []"
| "convertOutputFrame fp inputs i (j # js) =
     do {
       row \<leftarrow> chan inputs (int j);
       x \<leftarrow> rd row i;
       rest \<leftarrow> convertOutputFrame fp inputs i js;
       Some (saturate16 fp x # rest)
     }"

fun convertOutputFrames ::
  "'f fpu \<Rightarrow> int \<Rightarrow> 'f list \<times> 'f list \<Rightarrow> nat list \<Rightarrow> int list option" where
  "convertOutputFrames fp nc inputs [] = Some []"
| "convertOutputFrames fp nc inputs (i # is) =
     do {
       frame \<leftarrow> convertOutputFrame fp inputs (int i) [0..<nat nc];
       rest \<leftarrow> convertOutputFrames fp nc inputs is;
       Some (frame @ rest)
     }"

definition convertOutputToInt16 ::
  "'f fpu \<Rightarrow> 'f audio_src \<Rightarrow> 'f list \<times> 'f list \<Rightarrow> int \<Rightarrow> int list option" where
  "convertOutputToInt16 fp s inputs numFrames =
     convertOutputFrames fp (numChannels s) inputs [0..<nat numFrames]"

subsection \<open>processFloat\<close>

text \<open>
  The arguments \<^verbatim>\<open>float** inputs\<close> and \<^verbatim>\<open>float** outputs\<close> of \<^verbatim>\<open>processFloat\<close> point
  either to the members \<^verbatim>\<open>_inputs\<close> and \<^verbatim>\<open>_outputs\<close> of the object (what \<^verbatim>\<open>render\<close>
  passes) or to arrays of the caller, which share no storage with the object.
\<close>

datatype 'f arrays = Members | Caller "'f list list"

definition caller_array :: "'f arrays \<Rightarrow> 'f list \<times> 'f list \<Rightarrow> int \<Rightarrow> 'f list option" where
  "caller_array a members j = (case a of Members \<Rightarrow> chan members j | Caller xs \<Rightarrow> rd xs j)"

definition processFloat ::
  "'f fpu \<Rightarrow> 'f audio_src \<Rightarrow> 'f arrays \<Rightarrow> 'f arrays \<Rightarrow> int \<Rightarrow> ('f audio_src \<times> int) option" where
  "processFloat fp s inputs outputs inputFrames =
     (let nh = min (numHistory s) inputFrames;
          ni = inputFrames - nh
      in
      if numChannels s = 1 then
        do {
          h0 \<leftarrow> memcpy (fst (history s)) (numHistory s) (fst (inputs_m s)) 0 nh;
          (s1, out0, no1) \<leftarrow> multirateFilter1 fp s h0 (fst (outputs_m s)) 0 nh;
          (s2, out0, no2) \<leftarrow>
            (if ni \<noteq> 0 then multirateFilter1 fp s1 (fst (inputs_m s)) out0 (0 + no1) ni
             else Some (s1, out0, 0));
          h0 \<leftarrow> (if ni \<noteq> 0 then memcpy h0 0 (fst (inputs_m s)) ni (numHistory s)
                 else memcpy h0 0 h0 nh (numHistory s));
          Some (s2\<lparr>history := (h0, snd (history s)), outputs_m := (out0, snd (outputs_m s))\<rparr>,
                0 + no1 + no2)
        }
      else if numChannels s = 2 then
        do {
          h0 \<leftarrow> memcpy (fst (history s)) (numHistory s) (fst (inputs_m s)) 0 nh;
          h1 \<leftarrow> memcpy (snd (history s)) (numHistory s) (snd (inputs_m s)) 0 nh;
          (s1, out0, out1, no1) \<leftarrow>
            multirateFilter2 fp s h0 h1 (fst (outputs_m s)) (snd (outputs_m s)) 0 nh;
          (s2, out0, out1, no2) \<leftarrow>
            (if ni \<noteq> 0 then
               multirateFilter2 fp s1 (fst (inputs_m s)) (snd (inputs_m s)) out0 out1 (0 + no1) ni
             else Some (s1, out0, out1, 0));
          let s3 = s2\<lparr>outputs_m := (out0, out1)\<rparr>;
          h0 \<leftarrow> (if ni \<noteq> 0 then
                   do { in0 \<leftarrow> caller_array inputs (inputs_m s3) 0;
                        memcpy h0 0 in0 ni (numHistory s) }
                 else memcpy h0 0 h0 nh (numHistory s));
          h1 \<leftarrow> (if ni \<noteq> 0 then
                   do { in1 \<leftarrow> caller_array inputs (inputs_m s3) 1;
                        memcpy h1 0 in1 ni (numHistory s) }
                 else memcpy h1 0 h1 nh (numHistory s));
          Some (s3\<lparr>history := (h0, h1)\<rparr>, 0 + no1 + no2)
        }
      else Some (s, 0))"

text \<open>
  The arrays the caller sees behind the pointer \<^verbatim>\<open>outputs\<close> after a call that left the
  object in state \<open>s'\<close>.
\<close>

definition outputs_after :: "'f audio_src \<Rightarrow> 'f arrays \<Rightarrow> 'f list list" where
  "outputs_after s' outputs =
     (case outputs of Members \<Rightarrow> [fst (outputs_m s'), snd (outputs_m s')] | Caller xs \<Rightarrow> xs)"

subsection \<open>Construction\<close>

text \<open>
  The table \<^verbatim>\<open>prototypeFilter\<close> of 3072 \<^verbatim>\<open>float\<close> literals is an argument of the model:
  the type of floats is a parameter, so its literals cannot be written here.  The
  conversion buffers are allocated without a value; they start as zeros in the model.
\<close>

text \<open>
  Lines 468 to 479: reduce the rates to the smallest fraction and choose the mode.  The
  result is \<open>(_upFactor, _downFactor, _step)\<close>.
\<close>

definition chooseMode :: "int \<Rightarrow> int \<Rightarrow> (int \<times> int \<times> int) option" where
  "chooseMode inputSampleRate' outputSampleRate' =
     do {
       divisor \<leftarrow> gcd_src inputSampleRate' outputSampleRate';
       if divisor = 0 \<or> outputSampleRate' = 0 then None
       else if cdiv outputSampleRate' divisor > 640 then
         Some (SRC_PHASES, wrap32 (cdiv (SRC_PHASES * inputSampleRate') outputSampleRate'),
               cdiv (inputSampleRate' * 2 ^ 32) outputSampleRate')
       else Some (cdiv outputSampleRate' divisor, cdiv inputSampleRate' divisor, 0)
     }"

definition AudioSRC :: "'f fpu \<Rightarrow> 'f list \<Rightarrow> int \<Rightarrow> int \<Rightarrow> int \<Rightarrow> 'f audio_src option" where
  "AudioSRC fp prototypeFilter inputSampleRate' outputSampleRate' numChannels' =
     (if \<not> inputSampleRate' > 0 \<or> \<not> outputSampleRate' > 0 \<or> \<not> numChannels' > 0 \<or>
         \<not> numChannels' \<le> MAX_CHANNELS then None
      else
        do {
          (up, down, stp) \<leftarrow> chooseMode inputSampleRate' outputSampleRate';
          (taps, poly, tbl) \<leftarrow>
            (if stp = 0 then createRationalFilter fp prototypeFilter up down (f_of_int fp 1)
             else do { (taps, poly) \<leftarrow> createIrrationalFilter fp prototypeFilter up down (f_of_int fp 1);
                       Some (taps, poly, []) });
          hist \<leftarrow> (if 2 * (taps - 1) < 0 then None
                   else Some (replicate (nat (2 * (taps - 1))) (fzero fp)));
          let s = \<lparr> polyphaseFilter = poly, stepTable = tbl,
                    history = (hist, hist),
                    inputs_m = (replicate (nat SRC_BLOCK) (fzero fp), replicate (nat SRC_BLOCK) (fzero fp)),
                    outputs_m = (replicate (nat SRC_BLOCK) (fzero fp), replicate (nat SRC_BLOCK) (fzero fp)),
                    inputSampleRate = inputSampleRate', outputSampleRate = outputSampleRate',
                    numChannels = numChannels', upFactor = up, downFactor = down,
                    numTaps = taps, numHistory = taps - 1, inputBlock = 0,
                    phase = 0, offset = 0, step = stp \<rparr>;
          maxIn \<leftarrow> getMaxInput s SRC_BLOCK;
          Some (s\<lparr>inputBlock := min SRC_BLOCK maxIn, offset := 0, phase := 0\<rparr>)
        })"

subsection \<open>render\<close>

text \<open>
  The loop of \<^verbatim>\<open>render\<close>.  \<open>input\<close> is what is left of the array of the caller behind the
  pointer \<^verbatim>\<open>input\<close>; \<open>output\<close> collects the samples written behind \<^verbatim>\<open>output\<close> so far.
  The result is the object, the samples written, and the returned \<^verbatim>\<open>outputFrames\<close>.
\<close>

partial_function (option) renderLoop ::
  "'f fpu \<Rightarrow> 'f audio_src \<Rightarrow> int list \<Rightarrow> int list \<Rightarrow> int \<Rightarrow> int \<Rightarrow>
   ('f audio_src \<times> int list \<times> int) option" where
  "renderLoop fp s input output inputFrames outputFrames =
     (if inputFrames \<noteq> 0 then
        do {
          ins \<leftarrow> convertInputFromInt16 fp s input (inputs_m s) (min inputFrames (inputBlock s));
          (s', no) \<leftarrow> processFloat fp (s\<lparr>inputs_m := ins\<rparr>) Members Members
                        (min inputFrames (inputBlock s));
          written \<leftarrow> (if no \<le> SRC_BLOCK then convertOutputToInt16 fp s' (outputs_m s') no else None);
          renderLoop fp s'
            (drop (nat (numChannels s * min inputFrames (inputBlock s))) input)
            (output @ written)
            (inputFrames - min inputFrames (inputBlock s))
            (outputFrames + no)
        }
      else Some (s, output, outputFrames))"

definition render ::
  "'f fpu \<Rightarrow> 'f audio_src \<Rightarrow> int list \<Rightarrow> int \<Rightarrow> ('f audio_src \<times> int list \<times> int) option" where
  "render fp s input inputFrames = renderLoop fp s input [] inputFrames 0"

section \<open>The schedule of the output frames\<close>

text \<open>
  The definitions of this section are not code of the source: they describe what its
  loops compute, and the theorems below prove that they do.

  Both modes of the multirate filters advance a position in the input by a fixed amount
  for each output frame, in units of \<open>1 / M\<close> of an input frame: \<open>D\<close> units with
  \<open>M = U\<close> in rational mode, \<open>step\<close> units with \<open>M = 2\<^sup>3\<^sup>2\<close> in irrational mode.
  \<open>outputPoints S L nx V p\<close> lists the positions below the limit \<open>L\<close>, starting at \<open>V\<close>, each
  with its phase index (\<open>nx\<close> gives the next phase index).
\<close>

function outputPoints :: "int \<Rightarrow> int \<Rightarrow> (int \<Rightarrow> int) \<Rightarrow> int \<Rightarrow> int \<Rightarrow> (int \<times> int) list" where
  "outputPoints S L nx V p = (if V < L \<and> 0 < S then (V, p) # outputPoints S L nx (V + S) (nx p) else [])"
  by pat_completeness auto
termination
  by (relation "measure (\<lambda>(S, L, nx, V, p). nat (L - V))") auto

definition tapsv :: "'f fpu \<Rightarrow> 'f list \<Rightarrow> int \<Rightarrow> 'f list \<Rightarrow> int \<Rightarrow> nat list \<Rightarrow> 'f \<Rightarrow> 'f" where
  "tapsv fp c cb X i js acc =
     foldl (\<lambda>a j. fadd fp a (fmul fp (X ! nat (i + int j)) (c ! nat (cb + int j)))) acc js"

definition itapsv ::
  "'f fpu \<Rightarrow> 'f list \<Rightarrow> int \<Rightarrow> int \<Rightarrow> 'f \<Rightarrow> 'f list \<Rightarrow> int \<Rightarrow> nat list \<Rightarrow> 'f \<Rightarrow> 'f" where
  "itapsv fp c cb0 cb1 frc X i js acc =
     foldl (\<lambda>a j. fadd fp a (fmul fp (X ! nat (i + int j))
                     (fadd fp (c ! nat (cb0 + int j))
                        (fmul fp frc (fsub fp (c ! nat (cb1 + int j)) (c ! nat (cb0 + int j)))))))
       acc js"

definition storeAt :: "'a list \<Rightarrow> nat \<Rightarrow> 'a list \<Rightarrow> 'a list" where
  "storeAt xs m vs = take m xs @ vs @ drop (m + length vs) xs"


text \<open>
  The position of an object in these units, and the points of a call that consumes \<open>n\<close>
  input frames.
\<close>

definition nextPhase :: "'f audio_src \<Rightarrow> int \<Rightarrow> int" where
  "nextPhase s p = (if step s = 0 then (if p + 1 = upFactor s then 0 else p + 1) else p)"

definition fineUnit :: "'f audio_src \<Rightarrow> int" where
  "fineUnit s = (if step s = 0 then upFactor s else 2 ^ 32)"

definition fineStep :: "'f audio_src \<Rightarrow> int" where
  "fineStep s = (if step s = 0 then downFactor s else step s)"

definition finePos :: "'f audio_src \<Rightarrow> int" where
  "finePos s =
     (if step s = 0 then hi32 (offset s) * upFactor s + (phase s * downFactor s) mod upFactor s
      else offset s)"

definition points :: "'f audio_src \<Rightarrow> int \<Rightarrow> (int \<times> int) list" where
  "points s n = outputPoints (fineStep s) (n * fineUnit s) (nextPhase s) (finePos s) (phase s)"

definition frame_at :: "'f fpu \<Rightarrow> 'f audio_src \<Rightarrow> 'f list \<Rightarrow> int \<times> int \<Rightarrow> 'f" where
  "frame_at fp s X pt =
     (if step s = 0 then
        tapsv fp (polyphaseFilter s) (numTaps s * snd pt) X (fst pt div upFactor s)
          [0..<nat (numTaps s)] (fzero fp)
      else
        itapsv fp (polyphaseFilter s)
          (numTaps s * (drop_bit SRC_FRACBITS (lo32 (fst pt)) + 0))
          (numTaps s * (drop_bit SRC_FRACBITS (lo32 (fst pt)) + 1))
          (fmul fp (f_of_int fp (lo32 (fst pt) AND SRC_FRACMASK)) (QFRAC_TO_FLOAT fp))
          X (hi32 (fst pt)) [0..<nat (numTaps s)] (fzero fp))"

text \<open>
  \<open>frame_at fp s X pt\<close> is the output sample of one channel at the point \<open>pt\<close>, computed
  from the samples \<open>X\<close> of that channel: the history followed by the input.
  \<open>storeAt xs m vs\<close> is the array \<open>xs\<close> after \<open>vs\<close> has been stored from index \<open>m\<close> on.

  \<open>cfg_ok\<close> says that the tables of the object have the sizes and contents the builders
  give them, \<open>pos_ok\<close> that the position is one the filters leave behind.
\<close>

definition cfg_ok :: "'f audio_src \<Rightarrow> bool" where
  "cfg_ok s =
     (0 < numTaps s \<and> 0 \<le> step s \<and> step s < 2 ^ 62 \<and> 0 < upFactor s \<and>
      upFactor s < 2 ^ 31 \<and> 0 \<le> downFactor s \<and> downFactor s < 2 ^ 31 \<and>
      (if step s = 0 then
         0 < downFactor s \<and>
         stepTable s = makeStepTable (upFactor s) (upFactor s) (downFactor s) \<and>
         int (length (polyphaseFilter s)) = numTaps s * upFactor s
       else
         int (length (polyphaseFilter s)) = numTaps s * (SRC_PHASES + 1)))"

definition pos_ok :: "'f audio_src \<Rightarrow> bool" where
  "pos_ok s =
     (0 \<le> offset s \<and>
      (if step s = 0 then lo32 (offset s) = 0 \<and> 0 \<le> phase s \<and> phase s < upFactor s else True))"


text \<open>The object after a filter call that consumed \<open>n\<close> input frames.\<close>

definition phaseAfter :: "'f audio_src \<Rightarrow> int \<Rightarrow> int" where
  "phaseAfter s n = (nextPhase s ^^ length (points s n)) (phase s)"

definition offsetAfter :: "'f audio_src \<Rightarrow> int \<Rightarrow> int" where
  "offsetAfter s n =
     (if step s = 0 then
        ((finePos s + fineStep s * int (length (points s n)) - n * fineUnit s) div upFactor s) * 2 ^ 32
      else offset s + step s * int (length (points s n)) - n * 2 ^ 32)"

definition afterFilter :: "'f audio_src \<Rightarrow> int \<Rightarrow> 'f audio_src" where
  "afterFilter s n = s\<lparr>phase := phaseAfter s n, offset := offsetAfter s n\<rparr>"

text \<open>
  The output samples of one channel for a call that consumes \<open>n\<close> input frames, where \<open>X\<close>
  holds the samples of the channel: the \<open>numTaps - 1\<close> samples of the history, then the
  input.
\<close>

definition frames :: "'f fpu \<Rightarrow> 'f audio_src \<Rightarrow> 'f list \<Rightarrow> int \<Rightarrow> 'f list" where
  "frames fp s X n = map (frame_at fp s X) (points s n)"

text \<open>
  The invariant of the object: its tables and its position are as above, its buffers have
  the sizes the constructor gives them, and \<^verbatim>\<open>_inputBlock\<close> input frames give at most
  \<^verbatim>\<open>SRC_BLOCK\<close> output frames.
\<close>

definition src_ok :: "'f audio_src \<Rightarrow> bool" where
  "src_ok s =
     (cfg_ok s \<and> pos_ok s \<and> (numChannels s = 1 \<or> numChannels s = 2) \<and>
      numHistory s = numTaps s - 1 \<and>
      int (length (fst (history s))) = 2 * numHistory s \<and>
      int (length (snd (history s))) = 2 * numHistory s \<and>
      int (length (fst (inputs_m s))) = SRC_BLOCK \<and>
      int (length (snd (inputs_m s))) = SRC_BLOCK \<and>
      int (length (fst (outputs_m s))) = SRC_BLOCK \<and>
      int (length (snd (outputs_m s))) = SRC_BLOCK \<and>
      0 \<le> inputBlock s \<and> inputBlock s \<le> SRC_BLOCK \<and>
      inputBlock s * fineUnit s \<le> SRC_BLOCK * fineStep s)"

text \<open>The samples of a channel that a call sees: the history, then \<open>n\<close> frames of input.\<close>

definition stream :: "int \<Rightarrow> 'f list \<Rightarrow> 'f list \<Rightarrow> int \<Rightarrow> 'f list" where
  "stream nH h inp n = take (nat nH) h @ take (nat n) inp"

text \<open>
  What \<^verbatim>\<open>render\<close> computes from the interleaved samples \<open>input\<close> of the caller: channel
  \<open>j\<close> of the input as floats, the samples a channel sees, and the interleaved output of
  a block of \<open>n\<close> frames.
\<close>

definition toFloat :: "'f fpu \<Rightarrow> int \<Rightarrow> 'f" where
  "toFloat fp x = fmul fp (f_of_int fp x) (fdiv fp (f_of_int fp 1) (f_of_int fp 32768))"

definition chanIn :: "'f fpu \<Rightarrow> int \<Rightarrow> nat \<Rightarrow> int list \<Rightarrow> nat \<Rightarrow> nat \<Rightarrow> 'f list" where
  "chanIn fp nc j input a k = map (\<lambda>i. toFloat fp (input ! (nat nc * i + j))) [a..<a + k]"

definition sel :: "nat \<Rightarrow> 'a \<times> 'a \<Rightarrow> 'a" where
  "sel j p = (if j = 0 then fst p else snd p)"

definition xstream :: "'f fpu \<Rightarrow> 'f audio_src \<Rightarrow> nat \<Rightarrow> int list \<Rightarrow> int \<Rightarrow> 'f list" where
  "xstream fp s j input n =
     take (nat (numHistory s)) (sel j (history s)) @ chanIn fp (numChannels s) j input 0 (nat n)"

definition interleave16 :: "'f fpu \<Rightarrow> int \<Rightarrow> 'f list \<times> 'f list \<Rightarrow> nat list \<Rightarrow> int list" where
  "interleave16 fp nc rows is =
     concat (map (\<lambda>i. map (\<lambda>j. saturate16 fp (sel j rows ! i)) [0..<nat nc]) is)"

definition blockOut :: "'f fpu \<Rightarrow> 'f audio_src \<Rightarrow> int list \<Rightarrow> int \<Rightarrow> int list" where
  "blockOut fp s input n =
     interleave16 fp (numChannels s)
       (frames fp s (xstream fp s 0 input n) n, frames fp s (xstream fp s 1 input n) n)
       [0..<length (points s n)]"

text \<open>The part of the object that is neither a buffer nor the position.\<close>

definition config :: "'f audio_src \<Rightarrow> 'f audio_src" where
  "config s = s\<lparr>history := ([], []), inputs_m := ([], []), outputs_m := ([], []),
               offset := 0, phase := 0\<rparr>"

text \<open>
  \<open>follows s1 s fp input n\<close>: the object \<open>s1\<close> is what \<open>s\<close> becomes by consuming the first \<open>n\<close>
  frames of \<open>input\<close>, as far as later output depends on it: the same tables, the position
  and the phase after \<open>n\<close> frames, and in the history of each channel in use the last
  \<open>numTaps - 1\<close> samples seen.
\<close>

definition follows :: "'f audio_src \<Rightarrow> 'f audio_src \<Rightarrow> 'f fpu \<Rightarrow> int list \<Rightarrow> int \<Rightarrow> bool" where
  "follows s1 s fp input n =
     (src_ok s1 \<and> config s1 = config s \<and>
      offset s1 = offsetAfter s n \<and> phase s1 = phaseAfter s n \<and>
      (\<forall>j < nat (numChannels s).
         take (nat (numHistory s)) (sel j (history s1)) = drop (nat n) (xstream fp s j input n)))"

subsection \<open>A small object\<close>

text \<open>
  An instance of the operations on floats, exact arithmetic on the rationals with the
  conversion to an integer truncating toward zero, and an
  object with one channel, both rates equal and two taps: inputs at which the theorems
  below are evaluated.
\<close>

definition rat_fpu :: "rat fpu" where
  "rat_fpu = \<lparr>fadd = (+), fsub = (-), fmul = (*), fdiv = (/), flt = (<), feq = (=),
              f_of_int = rat_of_int,
              int_of_f = (\<lambda>x. if x < 0 then - \<lfloor>- x\<rfloor> else \<lfloor>x\<rfloor>)\<rparr>"

definition unity :: "int \<Rightarrow> rat audio_src" where
  "unity nc =
     \<lparr>polyphaseFilter = [1, 0], stepTable = [1],
      history = ([0, 0], [0, 0]),
      inputs_m = (replicate 1024 0, replicate 1024 0),
      outputs_m = (replicate 1024 0, replicate 1024 0),
      inputSampleRate = 1, outputSampleRate = 1, numChannels = nc,
      upFactor = 1, downFactor = 1, numTaps = 2, numHistory = 1, inputBlock = 1024,
      phase = 0, offset = 0, step = 0\<rparr>"

text \<open>
  The same object with the taps \<open>(0, 1)\<close>: each output frame is the input frame at its
  position.
\<close>

definition direct :: "rat audio_src" where
  "direct = (unity 1)\<lparr>polyphaseFilter := [0, 1]\<rparr>"


section \<open>The spec's own words\<close>

subsection \<open>The closed forms of the spec for the output-count oracles\<close>

text \<open>The table of the spec, in its own words, over the rationals embedded in the reals.\<close>

definition spec_minOutput :: "int \<Rightarrow> int \<Rightarrow> int \<Rightarrow> int \<Rightarrow> int" where
  "spec_minOutput U D stp n =
     (if stp = 0 then \<lfloor>real_of_int (n * U) / real_of_int D\<rfloor>
      else \<lfloor>real_of_int (n * 2 ^ 32) / real_of_int stp\<rfloor>)"

definition spec_maxOutput :: "int \<Rightarrow> int \<Rightarrow> int \<Rightarrow> int \<Rightarrow> int" where
  "spec_maxOutput U D stp n =
     (if stp = 0 then \<lceil>real_of_int (n * U) / real_of_int D\<rceil>
      else \<lceil>real_of_int (n * 2 ^ 32) / real_of_int stp\<rceil>)"

definition spec_minInput :: "int \<Rightarrow> int \<Rightarrow> int \<Rightarrow> int \<Rightarrow> int" where
  "spec_minInput U D stp m =
     (if stp = 0 then \<lceil>real_of_int (m * D) / real_of_int U\<rceil>
      else \<lceil>real_of_int (m * stp) / real_of_int (2 ^ 32)\<rceil>)"

definition spec_maxInput :: "int \<Rightarrow> int \<Rightarrow> int \<Rightarrow> int \<Rightarrow> int" where
  "spec_maxInput U D stp m =
     (if stp = 0 then \<lfloor>real_of_int (m * D) / real_of_int U\<rfloor>
      else \<lfloor>real_of_int (m * stp) / real_of_int (2 ^ 32)\<rfloor>)"

text \<open>
  The arguments and factors are \<^verbatim>\<open>int\<close> values, the step an \<^verbatim>\<open>int64_t\<close>; "no overflow"
  says that the 64-bit intermediate sums and the returned \<^verbatim>\<open>int\<close> are in range.
\<close>

definition oracle_ranges :: "'f audio_src \<Rightarrow> int \<Rightarrow> int \<Rightarrow> bool" where
  "oracle_ranges s n m =
     (0 \<le> n \<and> n < 2 ^ 31 \<and> 0 \<le> m \<and> m < 2 ^ 31 \<and>
      0 < upFactor s \<and> upFactor s < 2 ^ 31 \<and> 0 \<le> downFactor s \<and> downFactor s < 2 ^ 31 \<and>
      0 \<le> step s \<and> (step s = 0 \<longrightarrow> 0 < downFactor s) \<and>
      n * 2 ^ 32 + step s - 1 < 2 ^ 63 \<and> m * step s + 4294967295 < 2 ^ 63 \<and>
      spec_maxOutput (upFactor s) (downFactor s) (step s) n < 2 ^ 31 \<and>
      spec_minInput (upFactor s) (downFactor s) (step s) m < 2 ^ 31)"

subsection \<open>The number of taps, in the words of the spec\<close>

definition spec_numTaps :: "int \<Rightarrow> int \<Rightarrow> int" where
  "spec_numTaps U D =
     (if D \<le> U then PROTOTYPE_TAPS
      else \<lceil>real_of_int (PROTOTYPE_TAPS * D) / real_of_int U\<rceil>)"

text \<open>
  The number of coefficients interpolated from the prototype, \<open>oldCoefs = T0 U\<close> widened
  by \<open>D / U\<close>, and the gain handed to the interpolation.
\<close>

definition spec_numCoefs :: "int \<Rightarrow> int \<Rightarrow> int" where
  "spec_numCoefs U D = (if D \<le> U then PROTOTYPE_TAPS * U else PROTOTYPE_TAPS * D)"

definition spec_gain :: "'f fpu \<Rightarrow> int \<Rightarrow> int \<Rightarrow> 'f \<Rightarrow> 'f" where
  "spec_gain fp U D gain =
     (if D \<le> U then gain
      else fmul fp gain (fdiv fp (f_of_int fp (PROTOTYPE_TAPS * U)) (f_of_int fp (spec_numCoefs U D))))"

subsection \<open>Example objects\<close>

text \<open>An object with given factors and step and nothing else, to evaluate the oracles on.\<close>

definition factors_only :: "int \<Rightarrow> int \<Rightarrow> int \<Rightarrow> unit audio_src" where
  "factors_only U D stp =
     \<lparr> polyphaseFilter = [], stepTable = [], history = ([], []), inputs_m = ([], []),
       outputs_m = ([], []), inputSampleRate = 0, outputSampleRate = 0, numChannels = 1,
       upFactor = U, downFactor = D, numTaps = 0, numHistory = 0, inputBlock = 0,
       phase = 0, offset = 0, step = stp \<rparr>"

section \<open>Facts about the machine arithmetic\<close>

lemma wrap32_id: "- (2 ^ 31) \<le> x \<Longrightarrow> x < 2 ^ 31 \<Longrightarrow> wrap32 x = x"
  by (simp add: wrap32_def)

lemma wrap64_id: "- (2 ^ 63) \<le> x \<Longrightarrow> x < 2 ^ 63 \<Longrightarrow> wrap64 x = x"
  by (simp add: wrap64_def)

lemma cdiv_nonneg: "0 \<le> a \<Longrightarrow> 0 < b \<Longrightarrow> cdiv a b = a div b"
  by (cases "a = 0") (simp_all add: cdiv_def)

lemma crem_nonneg: "0 \<le> a \<Longrightarrow> 0 < b \<Longrightarrow> crem a b = a mod b"
  by (simp add: crem_def cdiv_nonneg minus_mult_div_eq_mod)

lemma floor_div_real: "\<lfloor>real_of_int a / real_of_int b\<rfloor> = a div b"
  by (rule floor_divide_of_int_eq)

lemma neg_div_neg:
  assumes "0 < (b::int)"
  shows "- (- a div b) = (a + b - 1) div b"
proof (cases "a mod b = 0")
  case True
  have e: "a + b - 1 = b * (a div b) + (b - 1)"
    using True mult_div_mod_eq [of b a] by simp
  have "(a + b - 1) div b = a div b"
    by (rule int_div_pos_eq [OF e]) (use assms in simp_all)
  then show ?thesis using True assms by (simp add: zdiv_zminus1_eq_if)
next
  case False
  then have r: "0 < a mod b" "a mod b < b"
    using assms pos_mod_sign [of b a] pos_mod_bound [of b a] by linarith+
  have e: "a + b - 1 = b * (a div b + 1) + (a mod b - 1)"
    using mult_div_mod_eq [of b a] by (simp add: algebra_simps)
  have "(a + b - 1) div b = a div b + 1"
    by (rule int_div_pos_eq [OF e]) (use assms r in simp_all)
  then show ?thesis using False assms by (simp add: zdiv_zminus1_eq_if)
qed

lemma ceil_div_real:
  "0 < b \<Longrightarrow> \<lceil>real_of_int a / real_of_int b\<rceil> = (a + b - 1) div b"
  by (simp add: ceiling_divide_eq_div neg_div_neg)

lemma mul31_bound:
  assumes "0 \<le> a" "a < 2 ^ 31" "0 \<le> b" "b < 2 ^ 31"
  shows "0 \<le> a * b \<and> a * b < (2 ^ 62 :: int)"
proof -
  have "a * b \<le> (2 ^ 31 - 1) * (2 ^ 31 - 1)"
    using assms by (intro mult_mono) auto
  then show ?thesis using assms by simp
qed

lemma spec_maxOutput_int:
  assumes "0 < (if stp = 0 then D else stp)"
  shows "spec_maxOutput U D stp n =
     (if stp = 0 then (n * U + D - 1) div D else (n * 2 ^ 32 + stp - 1) div stp)"
proof (cases "stp = 0")
  case True
  then have "0 < D" using assms by simp
  then show ?thesis using True by (simp only: spec_maxOutput_def ceil_div_real simp_thms if_True)
next
  case False
  then have "0 < stp" using assms by simp
  then show ?thesis using False by (simp only: spec_maxOutput_def ceil_div_real if_False)
qed

lemma spec_minInput_int:
  assumes "0 < U"
  shows "spec_minInput U D stp m =
     (if stp = 0 then (m * D + U - 1) div U else (m * stp + 4294967295) div 2 ^ 32)"
proof (cases "stp = 0")
  case True
  then show ?thesis using assms by (simp only: spec_minInput_def ceil_div_real simp_thms if_True)
next
  case False
  have "\<lceil>real_of_int (m * stp) / real_of_int (2 ^ 32)\<rceil> = (m * stp + 2 ^ 32 - 1) div 2 ^ 32"
    by (rule ceil_div_real) simp
  also have "\<dots> = (m * stp + 4294967295) div 2 ^ 32" by simp
  finally show ?thesis using False by (simp only: spec_minInput_def if_False)
qed

lemma spec_minOutput_int:
  "spec_minOutput U D stp n = (if stp = 0 then (n * U) div D else (n * 2 ^ 32) div stp)"
  by (simp only: spec_minOutput_def floor_div_real)

lemma spec_maxInput_int:
  "spec_maxInput U D stp m = (if stp = 0 then (m * D) div U else (m * stp) div 2 ^ 32)"
  by (simp only: spec_maxInput_def floor_div_real)

lemma div_le_ceil: "0 < (b::int) \<Longrightarrow> a div b \<le> (a + b - 1) div b"
  by (intro zdiv_mono1) auto

lemma getMinOutput_spec:
  assumes "oracle_ranges s n m"
  shows "getMinOutput s n = Some (spec_minOutput (upFactor s) (downFactor s) (step s) n)"
proof (cases "step s = 0")
  case True
  let ?U = "upFactor s" and ?D = "downFactor s"
  have D: "0 < ?D" and U: "0 < ?U" using assms True by (auto simp: oracle_ranges_def)
  have b: "0 \<le> n * ?U \<and> n * ?U < 2 ^ 62"
    using assms by (intro mul31_bound) (auto simp: oracle_ranges_def)
  have "spec_maxOutput ?U ?D (step s) n < 2 ^ 31"
    using assms by (simp add: oracle_ranges_def)
  then have "(n * ?U + ?D - 1) div ?D < 2 ^ 31"
    using True D by (simp add: spec_maxOutput_int)
  moreover have "(n * ?U) div ?D \<le> (n * ?U + ?D - 1) div ?D"
    using D by (rule div_le_ceil)
  moreover have "0 \<le> (n * ?U) div ?D" using b D by (simp add: pos_imp_zdiv_nonneg_iff)
  ultimately have "wrap32 ((n * ?U) div ?D) = (n * ?U) div ?D"
    by (intro wrap32_id) auto
  then show ?thesis
    using True D b
    by (simp add: getMinOutput_def spec_minOutput_int wrap64_id cdiv_nonneg)
next
  case False
  let ?S = "step s"
  have S: "0 < ?S" using assms False by (auto simp: oracle_ranges_def)
  have b: "0 \<le> n * 2 ^ 32 \<and> n * 2 ^ 32 < (2 ^ 63 :: int)"
    using assms by (auto simp: oracle_ranges_def)
  have "spec_maxOutput (upFactor s) (downFactor s) ?S n < 2 ^ 31"
    using assms by (simp add: oracle_ranges_def)
  then have "(n * 2 ^ 32 + ?S - 1) div ?S < 2 ^ 31"
    using False S by (simp add: spec_maxOutput_int)
  moreover have "(n * 2 ^ 32) div ?S \<le> (n * 2 ^ 32 + ?S - 1) div ?S"
    using S by (rule div_le_ceil)
  moreover have "0 \<le> (n * 2 ^ 32) div ?S" using b S by (simp add: pos_imp_zdiv_nonneg_iff)
  ultimately have "wrap32 ((n * 2 ^ 32) div ?S) = (n * 2 ^ 32) div ?S"
    by (intro wrap32_id) auto
  then show ?thesis
    using False S b
    by (simp add: getMinOutput_def spec_minOutput_int wrap64_id cdiv_nonneg)
qed

lemma getMaxOutput_spec:
  assumes "oracle_ranges s n m"
  shows "getMaxOutput s n = Some (spec_maxOutput (upFactor s) (downFactor s) (step s) n)"
proof (cases "step s = 0")
  case True
  let ?U = "upFactor s" and ?D = "downFactor s"
  have D: "0 < ?D" "?D < 2 ^ 31" and U: "0 < ?U"
    using assms True by (auto simp: oracle_ranges_def)
  have b: "0 \<le> n * ?U \<and> n * ?U < 2 ^ 62"
    using assms by (intro mul31_bound) (auto simp: oracle_ranges_def)
  then have b2: "0 \<le> n * ?U + ?D - 1" "n * ?U + ?D - 1 < 2 ^ 63" using D by auto
  have "spec_maxOutput ?U ?D (step s) n < 2 ^ 31"
    using assms by (simp add: oracle_ranges_def)
  then have "(n * ?U + ?D - 1) div ?D < 2 ^ 31"
    using True D by (simp add: spec_maxOutput_int)
  moreover have "0 \<le> (n * ?U + ?D - 1) div ?D"
    using b2 D by (simp add: pos_imp_zdiv_nonneg_iff)
  ultimately have "wrap32 ((n * ?U + ?D - 1) div ?D) = (n * ?U + ?D - 1) div ?D"
    by (intro wrap32_id) auto
  then show ?thesis
    using True D b b2
    by (simp add: getMaxOutput_def spec_maxOutput_int wrap64_id cdiv_nonneg)
next
  case False
  let ?S = "step s"
  have S: "0 < ?S" using assms False by (auto simp: oracle_ranges_def)
  have b: "0 \<le> n * 2 ^ 32 \<and> n * 2 ^ 32 < (2 ^ 63 :: int)"
    using assms by (auto simp: oracle_ranges_def)
  have b2: "0 \<le> n * 2 ^ 32 + ?S - 1" "n * 2 ^ 32 + ?S - 1 < 2 ^ 63"
    using assms S by (auto simp: oracle_ranges_def)
  have "spec_maxOutput (upFactor s) (downFactor s) ?S n < 2 ^ 31"
    using assms by (simp add: oracle_ranges_def)
  then have "(n * 2 ^ 32 + ?S - 1) div ?S < 2 ^ 31"
    using False S by (simp add: spec_maxOutput_int)
  moreover have "0 \<le> (n * 2 ^ 32 + ?S - 1) div ?S"
    using b2 S by (simp add: pos_imp_zdiv_nonneg_iff)
  ultimately have "wrap32 ((n * 2 ^ 32 + ?S - 1) div ?S) = (n * 2 ^ 32 + ?S - 1) div ?S"
    by (intro wrap32_id) auto
  then show ?thesis
    using False S b b2
    by (simp add: getMaxOutput_def spec_maxOutput_int wrap64_id cdiv_nonneg)
qed

lemma getMinInput_spec:
  assumes "oracle_ranges s n m"
  shows "getMinInput s m = Some (spec_minInput (upFactor s) (downFactor s) (step s) m)"
proof (cases "step s = 0")
  case True
  let ?U = "upFactor s" and ?D = "downFactor s"
  have U: "0 < ?U" "?U < 2 ^ 31" using assms True by (auto simp: oracle_ranges_def)
  have b: "0 \<le> m * ?D \<and> m * ?D < 2 ^ 62"
    using assms by (intro mul31_bound) (auto simp: oracle_ranges_def)
  then have b2: "0 \<le> m * ?D + ?U - 1" "m * ?D + ?U - 1 < 2 ^ 63" using U by auto
  have "spec_minInput ?U ?D (step s) m < 2 ^ 31"
    using assms by (simp add: oracle_ranges_def)
  then have "(m * ?D + ?U - 1) div ?U < 2 ^ 31"
    using True U by (simp add: spec_minInput_int)
  moreover have "0 \<le> (m * ?D + ?U - 1) div ?U"
    using b2 U by (simp add: pos_imp_zdiv_nonneg_iff)
  ultimately have "wrap32 ((m * ?D + ?U - 1) div ?U) = (m * ?D + ?U - 1) div ?U"
    by (intro wrap32_id) auto
  then show ?thesis
    using True U b b2
    by (simp add: getMinInput_def spec_minInput_int wrap64_id cdiv_nonneg)
next
  case False
  let ?S = "step s"
  have S: "0 < ?S" and U: "0 < upFactor s" and m: "0 \<le> m"
    using assms False by (auto simp: oracle_ranges_def)
  have b2: "m * ?S + 4294967295 < 2 ^ 63"
    using assms by (auto simp: oracle_ranges_def)
  have b0: "0 \<le> m * ?S" using m S by simp
  have "spec_minInput (upFactor s) (downFactor s) ?S m < 2 ^ 31"
    using assms by (simp add: oracle_ranges_def)
  then have "(m * ?S + 4294967295) div 2 ^ 32 < 2 ^ 31"
    using False U by (simp add: spec_minInput_int)
  moreover have "0 \<le> (m * ?S + 4294967295) div 2 ^ 32"
    using b0 by (simp add: pos_imp_zdiv_nonneg_iff)
  ultimately have
    "wrap32 ((m * ?S + 4294967295) div 2 ^ 32) = (m * ?S + 4294967295) div 2 ^ 32"
    by (intro wrap32_id) auto
  moreover have "wrap64 (m * ?S) = m * ?S" using b0 b2 by (intro wrap64_id) auto
  moreover have "wrap64 (m * ?S + 4294967295) = m * ?S + 4294967295"
    using b0 b2 by (intro wrap64_id) auto
  ultimately show ?thesis
    using False U by (simp add: getMinInput_def spec_minInput_int)
qed

lemma getMaxInput_spec:
  assumes "oracle_ranges s n m"
  shows "getMaxInput s m = Some (spec_maxInput (upFactor s) (downFactor s) (step s) m)"
proof (cases "step s = 0")
  case True
  let ?U = "upFactor s" and ?D = "downFactor s"
  have U: "0 < ?U" "?U < 2 ^ 31" using assms True by (auto simp: oracle_ranges_def)
  have b: "0 \<le> m * ?D \<and> m * ?D < 2 ^ 62"
    using assms by (intro mul31_bound) (auto simp: oracle_ranges_def)
  have "spec_minInput ?U ?D (step s) m < 2 ^ 31"
    using assms by (simp add: oracle_ranges_def)
  then have "(m * ?D + ?U - 1) div ?U < 2 ^ 31"
    using True U by (simp add: spec_minInput_int)
  moreover have "(m * ?D) div ?U \<le> (m * ?D + ?U - 1) div ?U"
    using U by (intro div_le_ceil)
  moreover have "0 \<le> (m * ?D) div ?U"
    using b U by (simp add: pos_imp_zdiv_nonneg_iff)
  ultimately have "wrap32 ((m * ?D) div ?U) = (m * ?D) div ?U"
    by (intro wrap32_id) auto
  then show ?thesis
    using True U b
    by (simp add: getMaxInput_def spec_maxInput_int wrap64_id cdiv_nonneg)
next
  case False
  let ?S = "step s"
  have S: "0 < ?S" and U: "0 < upFactor s" and m: "0 \<le> m"
    using assms False by (auto simp: oracle_ranges_def)
  have b2: "m * ?S + 4294967295 < 2 ^ 63"
    using assms by (auto simp: oracle_ranges_def)
  have b0: "0 \<le> m * ?S" using m S by simp
  have "spec_minInput (upFactor s) (downFactor s) ?S m < 2 ^ 31"
    using assms by (simp add: oracle_ranges_def)
  then have "(m * ?S + 4294967295) div 2 ^ 32 < 2 ^ 31"
    using False U by (simp add: spec_minInput_int)
  moreover have "(m * ?S) div 2 ^ 32 \<le> (m * ?S + 4294967295) div 2 ^ 32"
    by (intro zdiv_mono1) auto
  moreover have "0 \<le> (m * ?S) div 2 ^ 32"
    using b0 by (simp add: pos_imp_zdiv_nonneg_iff)
  ultimately have "wrap32 ((m * ?S) div 2 ^ 32) = (m * ?S) div 2 ^ 32"
    by (intro wrap32_id) auto
  moreover have "wrap64 (m * ?S) = m * ?S" using b0 b2 by (intro wrap64_id) auto
  ultimately show ?thesis
    using False by (simp add: getMaxInput_def spec_maxInput_int)
qed

text \<open>
  Claim C8.  For non-negative frame counts \<open>n\<close> and \<open>m\<close>, with the 64-bit sums and the
  returned \<^verbatim>\<open>int\<close> in range, the four oracles return the floors and ceilings of the
  spec's table: \<open>\<lfloor>n U / D\<rfloor>\<close>, \<open>\<lceil>n U / D\<rceil>\<close>, \<open>\<lceil>m D / U\<rceil>\<close>, \<open>\<lfloor>m D / U\<rfloor>\<close> in rational mode
  and \<open>\<lfloor>n 2\<^sup>3\<^sup>2 / step\<rfloor>\<close>, \<open>\<lceil>n 2\<^sup>3\<^sup>2 / step\<rceil>\<close>, \<open>\<lceil>m step / 2\<^sup>3\<^sup>2\<rceil>\<close>, \<open>\<lfloor>m step / 2\<^sup>3\<^sup>2\<rfloor>\<close> in
  irrational mode.
\<close>

theorem C8_output_count_oracles:
  assumes "oracle_ranges s n m"
  shows "getMinOutput s n = Some (spec_minOutput (upFactor s) (downFactor s) (step s) n) \<and>
         getMaxOutput s n = Some (spec_maxOutput (upFactor s) (downFactor s) (step s) n) \<and>
         getMinInput s m = Some (spec_minInput (upFactor s) (downFactor s) (step s) m) \<and>
         getMaxInput s m = Some (spec_maxInput (upFactor s) (downFactor s) (step s) m)"
  using assms
  by (simp only: getMinOutput_spec getMaxOutput_spec getMinInput_spec getMaxInput_spec simp_thms)

theorem C8_output_count_oracles_witness:
  "oracle_ranges (factors_only 160 147 0) 1024 1024 \<and>
   getMinOutput (factors_only 160 147 0) 1024 = Some 1114 \<and>
   getMaxOutput (factors_only 160 147 0) 1024 = Some 1115 \<and>
   getMinInput (factors_only 160 147 0) 1024 = Some 941 \<and>
   getMaxInput (factors_only 160 147 0) 1024 = Some 940 \<and>
   oracle_ranges (factors_only 256 235 3945918996) 1024 1024 \<and>
   getMinOutput (factors_only 256 235 3945918996) 1024 = Some 1114 \<and>
   getMaxOutput (factors_only 256 235 3945918996) 1024 = Some 1115 \<and>
   getMinInput (factors_only 256 235 3945918996) 1024 = Some 941 \<and>
   getMaxInput (factors_only 256 235 3945918996) 1024 = Some 940"
proof -
  have r: "oracle_ranges (factors_only 160 147 0) 1024 1024"
    by (simp add: oracle_ranges_def factors_only_def spec_maxOutput_int spec_minInput_int)
  have i: "oracle_ranges (factors_only 256 235 3945918996) 1024 1024"
    by (simp add: oracle_ranges_def factors_only_def spec_maxOutput_int spec_minInput_int)
  show ?thesis
    using C8_output_count_oracles [OF r] C8_output_count_oracles [OF i] r i
    by (simp add: factors_only_def spec_maxOutput_int spec_minInput_int spec_minOutput_int
        spec_maxInput_int)
qed

section \<open>The step table\<close>

lemma telescope_list:
  "sum_list (map (\<lambda>i. g (int i + 1) - g (int i + 0)) [0..<n]) = g (int n) - (g 0 :: int)"
  by (induction n) (simp_all add: add.commute)

text \<open>
  Claim C5.  For factors \<open>U > 0\<close> and \<open>D \<ge> 0\<close> the step table that
  \<^verbatim>\<open>createRationalFilter\<close> builds has \<open>U\<close> entries, entry \<open>i\<close> is
  \<open>\<lfloor>(i+1) D / U\<rfloor> - \<lfloor>i D / U\<rfloor>\<close>, and the entries sum to \<open>D\<close>.
\<close>

theorem C5_step_table_sums_to_downFactor:
  assumes "0 < U" and "0 \<le> D"
  shows "length (makeStepTable U U D) = nat U \<and>
         (\<forall>i < nat U. makeStepTable U U D ! i =
            \<lfloor>real_of_int ((int i + 1) * D) / real_of_int U\<rfloor> - \<lfloor>real_of_int (int i * D) / real_of_int U\<rfloor>) \<and>
         sum_list (makeStepTable U U D) = D \<and>
         (\<forall>r. createRationalFilter fp proto U D gain = Some r \<longrightarrow> snd (snd r) = makeStepTable U U D)"
proof -
  have len: "length (makeStepTable U U D) = nat U"
    by (simp add: makeStepTable_def)
  have nth: "makeStepTable U U D ! i =
      \<lfloor>real_of_int ((int i + 1) * D) / real_of_int U\<rfloor> - \<lfloor>real_of_int (int i * D) / real_of_int U\<rfloor>"
    if "i < nat U" for i
  proof -
    have "makeStepTable U U D ! i = cdiv ((int i + 1) * D) U - cdiv (int i * D) U"
      using that by (simp add: makeStepTable_def)
    also have "\<dots> = ((int i + 1) * D) div U - (int i * D) div U"
      using assms by (simp add: cdiv_nonneg)
    finally show ?thesis by (simp only: floor_div_real)
  qed
  have "sum_list (makeStepTable U U D) = cdiv (int (nat U) * D) U - cdiv (0 * D) U"
    unfolding makeStepTable_def
    by (rule telescope_list [where g = "\<lambda>k. cdiv (k * D) U"])
  also have "\<dots> = D" using assms by (simp add: cdiv_nonneg)
  finally have total: "sum_list (makeStepTable U U D) = D" .
  have built: "snd (snd r) = makeStepTable U U D"
    if "createRationalFilter fp proto U D gain = Some r" for r
    using that
    by (auto simp: createRationalFilter_def rationalBank_def Let_def
        split: Option.bind_splits if_splits prod.splits)
  show ?thesis using len nth total built by blast
qed

theorem C5_step_table_sums_to_downFactor_witness:
  "(0::int) < 160 \<and> (0::int) \<le> 147 \<and> length (makeStepTable 160 160 147) = 160 \<and>
   sum_list (makeStepTable 160 160 147) = 147"
  using C5_step_table_sums_to_downFactor [of 160 147 "undefined :: unit fpu" "[]" "()"] by simp

section \<open>Construction: the reduced fraction and the mode\<close>

lemma gcd_src_correct: "0 < a \<Longrightarrow> 0 < b \<Longrightarrow> gcd_src a b = Some (gcd a b)"
proof (induction "nat (a + b)" arbitrary: a b rule: less_induct)
  case less
  show ?case
  proof (cases "a = b")
    case True
    then show ?thesis using less.prems by (subst gcd_src.simps) simp
  next
    case False
    show ?thesis
    proof (cases "a > b")
      case True
      have "gcd_src (a - b) b = Some (gcd (a - b) b)"
        using less.prems True by (intro less.hyps) auto
      moreover have "gcd (a - b) b = gcd a b" by (rule gcd_diff1)
      ultimately show ?thesis using True False by (subst gcd_src.simps) simp
    next
      case F: False
      have "gcd_src a (b - a) = Some (gcd a (b - a))"
        using less.prems F False by (intro less.hyps) auto
      moreover have "gcd a (b - a) = gcd a b"
        using gcd_diff1 [of b a] by (simp add: gcd.commute)
      ultimately show ?thesis using F False by (subst gcd_src.simps) simp
    qed
  qed
qed

lemma irrational_step_pos:
  assumes "0 < Fin" "0 < Fout" "Fout < 2 ^ 31"
  shows "0 < (Fin * 2 ^ 32) div (Fout :: int)"
proof -
  have "Fout \<le> Fin * 2 ^ 32" using assms by simp
  then show ?thesis using assms by (simp add: pos_imp_zdiv_pos_iff)
qed

lemma irrational_down_range:
  assumes "0 < Fin" "Fin < 2 ^ 31" "640 < (Fout :: int)"
  shows "0 \<le> (256 * Fin) div Fout \<and> (256 * Fin) div Fout < 2 ^ 31"
proof -
  have "(256 * Fin) div Fout \<le> (256 * Fin) div 256"
    using assms by (intro zdiv_mono2) auto
  then show ?thesis using assms by (simp add: pos_imp_zdiv_nonneg_iff)
qed

lemma chooseMode_value:
  assumes "0 < Fin" "Fin < 2 ^ 31" "0 < Fout" "Fout < 2 ^ 31"
  shows "chooseMode Fin Fout =
     Some (if Fout div gcd Fin Fout \<le> 640
           then (Fout div gcd Fin Fout, Fin div gcd Fin Fout, 0)
           else (256, (256 * Fin) div Fout, (Fin * 2 ^ 32) div Fout))"
proof -
  let ?g = "gcd Fin Fout"
  have g: "0 < ?g" using assms by simp
  then have g1: "1 \<le> ?g" by linarith
  have U: "cdiv Fout ?g = Fout div ?g" and D: "cdiv Fin ?g = Fin div ?g"
    using assms g by (simp_all add: cdiv_nonneg)
  show ?thesis
  proof (cases "Fout div ?g \<le> 640")
    case True
    then show ?thesis
      using assms g U D by (simp add: chooseMode_def gcd_src_correct)
  next
    case False
    have "Fout div ?g \<le> Fout div 1" using assms(3) g1 by (intro zdiv_mono2) simp_all
    then have big: "640 < Fout" using False by simp
    have r: "0 \<le> (256 * Fin) div Fout" "(256 * Fin) div Fout < 2 ^ 31"
      using irrational_down_range [OF assms(1,2) big] by simp_all
    have "wrap32 (cdiv (256 * Fin) Fout) = (256 * Fin) div Fout"
      using assms r by (simp add: cdiv_nonneg wrap32_id)
    moreover have "cdiv (Fin * 2 ^ 32) Fout = (Fin * 2 ^ 32) div Fout"
      using assms by (simp add: cdiv_nonneg)
    ultimately show ?thesis
      using assms g U False
      by (simp add: chooseMode_def gcd_src_correct SRC_PHASES_def SRC_PHASEBITS_def)
  qed
qed

lemma AudioSRC_mode:
  "AudioSRC fp proto Fin Fout C = Some s \<Longrightarrow>
   chooseMode Fin Fout = Some (upFactor s, downFactor s, step s)"
  unfolding AudioSRC_def
  by (auto simp: Let_def split: if_splits Option.bind_splits prod.splits)

text \<open>
  Claim C4.  For sample rates \<open>Fin > 0\<close> and \<open>Fout > 0\<close> (values of \<^verbatim>\<open>int\<close>), with
  \<open>g = gcd Fin Fout\<close>: the construction chooses rational mode, \<open>U = Fout / g\<close>,
  \<open>D = Fin / g\<close> and \<open>step = 0\<close>, if the reduced \<open>U \<le> 640\<close>; otherwise it chooses
  irrational mode with \<open>U = 256\<close>, \<open>D = \<lfloor>256 Fin / Fout\<rfloor>\<close> and
  \<open>step = \<lfloor>2\<^sup>3\<^sup>2 Fin / Fout\<rfloor>\<close>, which is not zero; and these are the factors and the step
  of every constructed object.
\<close>

theorem C4_mode_selection:
  assumes "0 < Fin" "Fin < 2 ^ 31" "0 < Fout" "Fout < 2 ^ 31"
  shows "chooseMode Fin Fout =
           Some (if Fout div gcd Fin Fout \<le> 640
                 then (Fout div gcd Fin Fout, Fin div gcd Fin Fout, 0)
                 else (256, \<lfloor>real_of_int (256 * Fin) / real_of_int Fout\<rfloor>,
                       \<lfloor>real_of_int (2 ^ 32 * Fin) / real_of_int Fout\<rfloor>)) \<and>
         \<lfloor>real_of_int (2 ^ 32 * Fin) / real_of_int Fout\<rfloor> \<noteq> 0 \<and>
         (\<forall>s. AudioSRC fp proto Fin Fout C = Some s \<longrightarrow>
              (step s = 0 \<longleftrightarrow> Fout div gcd Fin Fout \<le> 640) \<and>
              chooseMode Fin Fout = Some (upFactor s, downFactor s, step s))"
proof -
  have f1: "\<lfloor>real_of_int (256 * Fin) / real_of_int Fout\<rfloor> = (256 * Fin) div Fout"
    by (simp only: floor_div_real)
  have f2: "\<lfloor>real_of_int (2 ^ 32 * Fin) / real_of_int Fout\<rfloor> = (Fin * 2 ^ 32) div Fout"
    by (simp only: floor_div_real mult.commute)
  have pos: "0 < (Fin * 2 ^ 32) div Fout"
    using assms by (intro irrational_step_pos) auto
  have v: "chooseMode Fin Fout =
     Some (if Fout div gcd Fin Fout \<le> 640
           then (Fout div gcd Fin Fout, Fin div gcd Fin Fout, 0)
           else (256, (256 * Fin) div Fout, (Fin * 2 ^ 32) div Fout))"
    using assms by (rule chooseMode_value)
  have c: "(step s = 0 \<longleftrightarrow> Fout div gcd Fin Fout \<le> 640) \<and>
           chooseMode Fin Fout = Some (upFactor s, downFactor s, step s)"
    if "AudioSRC fp proto Fin Fout C = Some s" for s
    using AudioSRC_mode [OF that] v pos by (auto split: if_splits)
  show ?thesis
    unfolding f1 f2 using v pos c by simp
qed

theorem C4_mode_selection_witness:
  "chooseMode 44100 48000 = Some (160, 147, 0) \<and>
   chooseMode 44100 48001 = Some (256, 235, 3945918996)"
proof -
  have g: "gcd (44100::int) 48000 = 300" "gcd (44100::int) 48001 = 1"
    by code_simp+
  show ?thesis
    using C4_mode_selection [of 44100 48000 "undefined :: unit fpu" "[]" 1]
          C4_mode_selection [of 44100 48001 "undefined :: unit fpu" "[]" 1]
    by (simp add: g)
qed

section \<open>Facts about the schedule of the output frames\<close>

declare outputPoints.simps [simp del]

lemma outputPoints_shift:
  "outputPoints S (L + c) nx (V + c) p = map (\<lambda>(v, q). (v + c, q)) (outputPoints S L nx V p)"
proof (induction S L nx V p rule: outputPoints.induct)
  case (1 S L nx V p)
  show ?case
  proof (cases "V < L \<and> 0 < S")
    case True
    then have "outputPoints S (L + c) nx (V + S + c) (nx p) =
               map (\<lambda>(v, q). (v + c, q)) (outputPoints S L nx (V + S) (nx p))"
      using 1 by simp
    then show ?thesis using True
      by (subst outputPoints.simps, subst (2) outputPoints.simps) (simp add: add.commute add.left_commute)
  next
    case False
    then show ?thesis by (subst outputPoints.simps, subst (2) outputPoints.simps) auto
  qed
qed

lemma outputPoints_split:
  assumes "L1 \<le> L2"
  shows "outputPoints S L2 nx V p =
         outputPoints S L1 nx V p @
         outputPoints S L2 nx (V + S * int (length (outputPoints S L1 nx V p)))
           ((nx ^^ length (outputPoints S L1 nx V p)) p)"
  using assms
proof (induction S L1 nx V p rule: outputPoints.induct)
  case (1 S L1 nx V p)
  show ?case
  proof (cases "V < L1 \<and> 0 < S")
    case True
    note IH = 1(1) [OF True 1(2)]
    have e: "outputPoints S L1 nx V p = (V, p) # outputPoints S L1 nx (V + S) (nx p)"
      using True by (subst outputPoints.simps) simp
    have "V < L2" using True 1(2) by linarith
    then have e2: "outputPoints S L2 nx V p = (V, p) # outputPoints S L2 nx (V + S) (nx p)"
      using True by (subst outputPoints.simps) simp
    show ?thesis
      unfolding e e2 using IH by (simp add: algebra_simps funpow_swap1)
  next
    case False
    then have "outputPoints S L1 nx V p = []" by (subst outputPoints.simps) auto
    then show ?thesis by simp
  qed
qed

lemma outputPoints_length:
  "0 < S \<Longrightarrow> length (outputPoints S L nx V p) = nat ((L - V + S - 1) div S)"
proof (induction S L nx V p rule: outputPoints.induct)
  case (1 S L nx V p)
  show ?case
  proof (cases "V < L")
    case True
    have e: "outputPoints S L nx V p = (V, p) # outputPoints S L nx (V + S) (nx p)"
      using True 1(2) by (subst outputPoints.simps) simp
    have "length (outputPoints S L nx (V + S) (nx p)) = nat ((L - (V + S) + S - 1) div S)"
      using 1 True by simp
    moreover have "(L - V + S - 1) div S = (L - V - 1) div S + 1"
      using 1(2) div_add_self2 [of S "L - V - 1"] by (simp add: algebra_simps)
    moreover have "0 \<le> (L - V - 1) div S"
      using True 1(2) by (simp add: pos_imp_zdiv_nonneg_iff)
    ultimately show ?thesis unfolding e by (simp add: nat_add_distrib)
  next
    case False
    have "(L - V + S - 1) div S \<le> (S - 1) div S"
      using False 1(2) by (intro zdiv_mono1) auto
    also have "\<dots> = 0" using 1(2) by simp
    finally have "nat ((L - V + S - 1) div S) = 0" by simp
    moreover have "outputPoints S L nx V p = []"
      using False by (subst outputPoints.simps) auto
    ultimately show ?thesis by simp
  qed
qed

lemma outputPoints_range:
  "(v, q) \<in> set (outputPoints S L nx V p) \<Longrightarrow> V \<le> v \<and> v < L"
proof (induction S L nx V p rule: outputPoints.induct)
  case (1 S L nx V p)
  show ?case
  proof (cases "V < L \<and> 0 < S")
    case True
    have e: "outputPoints S L nx V p = (V, p) # outputPoints S L nx (V + S) (nx p)"
      using True by (subst outputPoints.simps) simp
    show ?thesis using 1 True unfolding e by auto
  next
    case False
    then have "outputPoints S L nx V p = []" by (subst outputPoints.simps) auto
    then show ?thesis using 1(2) by simp
  qed
qed

lemma outputPoints_end:
  "0 < S \<Longrightarrow> L \<le> V + S * int (length (outputPoints S L nx V p)) \<and>
     V \<le> V + S * int (length (outputPoints S L nx V p))"
proof (induction S L nx V p rule: outputPoints.induct)
  case (1 S L nx V p)
  show ?case
  proof (cases "V < L")
    case True
    have e: "outputPoints S L nx V p = (V, p) # outputPoints S L nx (V + S) (nx p)"
      using True 1(2) by (subst outputPoints.simps) simp
    show ?thesis using 1 True unfolding e by (auto simp: algebra_simps)
  next
    case False
    then have "outputPoints S L nx V p = []" by (subst outputPoints.simps) auto
    then show ?thesis using False by simp
  qed
qed

lemma taps1_eq:
  "0 \<le> i \<Longrightarrow> 0 \<le> cb \<Longrightarrow>
   \<forall>j \<in> set js. i + int j < int (length X) \<and> cb + int j < int (length c) \<Longrightarrow>
   taps1 fp c cb X i js acc = Some (tapsv fp c cb X i js acc)"
  by (induction js arbitrary: acc) (simp_all add: tapsv_def rd_def)

lemma taps2_eq:
  "0 \<le> i \<Longrightarrow> 0 \<le> cb \<Longrightarrow>
   \<forall>j \<in> set js. i + int j < int (length X0) \<and> i + int j < int (length X1) \<and>
      cb + int j < int (length c) \<Longrightarrow>
   taps2 fp c cb X0 X1 i js acc =
     Some (tapsv fp c cb X0 i js (fst acc), tapsv fp c cb X1 i js (snd acc))"
  by (induction js arbitrary: acc) (simp_all add: tapsv_def rd_def)

lemma itaps1_eq:
  "0 \<le> i \<Longrightarrow> 0 \<le> cb0 \<Longrightarrow> 0 \<le> cb1 \<Longrightarrow>
   \<forall>j \<in> set js. i + int j < int (length X) \<and> cb0 + int j < int (length c) \<and>
      cb1 + int j < int (length c) \<Longrightarrow>
   itaps1 fp c cb0 cb1 frc X i js acc = Some (itapsv fp c cb0 cb1 frc X i js acc)"
  by (induction js arbitrary: acc) (simp_all add: itapsv_def rd_def)

lemma itaps2_eq:
  "0 \<le> i \<Longrightarrow> 0 \<le> cb0 \<Longrightarrow> 0 \<le> cb1 \<Longrightarrow>
   \<forall>j \<in> set js. i + int j < int (length X0) \<and> i + int j < int (length X1) \<and>
      cb0 + int j < int (length c) \<and> cb1 + int j < int (length c) \<Longrightarrow>
   itaps2 fp c cb0 cb1 frc X0 X1 i js acc =
     Some (itapsv fp c cb0 cb1 frc X0 i js (fst acc), itapsv fp c cb0 cb1 frc X1 i js (snd acc))"
  by (induction js arbitrary: acc) (simp_all add: itapsv_def rd_def)

lemma tapsv_cong:
  "\<forall>j \<in> set js. X ! nat (i + int j) = Y ! nat (i' + int j) \<Longrightarrow>
   tapsv fp c cb X i js acc = tapsv fp c cb Y i' js acc"
  by (induction js arbitrary: acc) (simp_all add: tapsv_def)

lemma itapsv_cong:
  "\<forall>j \<in> set js. X ! nat (i + int j) = Y ! nat (i' + int j) \<Longrightarrow>
   itapsv fp c cb0 cb1 frc X i js acc = itapsv fp c cb0 cb1 frc Y i' js acc"
  by (induction js arbitrary: acc) (simp_all add: itapsv_def)

lemma storeAt_Nil: "storeAt xs m [] = xs"
  by (simp add: storeAt_def)

lemma storeAt_step:
  "m < length xs \<Longrightarrow> storeAt (xs[m := v]) (Suc m) vs = storeAt xs m (v # vs)"
  by (simp add: storeAt_def take_Suc_conv_app_nth)

lemma length_storeAt: "m + length vs \<le> length xs \<Longrightarrow> length (storeAt xs m vs) = length xs"
  by (simp add: storeAt_def)

lemma storeAt_storeAt:
  "m + length vs + length ws \<le> length xs \<Longrightarrow>
   storeAt (storeAt xs m vs) (m + length vs) ws = storeAt xs m (vs @ ws)"
  by (simp add: storeAt_def ac_simps)

lemma take_storeAt0: "length vs \<le> length xs \<Longrightarrow> take (length vs) (storeAt xs 0 vs) = vs"
  by (simp add: storeAt_def)

lemma stepTable_nth:
  assumes "0 < U" "0 \<le> D" "0 \<le> p" "p < U"
  shows "rd (makeStepTable U U D) p = Some (((p + 1) * D) div U - (p * D) div U)"
  using assms by (simp add: rd_def makeStepTable_def cdiv_nonneg)

lemma fine_advance:
  assumes "0 < (U::int)"
  shows "(i + (((p + 1) * D) div U - (p * D) div U)) * U + ((p + 1) * D) mod U
         = i * U + (p * D) mod U + D"
proof -
  have a: "(p + 1) * D = U * (((p + 1) * D) div U) + ((p + 1) * D) mod U" by simp
  have b: "p * D = U * ((p * D) div U) + (p * D) mod U" by simp
  have "(p + 1) * D - p * D = D" by (simp add: algebra_simps)
  then show ?thesis using a b by (smt (verit) distrib_left mult.commute right_diff_distrib)
qed

lemma fine_wrap:
  assumes "0 < (U::int)" "p + 1 = U"
  shows "((p + 1) * D) mod U = (0 * D) mod U"
  using assms by simp

lemma fine_lt:
  assumes "0 < (U::int)" "0 \<le> r" "r < U"
  shows "i * U + r < n * U \<longleftrightarrow> i < n"
proof
  assume "i < n"
  then have "i + 1 \<le> n" by simp
  then have "(i + 1) * U \<le> n * U" using assms by (intro mult_right_mono) auto
  then show "i * U + r < n * U" using assms by (simp add: algebra_simps)
next
  assume a: "i * U + r < n * U"
  show "i < n"
  proof (rule ccontr)
    assume "\<not> i < n"
    then have "n * U \<le> i * U" using assms by (intro mult_right_mono) auto
    then show False using a assms by linarith
  qed
qed

lemma cfg_ok_phase [simp]: "cfg_ok (s\<lparr>phase := x\<rparr>) = cfg_ok s"
  by (simp add: cfg_ok_def)

lemma cfg_ok_offset [simp]: "cfg_ok (s\<lparr>offset := x\<rparr>) = cfg_ok s"
  by (simp add: cfg_ok_def)

lemma nextPhase_phase [simp]: "nextPhase (s\<lparr>phase := x\<rparr>) = nextPhase s"
  by (rule ext) (simp add: nextPhase_def)

lemma nextPhase_offset [simp]: "nextPhase (s\<lparr>offset := x\<rparr>) = nextPhase s"
  by (rule ext) (simp add: nextPhase_def)

lemma frame_at_phase [simp]: "frame_at fp (s\<lparr>phase := x\<rparr>) = frame_at fp s"
  by (intro ext) (simp add: frame_at_def)

lemma frame_at_offset [simp]: "frame_at fp (s\<lparr>offset := x\<rparr>) = frame_at fp s"
  by (intro ext) (simp add: frame_at_def)

lemma rational_row_bounds:
  assumes "cfg_ok s" "step s = 0" "0 \<le> p" "p < upFactor s" "j < nat (numTaps s)"
  shows "0 \<le> numTaps s * p \<and> numTaps s * p + int j < int (length (polyphaseFilter s))"
proof -
  have nt: "0 < numTaps s" and len: "int (length (polyphaseFilter s)) = numTaps s * upFactor s"
    using assms by (auto simp: cfg_ok_def)
  have "numTaps s * (p + 1) \<le> numTaps s * upFactor s"
    using assms nt by (intro mult_left_mono) auto
  then have "numTaps s * p + numTaps s \<le> int (length (polyphaseFilter s))"
    using len by (simp add: algebra_simps)
  moreover have "0 \<le> numTaps s * p" using nt assms by simp
  ultimately show ?thesis using assms by linarith
qed

lemma rational_step_facts:
  assumes cfg: "cfg_ok s" "step s = 0"
    and p: "0 \<le> p" "p < upFactor s"
    and i: "0 \<le> i"
    and V: "V = i * upFactor s + (p * downFactor s) mod upFactor s"
    and lt: "V < n * upFactor s"
  shows "i < n"
    and "V div upFactor s = i"
    and "\<exists>d. rd (stepTable s) p = Some d \<and> 0 \<le> i + d \<and>
           V + downFactor s = (i + d) * upFactor s + (nextPhase s p * downFactor s) mod upFactor s"
    and "0 \<le> nextPhase s p \<and> nextPhase s p < upFactor s"
proof -
  let ?U = "upFactor s" and ?D = "downFactor s"
  have U: "0 < ?U" and D: "0 < ?D" and tbl: "stepTable s = makeStepTable ?U ?U ?D"
    using cfg by (auto simp: cfg_ok_def)
  have r: "0 \<le> (p * ?D) mod ?U" "(p * ?D) mod ?U < ?U" using U by simp_all
  show "i < n" using fine_lt [OF U r] lt V by simp
  show "V div ?U = i" using V U r by (simp add: div_pos_pos_trivial)
  let ?d = "((p + 1) * ?D) div ?U - (p * ?D) div ?U"
  have rd: "rd (stepTable s) p = Some ?d"
    unfolding tbl using U D p by (intro stepTable_nth) auto
  have "(p * ?D) div ?U \<le> ((p + 1) * ?D) div ?U"
    using U D by (intro zdiv_mono1) (auto simp: algebra_simps)
  then have d0: "0 \<le> ?d" by simp
  have nx: "(nextPhase s p * ?D) mod ?U = ((p + 1) * ?D) mod ?U"
    using cfg(2) U by (auto simp: nextPhase_def)
  have "V + ?D = (i + ?d) * ?U + (nextPhase s p * ?D) mod ?U"
    unfolding nx V using fine_advance [OF U, of i p ?D] by simp
  then show "\<exists>d. rd (stepTable s) p = Some d \<and> 0 \<le> i + d \<and>
           V + ?D = (i + d) * ?U + (nextPhase s p * ?D) mod ?U"
    using rd d0 i by auto
  show "0 \<le> nextPhase s p \<and> nextPhase s p < ?U"
    using p cfg(2) by (auto simp: nextPhase_def)
qed

lemma rational_taps1:
  assumes cfg: "cfg_ok s" "step s = 0"
    and p: "0 \<le> p" "p < upFactor s"
    and i: "0 \<le> i" "i < n" "V div upFactor s = i"
    and inb: "n + numTaps s - 1 \<le> int (length X)"
  shows "taps1 fp (polyphaseFilter s) (numTaps s * p) X i [0..<nat (numTaps s)] (fzero fp)
         = Some (frame_at fp s X (V, p))"
proof -
  have "taps1 fp (polyphaseFilter s) (numTaps s * p) X i [0..<nat (numTaps s)] (fzero fp)
        = Some (tapsv fp (polyphaseFilter s) (numTaps s * p) X i [0..<nat (numTaps s)] (fzero fp))"
  proof (rule taps1_eq)
    show "0 \<le> i" by fact
    show "0 \<le> numTaps s * p" using rational_row_bounds [OF cfg p, of 0] cfg by (simp add: cfg_ok_def)
    show "\<forall>j\<in>set [0..<nat (numTaps s)]. i + int j < int (length X) \<and>
            numTaps s * p + int j < int (length (polyphaseFilter s))"
      using rational_row_bounds [OF cfg p] i inb by auto
  qed
  then show ?thesis using cfg(2) i(3) by (simp add: frame_at_def)
qed

lemma rationalLoop1_gen:
  "cfg_ok s \<Longrightarrow> step s = 0 \<Longrightarrow> D = downFactor s \<Longrightarrow> L = n * upFactor s \<Longrightarrow>
   nx = nextPhase s \<Longrightarrow> p = phase s \<Longrightarrow> 0 \<le> p \<Longrightarrow> p < upFactor s \<Longrightarrow> 0 \<le> i \<Longrightarrow>
   V = i * upFactor s + (p * D) mod upFactor s \<Longrightarrow>
   n + numTaps s - 1 \<le> int (length X) \<Longrightarrow> 0 \<le> ob + no \<Longrightarrow>
   ob + no + int (length (outputPoints D L nx V p)) \<le> int (length out) \<Longrightarrow>
   \<exists>i'. rationalLoop1 fp X n ob s out i no =
           Some (s\<lparr>phase := (nx ^^ length (outputPoints D L nx V p)) p\<rparr>,
                 storeAt out (nat (ob + no)) (map (frame_at fp s X) (outputPoints D L nx V p)),
                 i', no + int (length (outputPoints D L nx V p))) \<and>
         0 \<le> i' \<and>
         V + D * int (length (outputPoints D L nx V p)) =
           i' * upFactor s + ((nx ^^ length (outputPoints D L nx V p)) p * D) mod upFactor s \<and>
         0 \<le> (nx ^^ length (outputPoints D L nx V p)) p \<and>
         (nx ^^ length (outputPoints D L nx V p)) p < upFactor s"
proof (induction D L nx V p arbitrary: s i out no rule: outputPoints.induct)
  case (1 D L nx V p)
  have U: "0 < upFactor s" and Dpos: "0 < D"
    using 1(2,3,4) by (auto simp: cfg_ok_def)
  show ?case
  proof (cases "V < L")
    case True
    have e: "outputPoints D L nx V p = (V, p) # outputPoints D L nx (V + D) (nx p)"
      using True Dpos by (subst outputPoints.simps) simp
    have VL: "V < n * upFactor s" using True 1(5) by simp
    have V': "V = i * upFactor s + (p * downFactor s) mod upFactor s" using 1(11,4) by simp
    note sf = rational_step_facts [OF 1(2,3,8,9,10) V' VL]
    obtain d where d: "rd (stepTable s) p = Some d" "0 \<le> i + d"
      "V + downFactor s = (i + d) * upFactor s + (nextPhase s p * downFactor s) mod upFactor s"
      using sf(3) by blast
    have tp: "taps1 fp (polyphaseFilter s) (numTaps s * p) X i [0..<nat (numTaps s)] (fzero fp)
         = Some (frame_at fp s X (V, p))"
      using rational_taps1 [OF 1(2,3,8,9,10) sf(1,2) 1(12)] .
    let ?m = "nat (ob + no)"
    have m: "?m < length out" using 1(13,14) unfolding e by simp
    then have w: "wr out (ob + no) (frame_at fp s X (V, p)) = Some (out[?m := frame_at fp s X (V, p)])"
      using 1(13) by (simp add: wr_def)
    let ?s' = "s\<lparr>phase := nx p\<rparr>"
    let ?rest = "outputPoints D L nx (V + D) (nx p)"
    have IH: "\<exists>i'. rationalLoop1 fp X n ob ?s' (out[?m := frame_at fp s X (V, p)]) (i + d) (no + 1) =
           Some (?s'\<lparr>phase := (nx ^^ length ?rest) (nx p)\<rparr>,
                 storeAt (out[?m := frame_at fp s X (V, p)]) (nat (ob + (no + 1)))
                   (map (frame_at fp ?s' X) ?rest),
                 i', no + 1 + int (length ?rest)) \<and>
         0 \<le> i' \<and>
         V + D + D * int (length ?rest) =
           i' * upFactor ?s' + ((nx ^^ length ?rest) (nx p) * D) mod upFactor ?s' \<and>
         0 \<le> (nx ^^ length ?rest) (nx p) \<and> (nx ^^ length ?rest) (nx p) < upFactor ?s'"
    proof (rule 1(1))
      show "V < L \<and> 0 < D" using True Dpos by simp
      show "cfg_ok ?s'" using 1(2) by simp
      show "step ?s' = 0" using 1(3) by simp
      show "D = downFactor ?s'" using 1(4) by simp
      show "L = n * upFactor ?s'" using 1(5) by simp
      show "nx = nextPhase ?s'" using 1(6) by simp
      show "nx p = phase ?s'" by simp
      show "0 \<le> nx p" "nx p < upFactor ?s'" using sf(4) 1(6) by simp_all
      show "0 \<le> i + d" by fact
      show "V + D = (i + d) * upFactor ?s' + (nx p * D) mod upFactor ?s'"
        using d(3) 1(4,6) by simp
      show "n + numTaps ?s' - 1 \<le> int (length X)" using 1(12) by simp
      show "0 \<le> ob + (no + 1)" using 1(13) by simp
      show "ob + (no + 1) + int (length ?rest) \<le> int (length (out[?m := frame_at fp s X (V, p)]))"
        using 1(14) unfolding e by simp
    qed
    then obtain i' where i': "rationalLoop1 fp X n ob ?s' (out[?m := frame_at fp s X (V, p)]) (i + d) (no + 1) =
           Some (?s'\<lparr>phase := (nx ^^ length ?rest) (nx p)\<rparr>,
                 storeAt (out[?m := frame_at fp s X (V, p)]) (nat (ob + (no + 1)))
                   (map (frame_at fp ?s' X) ?rest),
                 i', no + 1 + int (length ?rest))"
      and rest: "0 \<le> i'" "V + D + D * int (length ?rest) =
           i' * upFactor ?s' + ((nx ^^ length ?rest) (nx p) * D) mod upFactor ?s'"
         "0 \<le> (nx ^^ length ?rest) (nx p)" "(nx ^^ length ?rest) (nx p) < upFactor ?s'"
      by blast
    have ph: "(if phase s + 1 = upFactor s then 0 else phase s + 1) = nx p"
      using 1(3,6,7) by (simp add: nextPhase_def)
    have nat1: "nat (ob + (no + 1)) = Suc ?m" using 1(13) by simp
    have "rationalLoop1 fp X n ob s out i no =
            rationalLoop1 fp X n ob ?s' (out[?m := frame_at fp s X (V, p)]) (i + d) (no + 1)"
      using sf(1) tp w d(1) 1(7) ph
      by (subst rationalLoop1.simps) simp
    also note i'
    finally have run: "rationalLoop1 fp X n ob s out i no =
           Some (s\<lparr>phase := (nx ^^ length (outputPoints D L nx V p)) p\<rparr>,
                 storeAt out ?m (map (frame_at fp s X) (outputPoints D L nx V p)),
                 i', no + int (length (outputPoints D L nx V p)))"
      unfolding e nat1 using m by (simp add: storeAt_step funpow_swap1)
    show ?thesis
      using run rest unfolding e by (auto simp: funpow_swap1 algebra_simps)
  next
    case False
    have e: "outputPoints D L nx V p = []"
      using False by (subst outputPoints.simps) simp
    have r: "0 \<le> (p * D) mod upFactor s" "(p * D) mod upFactor s < upFactor s" using U by simp_all
    have "\<not> i < n" using fine_lt [OF U r, of i n] False 1(5,11) by simp
    then have "rationalLoop1 fp X n ob s out i no = Some (s, out, i, no)"
      by (subst rationalLoop1.simps) simp
    then show ?thesis
      unfolding e using 1(7,8,9,10,11) by (simp add: storeAt_Nil)
  qed
qed

lemma hi32_lt: "hi32 V < n \<longleftrightarrow> V < n * 2 ^ 32"
  unfolding hi32_def by auto

lemma hi32_nonneg: "0 \<le> V \<Longrightarrow> 0 \<le> hi32 V"
  unfolding hi32_def by simp

lemma phase8_range:
  "0 \<le> drop_bit SRC_FRACBITS (lo32 V) \<and> drop_bit SRC_FRACBITS (lo32 V) < SRC_PHASES"
  unfolding SRC_FRACBITS_def SRC_PHASES_def SRC_PHASEBITS_def lo32_def drop_bit_eq_div
  by auto

lemma hi32_shift: "hi32 (V + n * 2 ^ 32) = hi32 V + n"
  unfolding hi32_def by simp

lemma lo32_shift: "lo32 (V + n * 2 ^ 32) = lo32 V"
  unfolding lo32_def by simp

lemma irrational_row_bounds:
  assumes "cfg_ok s" "step s \<noteq> 0" "0 \<le> q" "q < SRC_PHASES" "j < nat (numTaps s)"
  shows "0 \<le> numTaps s * (q + 0) \<and> 0 \<le> numTaps s * (q + 1) \<and>
         numTaps s * (q + 0) + int j < int (length (polyphaseFilter s)) \<and>
         numTaps s * (q + 1) + int j < int (length (polyphaseFilter s))"
proof -
  have nt: "0 < numTaps s"
    and len: "int (length (polyphaseFilter s)) = numTaps s * (SRC_PHASES + 1)"
    using assms by (auto simp: cfg_ok_def)
  have "numTaps s * (q + 2) \<le> numTaps s * (SRC_PHASES + 1)"
    using assms nt by (intro mult_left_mono) auto
  then have a: "numTaps s * q + 2 * numTaps s \<le> int (length (polyphaseFilter s))"
    using len by (simp add: algebra_simps)
  have b: "0 \<le> numTaps s * q" using nt assms by simp
  have c: "int j < numTaps s" using assms by simp
  show ?thesis using a b c nt by (simp add: algebra_simps)
qed

lemma irrational_taps1:
  assumes cfg: "cfg_ok s" "step s \<noteq> 0"
    and V: "0 \<le> V" "V < n * 2 ^ 32"
    and inb: "n + numTaps s - 1 \<le> int (length X)"
  shows "itaps1 fp (polyphaseFilter s)
           (numTaps s * (drop_bit SRC_FRACBITS (lo32 V) + 0))
           (numTaps s * (drop_bit SRC_FRACBITS (lo32 V) + 1))
           (fmul fp (f_of_int fp (lo32 V AND SRC_FRACMASK)) (QFRAC_TO_FLOAT fp))
           X (hi32 V) [0..<nat (numTaps s)] (fzero fp)
         = Some (frame_at fp s X (V, p))"
proof -
  let ?q = "drop_bit SRC_FRACBITS (lo32 V)"
  have q: "0 \<le> ?q" "?q < SRC_PHASES" using phase8_range [of V] by simp_all
  have i: "0 \<le> hi32 V" "hi32 V < n" using V by (simp_all add: hi32_nonneg hi32_lt)
  have "itaps1 fp (polyphaseFilter s) (numTaps s * (?q + 0)) (numTaps s * (?q + 1))
           (fmul fp (f_of_int fp (lo32 V AND SRC_FRACMASK)) (QFRAC_TO_FLOAT fp))
           X (hi32 V) [0..<nat (numTaps s)] (fzero fp)
        = Some (itapsv fp (polyphaseFilter s) (numTaps s * (?q + 0)) (numTaps s * (?q + 1))
           (fmul fp (f_of_int fp (lo32 V AND SRC_FRACMASK)) (QFRAC_TO_FLOAT fp))
           X (hi32 V) [0..<nat (numTaps s)] (fzero fp))"
  proof (rule itaps1_eq)
    show "0 \<le> hi32 V" by fact
    show "0 \<le> numTaps s * (?q + 0)" "0 \<le> numTaps s * (?q + 1)"
      using irrational_row_bounds [OF cfg q, of 0] cfg by (simp_all add: cfg_ok_def)
    show "\<forall>j\<in>set [0..<nat (numTaps s)]. hi32 V + int j < int (length X) \<and>
            numTaps s * (?q + 0) + int j < int (length (polyphaseFilter s)) \<and>
            numTaps s * (?q + 1) + int j < int (length (polyphaseFilter s))"
      using irrational_row_bounds [OF cfg q] i inb by auto
  qed
  then show ?thesis using cfg(2) by (simp add: frame_at_def)
qed

lemma irrationalLoop1_gen:
  "cfg_ok s \<Longrightarrow> step s \<noteq> 0 \<Longrightarrow> S = step s \<Longrightarrow> L = n * 2 ^ 32 \<Longrightarrow>
   nx = nextPhase s \<Longrightarrow> V = offset s \<Longrightarrow> 0 \<le> V \<Longrightarrow>
   n + numTaps s - 1 \<le> int (length X) \<Longrightarrow> 0 \<le> ob + no \<Longrightarrow>
   ob + no + int (length (outputPoints S L nx V p)) \<le> int (length out) \<Longrightarrow>
   irrationalLoop1 fp X n ob s out no =
     Some (s\<lparr>offset := V + S * int (length (outputPoints S L nx V p))\<rparr>,
           storeAt out (nat (ob + no)) (map (frame_at fp s X) (outputPoints S L nx V p)),
           no + int (length (outputPoints S L nx V p)))"
proof (induction S L nx V p arbitrary: s out no rule: outputPoints.induct)
  case (1 S L nx V p)
  have Spos: "0 < S" using 1(2,3,4) by (auto simp: cfg_ok_def)
  have nxp: "nx p = p" using 1(3,6) by (simp add: nextPhase_def)
  show ?case
  proof (cases "V < L")
    case True
    have e: "outputPoints S L nx V p = (V, p) # outputPoints S L nx (V + S) p"
      using True Spos nxp by (subst outputPoints.simps) simp
    have VL: "V < n * 2 ^ 32" using True 1(5) by simp
    have tp: "itaps1 fp (polyphaseFilter s)
           (numTaps s * (drop_bit SRC_FRACBITS (lo32 V) + 0))
           (numTaps s * (drop_bit SRC_FRACBITS (lo32 V) + 1))
           (fmul fp (f_of_int fp (lo32 V AND SRC_FRACMASK)) (QFRAC_TO_FLOAT fp))
           X (hi32 V) [0..<nat (numTaps s)] (fzero fp)
         = Some (frame_at fp s X (V, p))"
      using irrational_taps1 [OF 1(2,3,8) VL 1(9)] .
    let ?m = "nat (ob + no)"
    have m: "?m < length out" using 1(10,11) unfolding e by simp
    then have w: "wr out (ob + no) (frame_at fp s X (V, p)) = Some (out[?m := frame_at fp s X (V, p)])"
      using 1(10) by (simp add: wr_def)
    let ?s' = "s\<lparr>offset := V + S\<rparr>"
    let ?rest = "outputPoints S L nx (V + S) p"
    have IH: "irrationalLoop1 fp X n ob ?s' (out[?m := frame_at fp s X (V, p)]) (no + 1) =
           Some (?s'\<lparr>offset := V + S + S * int (length ?rest)\<rparr>,
                 storeAt (out[?m := frame_at fp s X (V, p)]) (nat (ob + (no + 1)))
                   (map (frame_at fp ?s' X) ?rest),
                 no + 1 + int (length ?rest))"
    proof (rule 1(1) [unfolded nxp])
      show "V < L \<and> 0 < S" using True Spos by simp
      show "cfg_ok ?s'" using 1(2) by simp
      show "step ?s' \<noteq> 0" using 1(3) by simp
      show "S = step ?s'" using 1(4) by simp
      show "L = n * 2 ^ 32" using 1(5) by simp
      show "nx = nextPhase ?s'" using 1(6) by simp
      show "V + S = offset ?s'" by simp
      show "0 \<le> V + S" using 1(8) Spos by simp
      show "n + numTaps ?s' - 1 \<le> int (length X)" using 1(9) by simp
      show "0 \<le> ob + (no + 1)" using 1(10) by simp
      show "ob + (no + 1) + int (length ?rest) \<le> int (length (out[?m := frame_at fp s X (V, p)]))"
        using 1(11) unfolding e by simp
    qed
    have nat1: "nat (ob + (no + 1)) = Suc ?m" using 1(10) by simp
    have "irrationalLoop1 fp X n ob s out no =
            irrationalLoop1 fp X n ob ?s' (out[?m := frame_at fp s X (V, p)]) (no + 1)"
      using VL tp w 1(4,7)
      by (subst irrationalLoop1.simps) (simp add: hi32_lt)
    also note IH
    finally show ?thesis
      unfolding e nat1 using m by (simp add: storeAt_step algebra_simps)
  next
    case False
    have e: "outputPoints S L nx V p = []"
      using False by (subst outputPoints.simps) simp
    have "\<not> hi32 (offset s) < n" using False 1(5,7) by (simp add: hi32_lt)
    then have "irrationalLoop1 fp X n ob s out no = Some (s, out, no)"
      by (subst irrationalLoop1.simps) simp
    then show ?thesis
      unfolding e using 1(7) by (simp add: storeAt_Nil)
  qed
qed

lemma rational_taps2:
  assumes cfg: "cfg_ok s" "step s = 0"
    and p: "0 \<le> p" "p < upFactor s"
    and i: "0 \<le> i" "i < n" "V div upFactor s = i"
    and inb: "n + numTaps s - 1 \<le> int (length X0)" "n + numTaps s - 1 \<le> int (length X1)"
  shows "taps2 fp (polyphaseFilter s) (numTaps s * p) X0 X1 i [0..<nat (numTaps s)]
           (fzero fp, fzero fp)
         = Some (frame_at fp s X0 (V, p), frame_at fp s X1 (V, p))"
proof -
  have "taps2 fp (polyphaseFilter s) (numTaps s * p) X0 X1 i [0..<nat (numTaps s)]
          (fzero fp, fzero fp)
        = Some (tapsv fp (polyphaseFilter s) (numTaps s * p) X0 i [0..<nat (numTaps s)]
                  (fst (fzero fp, fzero fp)),
                tapsv fp (polyphaseFilter s) (numTaps s * p) X1 i [0..<nat (numTaps s)]
                  (snd (fzero fp, fzero fp)))"
  proof (rule taps2_eq)
    show "0 \<le> i" by fact
    show "0 \<le> numTaps s * p" using rational_row_bounds [OF cfg p, of 0] cfg by (simp add: cfg_ok_def)
    show "\<forall>j\<in>set [0..<nat (numTaps s)]. i + int j < int (length X0) \<and>
            i + int j < int (length X1) \<and>
            numTaps s * p + int j < int (length (polyphaseFilter s))"
      using rational_row_bounds [OF cfg p] i inb by auto
  qed
  then show ?thesis using cfg(2) i(3) by (simp add: frame_at_def)
qed

lemma irrational_taps2:
  assumes cfg: "cfg_ok s" "step s \<noteq> 0"
    and V: "0 \<le> V" "V < n * 2 ^ 32"
    and inb: "n + numTaps s - 1 \<le> int (length X0)" "n + numTaps s - 1 \<le> int (length X1)"
  shows "itaps2 fp (polyphaseFilter s)
           (numTaps s * (drop_bit SRC_FRACBITS (lo32 V) + 0))
           (numTaps s * (drop_bit SRC_FRACBITS (lo32 V) + 1))
           (fmul fp (f_of_int fp (lo32 V AND SRC_FRACMASK)) (QFRAC_TO_FLOAT fp))
           X0 X1 (hi32 V) [0..<nat (numTaps s)] (fzero fp, fzero fp)
         = Some (frame_at fp s X0 (V, p), frame_at fp s X1 (V, p))"
proof -
  let ?q = "drop_bit SRC_FRACBITS (lo32 V)"
  have q: "0 \<le> ?q" "?q < SRC_PHASES" using phase8_range [of V] by simp_all
  have i: "0 \<le> hi32 V" "hi32 V < n" using V by (simp_all add: hi32_nonneg hi32_lt)
  have "itaps2 fp (polyphaseFilter s) (numTaps s * (?q + 0)) (numTaps s * (?q + 1))
           (fmul fp (f_of_int fp (lo32 V AND SRC_FRACMASK)) (QFRAC_TO_FLOAT fp))
           X0 X1 (hi32 V) [0..<nat (numTaps s)] (fzero fp, fzero fp)
        = Some (itapsv fp (polyphaseFilter s) (numTaps s * (?q + 0)) (numTaps s * (?q + 1))
                  (fmul fp (f_of_int fp (lo32 V AND SRC_FRACMASK)) (QFRAC_TO_FLOAT fp))
                  X0 (hi32 V) [0..<nat (numTaps s)] (fst (fzero fp, fzero fp)),
                itapsv fp (polyphaseFilter s) (numTaps s * (?q + 0)) (numTaps s * (?q + 1))
                  (fmul fp (f_of_int fp (lo32 V AND SRC_FRACMASK)) (QFRAC_TO_FLOAT fp))
                  X1 (hi32 V) [0..<nat (numTaps s)] (snd (fzero fp, fzero fp)))"
  proof (rule itaps2_eq)
    show "0 \<le> hi32 V" by fact
    show "0 \<le> numTaps s * (?q + 0)" "0 \<le> numTaps s * (?q + 1)"
      using irrational_row_bounds [OF cfg q, of 0] cfg by (simp_all add: cfg_ok_def)
    show "\<forall>j\<in>set [0..<nat (numTaps s)]. hi32 V + int j < int (length X0) \<and>
            hi32 V + int j < int (length X1) \<and>
            numTaps s * (?q + 0) + int j < int (length (polyphaseFilter s)) \<and>
            numTaps s * (?q + 1) + int j < int (length (polyphaseFilter s))"
      using irrational_row_bounds [OF cfg q] i inb by auto
  qed
  then show ?thesis using cfg(2) by (simp add: frame_at_def)
qed

lemma rationalLoop2_gen:
  "cfg_ok s \<Longrightarrow> step s = 0 \<Longrightarrow> D = downFactor s \<Longrightarrow> L = n * upFactor s \<Longrightarrow>
   nx = nextPhase s \<Longrightarrow> p = phase s \<Longrightarrow> 0 \<le> p \<Longrightarrow> p < upFactor s \<Longrightarrow> 0 \<le> i \<Longrightarrow>
   V = i * upFactor s + (p * D) mod upFactor s \<Longrightarrow>
   n + numTaps s - 1 \<le> int (length X0) \<Longrightarrow> n + numTaps s - 1 \<le> int (length X1) \<Longrightarrow>
   0 \<le> ob + no \<Longrightarrow>
   ob + no + int (length (outputPoints D L nx V p)) \<le> int (length out0) \<Longrightarrow>
   ob + no + int (length (outputPoints D L nx V p)) \<le> int (length out1) \<Longrightarrow>
   \<exists>i'. rationalLoop2 fp X0 X1 n ob s out0 out1 i no =
           Some (s\<lparr>phase := (nx ^^ length (outputPoints D L nx V p)) p\<rparr>,
                 storeAt out0 (nat (ob + no)) (map (frame_at fp s X0) (outputPoints D L nx V p)),
                 storeAt out1 (nat (ob + no)) (map (frame_at fp s X1) (outputPoints D L nx V p)),
                 i', no + int (length (outputPoints D L nx V p))) \<and>
         0 \<le> i' \<and>
         V + D * int (length (outputPoints D L nx V p)) =
           i' * upFactor s + ((nx ^^ length (outputPoints D L nx V p)) p * D) mod upFactor s \<and>
         0 \<le> (nx ^^ length (outputPoints D L nx V p)) p \<and>
         (nx ^^ length (outputPoints D L nx V p)) p < upFactor s"
proof (induction D L nx V p arbitrary: s i out0 out1 no rule: outputPoints.induct)
  case (1 D L nx V p)
  have U: "0 < upFactor s" and Dpos: "0 < D"
    using 1(2,3,4) by (auto simp: cfg_ok_def)
  show ?case
  proof (cases "V < L")
    case True
    have e: "outputPoints D L nx V p = (V, p) # outputPoints D L nx (V + D) (nx p)"
      using True Dpos by (subst outputPoints.simps) simp
    have VL: "V < n * upFactor s" using True 1(5) by simp
    have V': "V = i * upFactor s + (p * downFactor s) mod upFactor s" using 1(11,4) by simp
    note sf = rational_step_facts [OF 1(2,3,8,9,10) V' VL]
    obtain d where d: "rd (stepTable s) p = Some d" "0 \<le> i + d"
      "V + downFactor s = (i + d) * upFactor s + (nextPhase s p * downFactor s) mod upFactor s"
      using sf(3) by blast
    let ?v0 = "frame_at fp s X0 (V, p)" and ?v1 = "frame_at fp s X1 (V, p)"
    have tp: "taps2 fp (polyphaseFilter s) (numTaps s * p) X0 X1 i [0..<nat (numTaps s)]
                (fzero fp, fzero fp) = Some (?v0, ?v1)"
      using rational_taps2 [OF 1(2,3,8,9,10) sf(1,2) 1(12,13)] .
    let ?m = "nat (ob + no)"
    have m: "?m < length out0" "?m < length out1" using 1(14,15,16) unfolding e by simp_all
    then have w: "wr out0 (ob + no) ?v0 = Some (out0[?m := ?v0])"
                 "wr out1 (ob + no) ?v1 = Some (out1[?m := ?v1])"
      using 1(14) by (simp_all add: wr_def)
    let ?s' = "s\<lparr>phase := nx p\<rparr>"
    let ?rest = "outputPoints D L nx (V + D) (nx p)"
    have IH: "\<exists>i'. rationalLoop2 fp X0 X1 n ob ?s' (out0[?m := ?v0]) (out1[?m := ?v1]) (i + d) (no + 1) =
           Some (?s'\<lparr>phase := (nx ^^ length ?rest) (nx p)\<rparr>,
                 storeAt (out0[?m := ?v0]) (nat (ob + (no + 1))) (map (frame_at fp ?s' X0) ?rest),
                 storeAt (out1[?m := ?v1]) (nat (ob + (no + 1))) (map (frame_at fp ?s' X1) ?rest),
                 i', no + 1 + int (length ?rest)) \<and>
         0 \<le> i' \<and>
         V + D + D * int (length ?rest) =
           i' * upFactor ?s' + ((nx ^^ length ?rest) (nx p) * D) mod upFactor ?s' \<and>
         0 \<le> (nx ^^ length ?rest) (nx p) \<and> (nx ^^ length ?rest) (nx p) < upFactor ?s'"
    proof (rule 1(1))
      show "V < L \<and> 0 < D" using True Dpos by simp
      show "cfg_ok ?s'" using 1(2) by simp
      show "step ?s' = 0" using 1(3) by simp
      show "D = downFactor ?s'" using 1(4) by simp
      show "L = n * upFactor ?s'" using 1(5) by simp
      show "nx = nextPhase ?s'" using 1(6) by simp
      show "nx p = phase ?s'" by simp
      show "0 \<le> nx p" "nx p < upFactor ?s'" using sf(4) 1(6) by simp_all
      show "0 \<le> i + d" by fact
      show "V + D = (i + d) * upFactor ?s' + (nx p * D) mod upFactor ?s'"
        using d(3) 1(4,6) by simp
      show "n + numTaps ?s' - 1 \<le> int (length X0)" using 1(12) by simp
      show "n + numTaps ?s' - 1 \<le> int (length X1)" using 1(13) by simp
      show "0 \<le> ob + (no + 1)" using 1(14) by simp
      show "ob + (no + 1) + int (length ?rest) \<le> int (length (out0[?m := ?v0]))"
        using 1(15) unfolding e by simp
      show "ob + (no + 1) + int (length ?rest) \<le> int (length (out1[?m := ?v1]))"
        using 1(16) unfolding e by simp
    qed
    then obtain i' where i': "rationalLoop2 fp X0 X1 n ob ?s' (out0[?m := ?v0]) (out1[?m := ?v1]) (i + d) (no + 1) =
           Some (?s'\<lparr>phase := (nx ^^ length ?rest) (nx p)\<rparr>,
                 storeAt (out0[?m := ?v0]) (nat (ob + (no + 1))) (map (frame_at fp ?s' X0) ?rest),
                 storeAt (out1[?m := ?v1]) (nat (ob + (no + 1))) (map (frame_at fp ?s' X1) ?rest),
                 i', no + 1 + int (length ?rest))"
      and rest: "0 \<le> i'" "V + D + D * int (length ?rest) =
           i' * upFactor ?s' + ((nx ^^ length ?rest) (nx p) * D) mod upFactor ?s'"
         "0 \<le> (nx ^^ length ?rest) (nx p)" "(nx ^^ length ?rest) (nx p) < upFactor ?s'"
      by blast
    have ph: "(if phase s + 1 = upFactor s then 0 else phase s + 1) = nx p"
      using 1(3,6,7) by (simp add: nextPhase_def)
    have nat1: "nat (ob + (no + 1)) = Suc ?m" using 1(14) by simp
    have "rationalLoop2 fp X0 X1 n ob s out0 out1 i no =
            rationalLoop2 fp X0 X1 n ob ?s' (out0[?m := ?v0]) (out1[?m := ?v1]) (i + d) (no + 1)"
      using sf(1) tp w d(1) 1(7) ph
      by (subst rationalLoop2.simps) simp
    also note i'
    finally have run: "rationalLoop2 fp X0 X1 n ob s out0 out1 i no =
           Some (s\<lparr>phase := (nx ^^ length (outputPoints D L nx V p)) p\<rparr>,
                 storeAt out0 ?m (map (frame_at fp s X0) (outputPoints D L nx V p)),
                 storeAt out1 ?m (map (frame_at fp s X1) (outputPoints D L nx V p)),
                 i', no + int (length (outputPoints D L nx V p)))"
      unfolding e nat1 using m by (simp add: storeAt_step funpow_swap1)
    show ?thesis
      using run rest unfolding e by (auto simp: funpow_swap1 algebra_simps)
  next
    case False
    have e: "outputPoints D L nx V p = []"
      using False by (subst outputPoints.simps) simp
    have r: "0 \<le> (p * D) mod upFactor s" "(p * D) mod upFactor s < upFactor s" using U by simp_all
    have "\<not> i < n" using fine_lt [OF U r, of i n] False 1(5,11) by simp
    then have "rationalLoop2 fp X0 X1 n ob s out0 out1 i no = Some (s, out0, out1, i, no)"
      by (subst rationalLoop2.simps) simp
    then show ?thesis
      unfolding e using 1(7,8,9,10,11) by (simp add: storeAt_Nil)
  qed
qed

lemma irrationalLoop2_gen:
  "cfg_ok s \<Longrightarrow> step s \<noteq> 0 \<Longrightarrow> S = step s \<Longrightarrow> L = n * 2 ^ 32 \<Longrightarrow>
   nx = nextPhase s \<Longrightarrow> V = offset s \<Longrightarrow> 0 \<le> V \<Longrightarrow>
   n + numTaps s - 1 \<le> int (length X0) \<Longrightarrow> n + numTaps s - 1 \<le> int (length X1) \<Longrightarrow>
   0 \<le> ob + no \<Longrightarrow>
   ob + no + int (length (outputPoints S L nx V p)) \<le> int (length out0) \<Longrightarrow>
   ob + no + int (length (outputPoints S L nx V p)) \<le> int (length out1) \<Longrightarrow>
   irrationalLoop2 fp X0 X1 n ob s out0 out1 no =
     Some (s\<lparr>offset := V + S * int (length (outputPoints S L nx V p))\<rparr>,
           storeAt out0 (nat (ob + no)) (map (frame_at fp s X0) (outputPoints S L nx V p)),
           storeAt out1 (nat (ob + no)) (map (frame_at fp s X1) (outputPoints S L nx V p)),
           no + int (length (outputPoints S L nx V p)))"
proof (induction S L nx V p arbitrary: s out0 out1 no rule: outputPoints.induct)
  case (1 S L nx V p)
  have Spos: "0 < S" using 1(2,3,4) by (auto simp: cfg_ok_def)
  have nxp: "nx p = p" using 1(3,6) by (simp add: nextPhase_def)
  show ?case
  proof (cases "V < L")
    case True
    have e: "outputPoints S L nx V p = (V, p) # outputPoints S L nx (V + S) p"
      using True Spos nxp by (subst outputPoints.simps) simp
    have VL: "V < n * 2 ^ 32" using True 1(5) by simp
    let ?v0 = "frame_at fp s X0 (V, p)" and ?v1 = "frame_at fp s X1 (V, p)"
    have tp: "itaps2 fp (polyphaseFilter s)
           (numTaps s * (drop_bit SRC_FRACBITS (lo32 V) + 0))
           (numTaps s * (drop_bit SRC_FRACBITS (lo32 V) + 1))
           (fmul fp (f_of_int fp (lo32 V AND SRC_FRACMASK)) (QFRAC_TO_FLOAT fp))
           X0 X1 (hi32 V) [0..<nat (numTaps s)] (fzero fp, fzero fp)
         = Some (?v0, ?v1)"
      using irrational_taps2 [OF 1(2,3,8) VL 1(9,10)] .
    let ?m = "nat (ob + no)"
    have m: "?m < length out0" "?m < length out1" using 1(11,12,13) unfolding e by simp_all
    then have w: "wr out0 (ob + no) ?v0 = Some (out0[?m := ?v0])"
                 "wr out1 (ob + no) ?v1 = Some (out1[?m := ?v1])"
      using 1(11) by (simp_all add: wr_def)
    let ?s' = "s\<lparr>offset := V + S\<rparr>"
    let ?rest = "outputPoints S L nx (V + S) p"
    have IH: "irrationalLoop2 fp X0 X1 n ob ?s' (out0[?m := ?v0]) (out1[?m := ?v1]) (no + 1) =
           Some (?s'\<lparr>offset := V + S + S * int (length ?rest)\<rparr>,
                 storeAt (out0[?m := ?v0]) (nat (ob + (no + 1))) (map (frame_at fp ?s' X0) ?rest),
                 storeAt (out1[?m := ?v1]) (nat (ob + (no + 1))) (map (frame_at fp ?s' X1) ?rest),
                 no + 1 + int (length ?rest))"
    proof (rule 1(1) [unfolded nxp])
      show "V < L \<and> 0 < S" using True Spos by simp
      show "cfg_ok ?s'" using 1(2) by simp
      show "step ?s' \<noteq> 0" using 1(3) by simp
      show "S = step ?s'" using 1(4) by simp
      show "L = n * 2 ^ 32" using 1(5) by simp
      show "nx = nextPhase ?s'" using 1(6) by simp
      show "V + S = offset ?s'" by simp
      show "0 \<le> V + S" using 1(8) Spos by simp
      show "n + numTaps ?s' - 1 \<le> int (length X0)" using 1(9) by simp
      show "n + numTaps ?s' - 1 \<le> int (length X1)" using 1(10) by simp
      show "0 \<le> ob + (no + 1)" using 1(11) by simp
      show "ob + (no + 1) + int (length ?rest) \<le> int (length (out0[?m := ?v0]))"
        using 1(12) unfolding e by simp
      show "ob + (no + 1) + int (length ?rest) \<le> int (length (out1[?m := ?v1]))"
        using 1(13) unfolding e by simp
    qed
    have nat1: "nat (ob + (no + 1)) = Suc ?m" using 1(11) by simp
    have "irrationalLoop2 fp X0 X1 n ob s out0 out1 no =
            irrationalLoop2 fp X0 X1 n ob ?s' (out0[?m := ?v0]) (out1[?m := ?v1]) (no + 1)"
      using VL tp w 1(4,7)
      by (subst irrationalLoop2.simps) (simp add: hi32_lt)
    also note IH
    finally show ?thesis
      unfolding e nat1 using m by (simp add: storeAt_step algebra_simps)
  next
    case False
    have e: "outputPoints S L nx V p = []"
      using False by (subst outputPoints.simps) simp
    have "\<not> hi32 (offset s) < n" using False 1(5,7) by (simp add: hi32_lt)
    then have "irrationalLoop2 fp X0 X1 n ob s out0 out1 no = Some (s, out0, out1, no)"
      by (subst irrationalLoop2.simps) simp
    then show ?thesis
      unfolding e using 1(7) by (simp add: storeAt_Nil)
  qed
qed

lemma nextPhase_funpow:
  assumes "step s = 0" "0 < upFactor s" "0 \<le> p" "p < upFactor s"
  shows "0 \<le> (nextPhase s ^^ k) p \<and> (nextPhase s ^^ k) p < upFactor s \<and>
         ((nextPhase s ^^ k) p * D) mod upFactor s = ((p + int k) * D) mod upFactor s"
proof (induction k)
  case 0
  then show ?case using assms by simp
next
  case (Suc k)
  let ?q = "(nextPhase s ^^ k) p"
  have q: "0 \<le> ?q" "?q < upFactor s" "(?q * D) mod upFactor s = ((p + int k) * D) mod upFactor s"
    using Suc by simp_all
  have n: "nextPhase s ?q = (if ?q + 1 = upFactor s then 0 else ?q + 1)"
    using assms(1) by (simp add: nextPhase_def)
  have "(nextPhase s ?q * D) mod upFactor s = ((?q + 1) * D) mod upFactor s"
    unfolding n by auto
  also have "\<dots> = (?q * D + D) mod upFactor s" by (simp add: algebra_simps)
  also have "\<dots> = ((p + int k) * D + D) mod upFactor s"
    using q(3) by (metis mod_add_left_eq)
  also have "\<dots> = ((p + int (Suc k)) * D) mod upFactor s" by (simp add: algebra_simps)
  finally show ?case using q n by auto
qed

lemma nextPhase_irrational: "step s \<noteq> 0 \<Longrightarrow> (nextPhase s ^^ k) p = p"
  by (induction k) (simp_all add: nextPhase_def)

lemma hi32_shl: "hi32 (x * 2 ^ 32) = x" and lo32_shl: "lo32 (x * 2 ^ 32) = 0"
  by (simp_all add: hi32_def lo32_def)

lemma finePos_rational_div:
  assumes "pos_ok s" "step s = 0" "0 < upFactor s"
  shows "finePos s div upFactor s = hi32 (offset s)" "0 \<le> finePos s"
    "finePos s mod upFactor s = (phase s * downFactor s) mod upFactor s"
proof -
  let ?r = "(phase s * downFactor s) mod upFactor s"
  have r: "0 \<le> ?r" "?r < upFactor s" using assms(3) by simp_all
  show "finePos s div upFactor s = hi32 (offset s)"
    using assms r by (simp add: finePos_def div_pos_pos_trivial)
  have "0 \<le> hi32 (offset s)" using assms by (simp add: pos_ok_def hi32_nonneg)
  then show "0 \<le> finePos s" using assms r by (simp add: finePos_def)
  show "finePos s mod upFactor s = ?r"
    using assms r by (simp add: finePos_def)
qed

lemma afterFilter_facts:
  assumes "cfg_ok s" "pos_ok s"
  shows "cfg_ok (afterFilter s n)" "pos_ok (afterFilter s n)"
    "finePos (afterFilter s n) = finePos s + fineStep s * int (length (points s n)) - n * fineUnit s"
    "step (afterFilter s n) = step s" "numTaps (afterFilter s n) = numTaps s"
    "upFactor (afterFilter s n) = upFactor s" "downFactor (afterFilter s n) = downFactor s"
proof -
  let ?K = "length (points s n)"
  show "cfg_ok (afterFilter s n)" using assms(1) by (simp add: afterFilter_def)
  show "step (afterFilter s n) = step s" "numTaps (afterFilter s n) = numTaps s"
    "upFactor (afterFilter s n) = upFactor s" "downFactor (afterFilter s n) = downFactor s"
    by (simp_all add: afterFilter_def)
  show "pos_ok (afterFilter s n)"
    "finePos (afterFilter s n) = finePos s + fineStep s * int ?K - n * fineUnit s"
  proof -
    consider (rat) "step s = 0" | (irr) "step s \<noteq> 0" by blast
    then have "pos_ok (afterFilter s n) \<and>
      finePos (afterFilter s n) = finePos s + fineStep s * int ?K - n * fineUnit s"
    proof cases
      case rat
      let ?U = "upFactor s" and ?D = "downFactor s"
      have U: "0 < ?U" and D: "0 < ?D" using assms(1) rat by (auto simp: cfg_ok_def)
      have p: "0 \<le> phase s" "phase s < ?U" using assms(2) rat by (auto simp: pos_ok_def)
      note fp = nextPhase_funpow [OF rat U p, of ?K ?D]
      let ?W = "finePos s + ?D * int ?K - n * ?U"
      have e: "n * ?U \<le> finePos s + ?D * int ?K"
        using outputPoints_end [OF D, of "n * ?U" "finePos s" "nextPhase s" "phase s"] rat
        by (simp add: points_def fineStep_def fineUnit_def)
      then have W0: "0 \<le> ?W" by simp
      then have Wd: "0 \<le> ?W div ?U" using U by (simp add: pos_imp_zdiv_nonneg_iff)
      have "?W = (finePos s + ?D * int ?K) + (- n) * ?U" by simp
      then have "?W mod ?U = (finePos s + ?D * int ?K) mod ?U"
        by (simp only: mod_mult_self1)
      also have "\<dots> = (phase s * ?D + int ?K * ?D) mod ?U"
        using finePos_rational_div(3) [OF assms(2) rat U]
        by (metis mod_add_left_eq mult.commute)
      also have "\<dots> = (phaseAfter s n * ?D) mod ?U"
        using fp by (simp add: phaseAfter_def algebra_simps)
      finally have Wm: "(phaseAfter s n * ?D) mod ?U = ?W mod ?U" by simp
      have off: "offsetAfter s n = (?W div ?U) * 2 ^ 32"
        using rat by (simp add: offsetAfter_def fineStep_def fineUnit_def)
      have "finePos (afterFilter s n) =
              hi32 (offsetAfter s n) * ?U + (phaseAfter s n * ?D) mod ?U"
        using rat by (simp add: finePos_def afterFilter_def)
      also have "\<dots> = (?W div ?U) * ?U + ?W mod ?U"
        by (simp only: off hi32_shl Wm)
      also have "\<dots> = ?W" by simp
      finally have f: "finePos (afterFilter s n) = ?W" .
      have "0 \<le> offsetAfter s n" "lo32 (offsetAfter s n) = 0"
        unfolding off using Wd by (simp_all only: lo32_shl) simp
      then have "pos_ok (afterFilter s n)"
        using rat fp by (simp add: pos_ok_def afterFilter_def phaseAfter_def)
      then show ?thesis using f rat by (simp add: fineStep_def fineUnit_def)
    next
      case irr
      have S: "0 < step s" using assms(1) irr by (auto simp: cfg_ok_def)
      have e: "n * 2 ^ 32 \<le> offset s + step s * int ?K"
        using outputPoints_end [OF S, of "n * 2 ^ 32" "offset s" "nextPhase s" "phase s"] irr
        by (simp add: points_def fineStep_def fineUnit_def finePos_def)
      show ?thesis
        using irr e by (simp add: pos_ok_def afterFilter_def offsetAfter_def finePos_def
            fineStep_def fineUnit_def)
    qed
    then show "pos_ok (afterFilter s n)"
      "finePos (afterFilter s n) = finePos s + fineStep s * int ?K - n * fineUnit s"
      by simp_all
  qed
qed

lemma multirateFilter1_run:
  assumes cfg: "cfg_ok s" and pos: "pos_ok s"
    and inb: "n + numTaps s - 1 \<le> int (length X)"
    and ob: "0 \<le> ob" "ob + int (length (points s n)) \<le> int (length out)"
  shows "multirateFilter1 fp s X out ob n =
     Some (afterFilter s n, storeAt out (nat ob) (map (frame_at fp s X) (points s n)),
           int (length (points s n)))"
proof (cases "step s = 0")
  case True
  let ?U = "upFactor s" and ?D = "downFactor s"
  let ?K = "length (points s n)"
  have U: "0 < ?U" using cfg by (simp add: cfg_ok_def)
  have p: "0 \<le> phase s" "phase s < ?U" and o: "0 \<le> offset s"
    using pos True by (auto simp: pos_ok_def)
  have pts: "points s n = outputPoints ?D (n * ?U) (nextPhase s) (finePos s) (phase s)"
    using True by (simp add: points_def fineStep_def fineUnit_def)
  have "\<exists>i'. rationalLoop1 fp X n ob s out (hi32 (offset s)) 0 =
           Some (s\<lparr>phase := (nextPhase s ^^ ?K) (phase s)\<rparr>,
                 storeAt out (nat (ob + 0)) (map (frame_at fp s X) (points s n)),
                 i', 0 + int ?K) \<and>
         0 \<le> i' \<and>
         finePos s + ?D * int ?K = i' * ?U + ((nextPhase s ^^ ?K) (phase s) * ?D) mod ?U \<and>
         0 \<le> (nextPhase s ^^ ?K) (phase s) \<and> (nextPhase s ^^ ?K) (phase s) < ?U"
    unfolding pts
  proof (rule rationalLoop1_gen [OF cfg True refl refl refl refl p])
    show "0 \<le> hi32 (offset s)" using o by (rule hi32_nonneg)
    show "finePos s = hi32 (offset s) * ?U + (phase s * ?D) mod ?U"
      using True by (simp add: finePos_def)
    show "n + numTaps s - 1 \<le> int (length X)" by fact
    show "0 \<le> ob + 0" using ob by simp
    show "ob + 0 + int (length (outputPoints ?D (n * ?U) (nextPhase s) (finePos s) (phase s)))
          \<le> int (length out)"
      using ob pts by simp
  qed
  then obtain i' where run: "rationalLoop1 fp X n ob s out (hi32 (offset s)) 0 =
           Some (s\<lparr>phase := (nextPhase s ^^ ?K) (phase s)\<rparr>,
                 storeAt out (nat ob) (map (frame_at fp s X) (points s n)), i', int ?K)"
    and e: "finePos s + ?D * int ?K = i' * ?U + ((nextPhase s ^^ ?K) (phase s) * ?D) mod ?U"
    by auto
  let ?r = "((nextPhase s ^^ ?K) (phase s) * ?D) mod ?U"
  have r: "0 \<le> ?r" "?r < ?U" using U by simp_all
  have "finePos s + ?D * int ?K - n * ?U = (i' - n) * ?U + ?r"
    using e by (simp add: algebra_simps)
  then have "(finePos s + ?D * int ?K - n * ?U) div ?U = i' - n"
    using r U by (simp add: div_pos_pos_trivial)
  then have "offsetAfter s n = (i' - n) * 2 ^ 32"
    using True by (simp add: offsetAfter_def fineStep_def fineUnit_def)
  then show ?thesis
    using True run by (simp add: multirateFilter1_def afterFilter_def phaseAfter_def)
next
  case False
  let ?K = "length (points s n)"
  have o: "0 \<le> offset s" using pos by (auto simp: pos_ok_def)
  have pts: "points s n = outputPoints (step s) (n * 2 ^ 32) (nextPhase s) (offset s) (phase s)"
    using False by (simp add: points_def fineStep_def fineUnit_def finePos_def)
  have run: "irrationalLoop1 fp X n ob s out 0 =
     Some (s\<lparr>offset := offset s + step s * int ?K\<rparr>,
           storeAt out (nat (ob + 0)) (map (frame_at fp s X) (points s n)), 0 + int ?K)"
    unfolding pts
  proof (rule irrationalLoop1_gen [OF cfg False refl refl refl refl o])
    show "n + numTaps s - 1 \<le> int (length X)" by fact
    show "0 \<le> ob + 0" using ob by simp
    show "ob + 0 + int (length (outputPoints (step s) (n * 2 ^ 32) (nextPhase s) (offset s) (phase s)))
          \<le> int (length out)"
      using ob pts by simp
  qed
  show ?thesis
    using False run
    by (simp add: multirateFilter1_def afterFilter_def phaseAfter_def offsetAfter_def
        nextPhase_irrational)
qed

lemma multirateFilter2_run:
  assumes cfg: "cfg_ok s" and pos: "pos_ok s"
    and inb: "n + numTaps s - 1 \<le> int (length X0)" "n + numTaps s - 1 \<le> int (length X1)"
    and ob: "0 \<le> ob" "ob + int (length (points s n)) \<le> int (length out0)"
      "ob + int (length (points s n)) \<le> int (length out1)"
  shows "multirateFilter2 fp s X0 X1 out0 out1 ob n =
     Some (afterFilter s n, storeAt out0 (nat ob) (map (frame_at fp s X0) (points s n)),
           storeAt out1 (nat ob) (map (frame_at fp s X1) (points s n)),
           int (length (points s n)))"
proof (cases "step s = 0")
  case True
  let ?U = "upFactor s" and ?D = "downFactor s"
  let ?K = "length (points s n)"
  have U: "0 < ?U" using cfg by (simp add: cfg_ok_def)
  have p: "0 \<le> phase s" "phase s < ?U" and o: "0 \<le> offset s"
    using pos True by (auto simp: pos_ok_def)
  have pts: "points s n = outputPoints ?D (n * ?U) (nextPhase s) (finePos s) (phase s)"
    using True by (simp add: points_def fineStep_def fineUnit_def)
  have "\<exists>i'. rationalLoop2 fp X0 X1 n ob s out0 out1 (hi32 (offset s)) 0 =
           Some (s\<lparr>phase := (nextPhase s ^^ ?K) (phase s)\<rparr>,
                 storeAt out0 (nat (ob + 0)) (map (frame_at fp s X0) (points s n)),
                 storeAt out1 (nat (ob + 0)) (map (frame_at fp s X1) (points s n)),
                 i', 0 + int ?K) \<and>
         0 \<le> i' \<and>
         finePos s + ?D * int ?K = i' * ?U + ((nextPhase s ^^ ?K) (phase s) * ?D) mod ?U \<and>
         0 \<le> (nextPhase s ^^ ?K) (phase s) \<and> (nextPhase s ^^ ?K) (phase s) < ?U"
    unfolding pts
  proof (rule rationalLoop2_gen [OF cfg True refl refl refl refl p])
    show "0 \<le> hi32 (offset s)" using o by (rule hi32_nonneg)
    show "finePos s = hi32 (offset s) * ?U + (phase s * ?D) mod ?U"
      using True by (simp add: finePos_def)
    show "n + numTaps s - 1 \<le> int (length X0)" "n + numTaps s - 1 \<le> int (length X1)" by fact+
    show "0 \<le> ob + 0" using ob by simp
    show "ob + 0 + int (length (outputPoints ?D (n * ?U) (nextPhase s) (finePos s) (phase s)))
          \<le> int (length out0)"
      "ob + 0 + int (length (outputPoints ?D (n * ?U) (nextPhase s) (finePos s) (phase s)))
          \<le> int (length out1)"
      using ob pts by simp_all
  qed
  then obtain i' where run: "rationalLoop2 fp X0 X1 n ob s out0 out1 (hi32 (offset s)) 0 =
           Some (s\<lparr>phase := (nextPhase s ^^ ?K) (phase s)\<rparr>,
                 storeAt out0 (nat ob) (map (frame_at fp s X0) (points s n)),
                 storeAt out1 (nat ob) (map (frame_at fp s X1) (points s n)), i', int ?K)"
    and e: "finePos s + ?D * int ?K = i' * ?U + ((nextPhase s ^^ ?K) (phase s) * ?D) mod ?U"
    by auto
  let ?r = "((nextPhase s ^^ ?K) (phase s) * ?D) mod ?U"
  have r: "0 \<le> ?r" "?r < ?U" using U by simp_all
  have "finePos s + ?D * int ?K - n * ?U = (i' - n) * ?U + ?r"
    using e by (simp add: algebra_simps)
  then have "(finePos s + ?D * int ?K - n * ?U) div ?U = i' - n"
    using r U by (simp add: div_pos_pos_trivial)
  then have "offsetAfter s n = (i' - n) * 2 ^ 32"
    using True by (simp add: offsetAfter_def fineStep_def fineUnit_def)
  then show ?thesis
    using True run by (simp add: multirateFilter2_def afterFilter_def phaseAfter_def)
next
  case False
  let ?K = "length (points s n)"
  have o: "0 \<le> offset s" using pos by (auto simp: pos_ok_def)
  have pts: "points s n = outputPoints (step s) (n * 2 ^ 32) (nextPhase s) (offset s) (phase s)"
    using False by (simp add: points_def fineStep_def fineUnit_def finePos_def)
  have run: "irrationalLoop2 fp X0 X1 n ob s out0 out1 0 =
     Some (s\<lparr>offset := offset s + step s * int ?K\<rparr>,
           storeAt out0 (nat (ob + 0)) (map (frame_at fp s X0) (points s n)),
           storeAt out1 (nat (ob + 0)) (map (frame_at fp s X1) (points s n)), 0 + int ?K)"
    unfolding pts
  proof (rule irrationalLoop2_gen [OF cfg False refl refl refl refl o])
    show "n + numTaps s - 1 \<le> int (length X0)" "n + numTaps s - 1 \<le> int (length X1)" by fact+
    show "0 \<le> ob + 0" using ob by simp
    show "ob + 0 + int (length (outputPoints (step s) (n * 2 ^ 32) (nextPhase s) (offset s) (phase s)))
          \<le> int (length out0)"
      "ob + 0 + int (length (outputPoints (step s) (n * 2 ^ 32) (nextPhase s) (offset s) (phase s)))
          \<le> int (length out1)"
      using ob pts by simp_all
  qed
  show ?thesis
    using False run
    by (simp add: multirateFilter2_def afterFilter_def phaseAfter_def offsetAfter_def
        nextPhase_irrational)
qed

lemma fineUnit_pos: "cfg_ok s \<Longrightarrow> 0 < fineUnit s"
  by (simp add: cfg_ok_def fineUnit_def)

lemma fineStep_pos: "cfg_ok s \<Longrightarrow> 0 < fineStep s"
  by (auto simp: cfg_ok_def fineStep_def split: if_splits)

lemma finePos_nonneg: "cfg_ok s \<Longrightarrow> pos_ok s \<Longrightarrow> 0 \<le> finePos s"
  using finePos_rational_div(2) [of s]
  by (cases "step s = 0") (auto simp: cfg_ok_def pos_ok_def finePos_def)

lemma points_after [simp]:
  "fineUnit (afterFilter s n) = fineUnit s" "fineStep (afterFilter s n) = fineStep s"
  "nextPhase (afterFilter s n) = nextPhase s" "phase (afterFilter s n) = phaseAfter s n"
  "frame_at fp (afterFilter s n) = frame_at fp s"
  by (simp_all add: afterFilter_def fineUnit_def fineStep_def)

lemma points_split:
  assumes "cfg_ok s" "pos_ok s" "0 \<le> n1" "0 \<le> n2"
  shows "points s (n1 + n2) =
         points s n1 @ map (\<lambda>(v, q). (v + n1 * fineUnit s, q)) (points (afterFilter s n1) n2)"
proof -
  let ?M = "fineUnit s" and ?S = "fineStep s" and ?nx = "nextPhase s"
  let ?K1 = "length (points s n1)"
  have M: "0 < ?M" using assms(1) by (rule fineUnit_pos)
  have le: "n1 * ?M \<le> (n1 + n2) * ?M" using assms(4) M by (simp add: algebra_simps)
  have f: "finePos (afterFilter s n1) = finePos s + ?S * int ?K1 - n1 * ?M"
    using afterFilter_facts(3) [OF assms(1,2)] .
  let ?q = "(?nx ^^ ?K1) (phase s)"
  have sp: "points s (n1 + n2) = points s n1 @
          outputPoints ?S ((n1 + n2) * ?M) ?nx (finePos s + ?S * int ?K1) ?q"
    unfolding points_def by (rule outputPoints_split [OF le])
  have sh: "outputPoints ?S (n2 * ?M + n1 * ?M) ?nx (finePos s + ?S * int ?K1 - n1 * ?M + n1 * ?M) ?q
      = map (\<lambda>(v, q). (v + n1 * ?M, q))
          (outputPoints ?S (n2 * ?M) ?nx (finePos s + ?S * int ?K1 - n1 * ?M) ?q)"
    by (rule outputPoints_shift)
  have a1: "n2 * ?M + n1 * ?M = (n1 + n2) * ?M" by (simp add: algebra_simps)
  have a2: "finePos s + ?S * int ?K1 - n1 * ?M + n1 * ?M = finePos s + ?S * int ?K1" by simp
  have p2: "points (afterFilter s n1) n2 =
      outputPoints ?S (n2 * ?M) ?nx (finePos s + ?S * int ?K1 - n1 * ?M) ?q"
    unfolding points_def [of "afterFilter s n1"] points_after f phaseAfter_def ..
  show ?thesis
    unfolding sp p2 using sh unfolding a1 a2 by simp
qed

lemma points_length_add:
  assumes "cfg_ok s" "pos_ok s" "0 \<le> n1" "0 \<le> n2"
  shows "length (points s (n1 + n2)) = length (points s n1) + length (points (afterFilter s n1) n2)"
  using points_split [OF assms] by simp

lemma afterFilter_add:
  assumes "cfg_ok s" "pos_ok s" "0 \<le> n1" "0 \<le> n2"
  shows "afterFilter (afterFilter s n1) n2 = afterFilter s (n1 + n2)"
proof -
  let ?s1 = "afterFilter s n1"
  note len = points_length_add [OF assms]
  have f: "finePos ?s1 = finePos s + fineStep s * int (length (points s n1)) - n1 * fineUnit s"
    using afterFilter_facts(3) [OF assms(1,2)] .
  have ph: "phaseAfter ?s1 n2 = phaseAfter s (n1 + n2)"
    unfolding phaseAfter_def len points_after
    by (simp add: phaseAfter_def funpow_add add.commute [of "length (points s n1)"])
  let ?K1 = "int (length (points s n1))" and ?K2 = "int (length (points ?s1 n2))"
  have arg: "finePos s + fineStep s * ?K1 - n1 * fineUnit s + fineStep s * ?K2 - n2 * fineUnit s
             = finePos s + fineStep s * (?K1 + ?K2) - (n1 + n2) * fineUnit s"
    by (simp add: algebra_simps)
  have off: "offsetAfter ?s1 n2 = offsetAfter s (n1 + n2)"
  proof (cases "step s = 0")
    case True
    then have st: "step ?s1 = 0" by (simp add: afterFilter_def)
    have "offsetAfter ?s1 n2 =
        ((finePos ?s1 + fineStep s * ?K2 - n2 * fineUnit s) div upFactor s) * 2 ^ 32"
      unfolding offsetAfter_def using st by (simp add: afterFilter_facts(6) [OF assms(1,2)])
    also have "\<dots> = ((finePos s + fineStep s * (?K1 + ?K2) - (n1 + n2) * fineUnit s)
                        div upFactor s) * 2 ^ 32"
      unfolding f arg ..
    also have "\<dots> = offsetAfter s (n1 + n2)"
      unfolding offsetAfter_def len using True by simp
    finally show ?thesis .
  next
    case False
    then have st: "step ?s1 \<noteq> 0" by (simp add: afterFilter_def)
    have o1: "offset ?s1 = offset s + step s * ?K1 - n1 * 2 ^ 32"
      using False by (simp add: afterFilter_def offsetAfter_def)
    have "offsetAfter ?s1 n2 = offset ?s1 + step s * ?K2 - n2 * 2 ^ 32"
      unfolding offsetAfter_def using st by (simp add: afterFilter_facts(4) [OF assms(1,2)])
    also have "\<dots> = offset s + step s * (?K1 + ?K2) - (n1 + n2) * 2 ^ 32"
      unfolding o1 by (simp add: algebra_simps)
    also have "\<dots> = offsetAfter s (n1 + n2)"
      unfolding offsetAfter_def len using False by simp
    finally show ?thesis .
  qed
  show ?thesis
    unfolding afterFilter_def [of ?s1 n2] ph off
    by (simp add: afterFilter_def)
qed

lemma point_index:
  assumes "cfg_ok s" "0 \<le> V" "V < n * fineUnit s"
  shows "0 \<le> (if step s = 0 then V div upFactor s else hi32 V) \<and>
         (if step s = 0 then V div upFactor s else hi32 V) < n"
proof (cases "step s = 0")
  case True
  have U: "0 < upFactor s" using assms(1) by (simp add: cfg_ok_def)
  have r: "0 \<le> V mod upFactor s" "V mod upFactor s < upFactor s" using U by simp_all
  have "V div upFactor s * upFactor s + V mod upFactor s < n * upFactor s"
    using assms(3) True by (simp add: fineUnit_def)
  then have "V div upFactor s < n"
    using fine_lt [OF U r, of "V div upFactor s" n] by simp
  moreover have "0 \<le> V div upFactor s" using assms(2) U by (simp add: pos_imp_zdiv_nonneg_iff)
  ultimately show ?thesis using True by simp
next
  case False
  then show ?thesis using assms by (simp add: fineUnit_def hi32_lt hi32_nonneg)
qed

lemma hi32_shift_num: "hi32 (V + c * 4294967296) = hi32 V + c"
  using hi32_shift [of V c] by simp

lemma lo32_shift_num: "lo32 (V + c * 4294967296) = lo32 V"
  using lo32_shift [of V c] by simp

lemma frame_at_shift:
  assumes cfg: "cfg_ok s" and V: "0 \<le> V" "V < n * fineUnit s" and c: "0 \<le> c"
    and eq: "\<forall>k. 0 \<le> k \<and> k < n + numTaps s - 1 \<longrightarrow> Y ! nat k = X ! nat (k + c)"
  shows "frame_at fp s Y (V, p) = frame_at fp s X (V + c * fineUnit s, p)"
proof -
  let ?i = "if step s = 0 then V div upFactor s else hi32 V"
  have i: "0 \<le> ?i" "?i < n" using point_index [OF cfg V] by simp_all
  have w: "\<forall>j \<in> set [0..<nat (numTaps s)]. Y ! nat (?i + int j) = X ! nat (?i + c + int j)"
  proof
    fix j assume "j \<in> set [0..<nat (numTaps s)]"
    then have "int j < numTaps s" by simp
    then have "0 \<le> ?i + int j \<and> ?i + int j < n + numTaps s - 1" using i by linarith
    then show "Y ! nat (?i + int j) = X ! nat (?i + c + int j)"
      using eq by (simp add: algebra_simps)
  qed
  show ?thesis
  proof (cases "step s = 0")
    case True
    have U: "0 < upFactor s" using cfg by (simp add: cfg_ok_def)
    have "(V + c * upFactor s) div upFactor s = V div upFactor s + c" using U by simp
    then show ?thesis
      using True w tapsv_cong [of "[0..<nat (numTaps s)]" Y "V div upFactor s" X "V div upFactor s + c"]
      by (simp add: frame_at_def fineUnit_def)
  next
    case False
    then show ?thesis
      using w itapsv_cong [of "[0..<nat (numTaps s)]" Y "hi32 V" X "hi32 V + c"]
      by (simp add: frame_at_def fineUnit_def hi32_shift_num lo32_shift_num)
  qed
qed

lemma points_range:
  assumes "cfg_ok s" "pos_ok s" "(v, q) \<in> set (points s n)"
  shows "0 \<le> v \<and> v < n * fineUnit s"
  using outputPoints_range [of v q "fineStep s" "n * fineUnit s" "nextPhase s" "finePos s" "phase s"]
    assms finePos_nonneg [OF assms(1,2)]
  by (simp add: points_def)

lemma frames_cong:
  assumes "cfg_ok s" "pos_ok s"
    and "\<forall>k. 0 \<le> k \<and> k < n + numTaps s - 1 \<longrightarrow> Y ! nat k = X ! nat k"
  shows "frames fp s Y n = frames fp s X n"
  unfolding frames_def
proof (rule map_cong [OF refl])
  fix pt assume pt: "pt \<in> set (points s n)"
  obtain v q where vq: "pt = (v, q)" by (cases pt)
  have r: "0 \<le> v" "v < n * fineUnit s" using points_range [OF assms(1,2)] pt vq by auto
  show "frame_at fp s Y pt = frame_at fp s X pt"
    unfolding vq using frame_at_shift [OF assms(1) r, of 0 Y X fp q] assms(3) by simp
qed

lemma frames_split:
  assumes cfg: "cfg_ok s" and pos: "pos_ok s" and n: "0 \<le> n1" "0 \<le> n2"
    and len: "n1 \<le> int (length X)"
  shows "frames fp s X (n1 + n2) =
         frames fp s X n1 @ frames fp (afterFilter s n1) (drop (nat n1) X) n2"
proof -
  let ?s1 = "afterFilter s n1"
  have c1: "cfg_ok ?s1" and p1: "pos_ok ?s1" using afterFilter_facts(1,2) [OF cfg pos] by simp_all
  have "map (frame_at fp s X) (map (\<lambda>(v, q). (v + n1 * fineUnit s, q)) (points ?s1 n2))
        = map (frame_at fp ?s1 (drop (nat n1) X)) (points ?s1 n2)"
    unfolding map_map
  proof (rule map_cong [OF refl])
    fix pt assume pt: "pt \<in> set (points ?s1 n2)"
    obtain v q where vq: "pt = (v, q)" by (cases pt)
    have r: "0 \<le> v" "v < n2 * fineUnit s" using points_range [OF c1 p1] pt vq by auto
    have "frame_at fp s (drop (nat n1) X) (v, q) = frame_at fp s X (v + n1 * fineUnit s, q)"
    proof (rule frame_at_shift [OF cfg r n(1)], intro allI impI)
      fix k assume k: "0 \<le> k \<and> k < n2 + numTaps s - 1"
      show "drop (nat n1) X ! nat k = X ! nat (k + n1)"
        using k n(1) len by (simp add: nat_add_distrib add.commute)
    qed
    then show "(frame_at fp s X \<circ> (\<lambda>(v, q). (v + n1 * fineUnit s, q))) pt
               = frame_at fp ?s1 (drop (nat n1) X) pt"
      unfolding vq by simp
  qed
  then show ?thesis
    unfolding frames_def points_split [OF cfg pos n] by simp
qed

lemma points_count:
  assumes "cfg_ok s" "pos_ok s"
  shows "int (length (points s n)) \<le> (n * fineUnit s + fineStep s - 1) div fineStep s \<or>
         length (points s n) = 0"
proof -
  have S: "0 < fineStep s" using assms(1) by (rule fineStep_pos)
  have V: "0 \<le> finePos s" using assms by (rule finePos_nonneg)
  have l: "length (points s n) = nat ((n * fineUnit s - finePos s + fineStep s - 1) div fineStep s)"
    unfolding points_def using outputPoints_length [OF S] by simp
  have "(n * fineUnit s - finePos s + fineStep s - 1) div fineStep s
        \<le> (n * fineUnit s + fineStep s - 1) div fineStep s"
    using S V by (intro zdiv_mono1) auto
  then show ?thesis unfolding l by linarith
qed

lemma history_shift:
  assumes h: "int (length h) = 2 * nH" and nH: "0 \<le> nH"
    and n: "0 \<le> n" "n \<le> int (length inp)"
    and nh: "nh = min nH n" and ni: "ni = n - nh"
  shows "\<exists>h0 h'. memcpy h nH inp 0 nh = Some h0 \<and>
           (if ni \<noteq> 0 then memcpy h0 0 inp ni nH else memcpy h0 0 h0 nh nH) = Some h' \<and>
           length h0 = length h \<and> length h' = length h \<and>
           take (nat nH) h' = drop (nat n) (stream nH h inp n) \<and>
           (\<forall>k. 0 \<le> k \<and> k < nh + nH \<longrightarrow> h0 ! nat k = stream nH h inp n ! nat k)"
proof -
  define NH where "NH = nat nH"
  define N where "N = nat n"
  have hl: "length h = 2 * NH" using h nH by (simp add: NH_def)
  have Nl: "N \<le> length inp" using n by (simp add: N_def)
  have ints: "nH = int NH" "n = int N" using nH n by (simp_all add: NH_def N_def)
  show ?thesis
  proof (cases "NH < N")
    case True
    then have nhv: "nh = int NH" and niv: "ni = int (N - NH)" "ni \<noteq> 0"
      using nh ni ints by auto
    let ?h0 = "take NH h @ take NH inp @ drop (NH + NH) h"
    let ?h' = "take NH (drop (N - NH) inp) @ drop NH ?h0"
    have m0: "memcpy h nH inp 0 nh = Some ?h0"
      unfolding nhv ints using hl Nl True by (simp add: memcpy_def nat_add_distrib)
    have l0: "length ?h0 = 2 * NH" using hl Nl True by simp
    have nd: "nat (int N - int NH) = N - NH" by linarith
    have m1: "memcpy ?h0 0 inp ni nH = Some ?h'"
      unfolding niv ints using hl Nl True by (simp add: memcpy_def nd)
    have l1: "length ?h' = 2 * NH" using hl Nl True by simp
    have t: "take NH ?h' = drop N (stream nH h inp n)"
      unfolding ints using hl Nl True by (simp add: stream_def drop_take)
    have w: "?h0 ! nat k = stream nH h inp n ! nat k" if "0 \<le> k \<and> k < nh + nH" for k
    proof -
      have "nat k < NH + NH" using that unfolding nhv ints by linarith
      then show ?thesis
        unfolding ints using hl Nl True by (simp add: stream_def nth_append)
    qed
    have c2: "(if ni \<noteq> 0 then memcpy ?h0 0 inp ni nH else memcpy ?h0 0 ?h0 nh nH) = Some ?h'"
      using m1 niv(2) by simp
    have c3: "length ?h0 = length h" and c4: "length ?h' = length h"
      by (simp_all only: l0 l1 hl)
    have c5: "take (nat nH) ?h' = drop (nat n) (stream nH h inp n)"
      using t by (simp only: NH_def N_def)
    have c6: "\<forall>k. 0 \<le> k \<and> k < nh + nH \<longrightarrow> ?h0 ! nat k = stream nH h inp n ! nat k"
      using w by blast
    show ?thesis
      apply (rule exI [of _ ?h0])
      apply (rule exI [of _ ?h'])
      apply (intro conjI m0 c2 c3 c4 c5 c6)
      done
  next
    case False
    then have nhv: "nh = int N" and niv: "ni = 0"
      using nh ni ints by auto
    let ?h0 = "take NH h @ take N inp @ drop (NH + N) h"
    let ?h' = "take NH (drop N ?h0) @ drop NH ?h0"
    have m0: "memcpy h nH inp 0 nh = Some ?h0"
      unfolding nhv ints using hl Nl False by (simp add: memcpy_def nat_add_distrib)
    have l0: "length ?h0 = 2 * NH" using hl Nl False by simp
    have m1: "memcpy ?h0 0 ?h0 nh nH = Some ?h'"
      unfolding nhv ints using l0 False by (simp add: memcpy_def)
    have l1: "length ?h' = 2 * NH" using hl Nl False by simp
    have t: "take NH ?h' = drop N (stream nH h inp n)"
      unfolding ints using hl Nl False by (simp add: stream_def)
    have w: "?h0 ! nat k = stream nH h inp n ! nat k" if "0 \<le> k \<and> k < nh + nH" for k
    proof -
      have "nat k < N + NH" using that unfolding nhv ints by linarith
      then have "nat k < NH \<or> nat k - NH < N" by linarith
      then show ?thesis
        unfolding ints using hl Nl False by (auto simp: stream_def nth_append)
    qed
    have c2: "(if ni \<noteq> 0 then memcpy ?h0 0 inp ni nH else memcpy ?h0 0 ?h0 nh nH) = Some ?h'"
      using m1 niv by simp
    have c3: "length ?h0 = length h" and c4: "length ?h' = length h"
      by (simp_all only: l0 l1 hl)
    have c5: "take (nat nH) ?h' = drop (nat n) (stream nH h inp n)"
      using t by (simp only: NH_def N_def)
    have c6: "\<forall>k. 0 \<le> k \<and> k < nh + nH \<longrightarrow> ?h0 ! nat k = stream nH h inp n ! nat k"
      using w by blast
    show ?thesis
      apply (rule exI [of _ ?h0])
      apply (rule exI [of _ ?h'])
      apply (intro conjI m0 c2 c3 c4 c5 c6)
      done
  qed
qed

lemma length_frames [simp]: "length (frames fp s X n) = length (points s n)"
  by (simp add: frames_def)

lemma stream_drop_history:
  "int (length h) = 2 * nH \<Longrightarrow> 0 \<le> nH \<Longrightarrow> drop (nat nH) (stream nH h inp n) = take (nat n) inp"
  by (simp add: stream_def)

lemma length_stream:
  "int (length h) = 2 * nH \<Longrightarrow> 0 \<le> nH \<Longrightarrow> 0 \<le> n \<Longrightarrow> n \<le> int (length inp) \<Longrightarrow>
   int (length (stream nH h inp n)) = nH + n"
  by (simp add: stream_def)

text \<open>One channel of a call: the two filter passes give the frames of the whole block.\<close>

lemma two_pass_frames:
  assumes cfg: "cfg_ok s" and pos: "pos_ok s"
    and nH: "nH = numTaps s - 1"
    and h: "int (length h) = 2 * nH"
    and n: "0 \<le> n" "n \<le> int (length inp)"
    and nh: "nh = min nH n" and ni: "ni = n - nh"
    and w: "\<forall>k. 0 \<le> k \<and> k < nh + nH \<longrightarrow> h0 ! nat k = stream nH h inp n ! nat k"
  shows "frames fp s h0 nh = frames fp s (stream nH h inp n) nh"
    and "ni \<noteq> 0 \<Longrightarrow>
         frames fp s (stream nH h inp n) nh @ frames fp (afterFilter s nh) inp ni
         = frames fp s (stream nH h inp n) n"
    and "ni = 0 \<Longrightarrow> nh = n"
proof -
  let ?X = "stream nH h inp n"
  have nH0: "0 \<le> nH" using cfg nH by (simp add: cfg_ok_def)
  have nh0: "0 \<le> nh" "nh \<le> nH" "nh \<le> n" "0 \<le> ni" "n = nh + ni" using nh ni nH0 n by auto
  have a: "nh + numTaps s - 1 = nh + nH" using nH by simp
  show "frames fp s h0 nh = frames fp s ?X nh"
    by (rule frames_cong [OF cfg pos]) (use w in \<open>simp only: a\<close>)
  show "ni = 0 \<Longrightarrow> nh = n" using nh0 by simp
  assume "ni \<noteq> 0"
  then have big: "nh = nH" "nH < n" using nh ni by auto
  let ?s1 = "afterFilter s nh"
  have c1: "cfg_ok ?s1" and p1: "pos_ok ?s1" and t1: "numTaps ?s1 = numTaps s"
    using afterFilter_facts [OF cfg pos] by simp_all
  have lenX: "nh \<le> int (length ?X)"
    using length_stream [OF h nH0 n] nh0 by simp
  have d: "drop (nat nh) ?X = take (nat n) inp"
    unfolding big using stream_drop_history [OF h nH0] .
  have "frames fp ?s1 inp ni = frames fp ?s1 (take (nat n) inp) ni"
  proof (rule frames_cong [OF c1 p1, symmetric], intro allI impI)
    fix k assume "0 \<le> k \<and> k < ni + numTaps ?s1 - 1"
    then have "nat k < nat n" using t1 nH big nh0 by linarith
    then show "take (nat n) inp ! nat k = inp ! nat k" by simp
  qed
  then have "frames fp s ?X nh @ frames fp ?s1 inp ni
             = frames fp s ?X nh @ frames fp ?s1 (drop (nat nh) ?X) ni"
    unfolding d by simp
  also have "\<dots> = frames fp s ?X (nh + ni)"
    using frames_split [OF cfg pos nh0(1,4) lenX, of fp] by simp
  finally show "frames fp s ?X nh @ frames fp ?s1 inp ni = frames fp s ?X n"
    using nh0(5) by simp
qed

lemma processFloat_mono_unfold:
  assumes "numChannels s = 1" "nh = min (numHistory s) n" "ni = n - nh"
    "memcpy (fst (history s)) (numHistory s) (fst (inputs_m s)) 0 nh = Some h0"
    "multirateFilter1 fp s h0 (fst (outputs_m s)) 0 nh = Some (s1, o1, no1)"
    "(if ni \<noteq> 0 then multirateFilter1 fp s1 (fst (inputs_m s)) o1 (0 + no1) ni
      else Some (s1, o1, 0)) = Some (s2, o2, no2)"
    "(if ni \<noteq> 0 then memcpy h0 0 (fst (inputs_m s)) ni (numHistory s)
      else memcpy h0 0 h0 nh (numHistory s)) = Some h'"
  shows "processFloat fp s ins outs n =
         Some (s2\<lparr>history := (h', snd (history s)), outputs_m := (o2, snd (outputs_m s))\<rparr>,
               0 + no1 + no2)"
  unfolding processFloat_def Let_def assms(2) [symmetric] assms(3) [symmetric]
  using assms(1,4-7) by (cases "ni \<noteq> 0") simp_all

lemma processFloat_mono:
  assumes ok: "src_ok s" and ch: "numChannels s = 1"
    and n: "0 \<le> n" "n \<le> SRC_BLOCK"
    and K: "int (length (points s n)) \<le> SRC_BLOCK"
  shows "\<exists>h'. processFloat fp s ins outs n =
           Some ((afterFilter s n)
                   \<lparr>history := (h', snd (history s)),
                    outputs_m := (storeAt (fst (outputs_m s)) 0
                       (frames fp s (stream (numHistory s) (fst (history s)) (fst (inputs_m s)) n) n),
                       snd (outputs_m s))\<rparr>,
                 int (length (points s n))) \<and>
         length h' = length (fst (history s)) \<and>
         take (nat (numHistory s)) h' =
           drop (nat n) (stream (numHistory s) (fst (history s)) (fst (inputs_m s)) n)"
proof -
  let ?nH = "numHistory s" and ?h = "fst (history s)" and ?inp = "fst (inputs_m s)"
  let ?out = "fst (outputs_m s)"
  let ?nh = "min ?nH n" and ?X = "stream (numHistory s) (fst (history s)) (fst (inputs_m s)) n"
  let ?ni = "n - ?nh"
  have cfg: "cfg_ok s" and pos: "pos_ok s" and nH: "?nH = numTaps s - 1"
    and hl: "int (length ?h) = 2 * ?nH" and il: "int (length ?inp) = SRC_BLOCK"
    and ol: "int (length ?out) = SRC_BLOCK"
    using ok by (simp_all add: src_ok_def)
  have nH0: "0 \<le> ?nH" using cfg nH by (simp add: cfg_ok_def)
  have nl: "n \<le> int (length ?inp)" using n il by simp
  obtain h0 h' where m0: "memcpy ?h ?nH ?inp 0 ?nh = Some h0"
    and m1: "(if ?ni \<noteq> 0 then memcpy h0 0 ?inp ?ni ?nH else memcpy h0 0 h0 ?nh ?nH) = Some h'"
    and l0: "length h0 = length ?h" and l1: "length h' = length ?h"
    and t: "take (nat ?nH) h' = drop (nat n) ?X"
    and w: "\<forall>k. 0 \<le> k \<and> k < ?nh + ?nH \<longrightarrow> h0 ! nat k = ?X ! nat k"
    using history_shift [OF hl nH0 n(1) nl refl refl] by blast
  note tp = two_pass_frames(1,2) [OF cfg pos nH hl n(1) nl refl refl w, where fp = fp]
    two_pass_frames(3) [OF cfg pos nH hl n(1) nl refl refl w]
  let ?s1 = "afterFilter s ?nh"
  have nh0: "0 \<le> ?nh" "0 \<le> ?ni" "?nh + ?ni = n" "?nh \<le> ?nH" using n nH0 by auto
  have c1: "cfg_ok ?s1" and p1: "pos_ok ?s1" and t1: "numTaps ?s1 = numTaps s"
    using afterFilter_facts [OF cfg pos] by simp_all
  have Kadd: "length (points s n) = length (points s ?nh) + length (points ?s1 ?ni)"
    using points_length_add [OF cfg pos nh0(1,2)] nh0(3) by simp
  have f1: "multirateFilter1 fp s h0 ?out 0 ?nh =
      Some (?s1, storeAt ?out 0 (frames fp s ?X ?nh), int (length (points s ?nh)))"
  proof -
    have "multirateFilter1 fp s h0 ?out 0 ?nh =
      Some (?s1, storeAt ?out (nat 0) (map (frame_at fp s h0) (points s ?nh)),
            int (length (points s ?nh)))"
    proof (rule multirateFilter1_run [OF cfg pos])
      show "?nh + numTaps s - 1 \<le> int (length h0)" using l0 hl nH nh0 by simp
      show "(0::int) \<le> 0" by simp
      show "0 + int (length (points s ?nh)) \<le> int (length ?out)" using Kadd K ol by simp
    qed
    then have "multirateFilter1 fp s h0 ?out 0 ?nh =
      Some (?s1, storeAt ?out 0 (frames fp s h0 ?nh), int (length (points s ?nh)))"
      by (simp add: frames_def)
    then show ?thesis by (simp only: tp(1))
  qed
  have "\<exists>no2. (if ?ni \<noteq> 0
          then multirateFilter1 fp ?s1 ?inp (storeAt ?out 0 (frames fp s ?X ?nh))
                 (0 + int (length (points s ?nh))) ?ni
          else Some (?s1, storeAt ?out 0 (frames fp s ?X ?nh), 0))
        = Some (afterFilter s n, storeAt ?out 0 (frames fp s ?X n), no2) \<and>
        0 + int (length (points s ?nh)) + no2 = int (length (points s n))"
  proof (cases "?ni \<noteq> 0")
    case True
    let ?o1 = "storeAt ?out 0 (frames fp s ?X ?nh)"
    have lo1: "length ?o1 = length ?out"
      using Kadd K ol by (intro length_storeAt) simp
    have "multirateFilter1 fp ?s1 ?inp ?o1 (0 + int (length (points s ?nh))) ?ni =
        Some (afterFilter ?s1 ?ni,
              storeAt ?o1 (nat (0 + int (length (points s ?nh))))
                (map (frame_at fp ?s1 ?inp) (points ?s1 ?ni)),
              int (length (points ?s1 ?ni)))"
    proof (rule multirateFilter1_run [OF c1 p1])
      show "?ni + numTaps ?s1 - 1 \<le> int (length ?inp)" using t1 nH nl True by auto
      show "0 \<le> 0 + int (length (points s ?nh))" by simp
      show "0 + int (length (points s ?nh)) + int (length (points ?s1 ?ni)) \<le> int (length ?o1)"
        using Kadd K ol lo1 by simp
    qed
    moreover have "afterFilter ?s1 ?ni = afterFilter s n"
      using afterFilter_add [OF cfg pos nh0(1,2)] nh0(3) by simp
    moreover have "storeAt ?o1 (nat (0 + int (length (points s ?nh))))
              (map (frame_at fp ?s1 ?inp) (points ?s1 ?ni)) = storeAt ?out 0 (frames fp s ?X n)"
    proof -
      have "storeAt ?o1 (nat (0 + int (length (points s ?nh))))
              (map (frame_at fp ?s1 ?inp) (points ?s1 ?ni))
            = storeAt ?o1 (0 + length (frames fp s ?X ?nh)) (frames fp ?s1 ?inp ?ni)"
        by (simp add: frames_def)
      also have "\<dots> = storeAt ?out 0 (frames fp s ?X ?nh @ frames fp ?s1 ?inp ?ni)"
        using Kadd K ol by (intro storeAt_storeAt) simp
      also have "\<dots> = storeAt ?out 0 (frames fp s ?X n)"
        by (simp only: tp(2) [OF True])
      finally show ?thesis .
    qed
    ultimately have "multirateFilter1 fp ?s1 ?inp ?o1 (0 + int (length (points s ?nh))) ?ni =
        Some (afterFilter s n, storeAt ?out 0 (frames fp s ?X n), int (length (points ?s1 ?ni)))"
      by (simp only:)
    then have "(if ?ni \<noteq> 0
          then multirateFilter1 fp ?s1 ?inp ?o1 (0 + int (length (points s ?nh))) ?ni
          else Some (?s1, ?o1, 0))
        = Some (afterFilter s n, storeAt ?out 0 (frames fp s ?X n), int (length (points ?s1 ?ni)))"
      by (simp only: if_P [OF True])
    moreover have "0 + int (length (points s ?nh)) + int (length (points ?s1 ?ni))
        = int (length (points s n))"
      using Kadd by linarith
    ultimately show ?thesis by blast
  next
    case False
    then have e: "?nh = n" using tp(3) by simp
    have "length (points ?s1 ?ni) = 0"
    proof -
      have "0 \<le> finePos ?s1" using c1 p1 by (rule finePos_nonneg)
      moreover have "?ni = 0" using False by simp
      ultimately show ?thesis
        by (subst points_def, subst outputPoints.simps) (simp only: mult_zero_left, simp)
    qed
    then have "0 + int (length (points s ?nh)) + 0 = int (length (points s n))"
      using Kadd by linarith
    moreover have "(if ?ni \<noteq> 0
          then multirateFilter1 fp ?s1 ?inp (storeAt ?out 0 (frames fp s ?X ?nh))
                 (0 + int (length (points s ?nh))) ?ni
          else Some (?s1, storeAt ?out 0 (frames fp s ?X ?nh), 0))
        = Some (afterFilter s n, storeAt ?out 0 (frames fp s ?X n), 0)"
    proof -
      have "Some (?s1, storeAt ?out 0 (frames fp s ?X ?nh), 0 :: int)
            = Some (afterFilter s n, storeAt ?out 0 (frames fp s ?X n), 0)"
        by (simp only: e)
      then show ?thesis by (simp only: if_not_P [OF False])
    qed
    ultimately show ?thesis by blast
  qed
  then obtain no2 where f2: "(if ?ni \<noteq> 0
          then multirateFilter1 fp ?s1 ?inp (storeAt ?out 0 (frames fp s ?X ?nh))
                 (0 + int (length (points s ?nh))) ?ni
          else Some (?s1, storeAt ?out 0 (frames fp s ?X ?nh), 0))
        = Some (afterFilter s n, storeAt ?out 0 (frames fp s ?X n), no2)"
    and tot: "0 + int (length (points s ?nh)) + no2 = int (length (points s n))"
    by blast
  have "processFloat fp s ins outs n =
         Some ((afterFilter s n)\<lparr>history := (h', snd (history s)),
                 outputs_m := (storeAt ?out 0 (frames fp s ?X n), snd (outputs_m s))\<rparr>,
               0 + int (length (points s ?nh)) + no2)"
    by (rule processFloat_mono_unfold [OF ch refl refl m0 f1 f2 m1])
  then show ?thesis unfolding tot using l1 t by blast
qed

lemma processFloat_stereo_unfold:
  assumes "numChannels s = 2" "nh = min (numHistory s) n" "ni = n - nh"
    "memcpy (fst (history s)) (numHistory s) (fst (inputs_m s)) 0 nh = Some h0"
    "memcpy (snd (history s)) (numHistory s) (snd (inputs_m s)) 0 nh = Some h1"
    "multirateFilter2 fp s h0 h1 (fst (outputs_m s)) (snd (outputs_m s)) 0 nh = Some (s1, o0, o1, no1)"
    "(if ni \<noteq> 0 then
        multirateFilter2 fp s1 (fst (inputs_m s)) (snd (inputs_m s)) o0 o1 (0 + no1) ni
      else Some (s1, o0, o1, 0)) = Some (s2, p0, p1, no2)"
    "inputs_m s2 = inputs_m s"
    "(if ni \<noteq> 0 then memcpy h0 0 (fst (inputs_m s)) ni (numHistory s)
      else memcpy h0 0 h0 nh (numHistory s)) = Some h0'"
    "(if ni \<noteq> 0 then memcpy h1 0 (snd (inputs_m s)) ni (numHistory s)
      else memcpy h1 0 h1 nh (numHistory s)) = Some h1'"
  shows "processFloat fp s Members outs n =
         Some (s2\<lparr>outputs_m := (p0, p1), history := (h0', h1')\<rparr>, 0 + no1 + no2)"
  unfolding processFloat_def Let_def assms(2) [symmetric] assms(3) [symmetric]
  using assms(1,4-10) by (cases "ni \<noteq> 0") (simp_all add: caller_array_def chan_def)

lemma processFloat_stereo:
  assumes ok: "src_ok s" and ch: "numChannels s = 2"
    and n: "0 \<le> n" "n \<le> SRC_BLOCK"
    and K: "int (length (points s n)) \<le> SRC_BLOCK"
  shows "\<exists>h0' h1'. processFloat fp s Members outs n =
           Some ((afterFilter s n)
                   \<lparr>outputs_m :=
                     (storeAt (fst (outputs_m s)) 0
                        (frames fp s (stream (numHistory s) (fst (history s)) (fst (inputs_m s)) n) n),
                      storeAt (snd (outputs_m s)) 0
                        (frames fp s (stream (numHistory s) (snd (history s)) (snd (inputs_m s)) n) n)),
                    history := (h0', h1')\<rparr>,
                 int (length (points s n))) \<and>
         length h0' = length (fst (history s)) \<and> length h1' = length (snd (history s)) \<and>
         take (nat (numHistory s)) h0' =
           drop (nat n) (stream (numHistory s) (fst (history s)) (fst (inputs_m s)) n) \<and>
         take (nat (numHistory s)) h1' =
           drop (nat n) (stream (numHistory s) (snd (history s)) (snd (inputs_m s)) n)"
proof -
  let ?nH = "numHistory s"
  let ?ha = "fst (history s)" and ?ia = "fst (inputs_m s)" and ?oa = "fst (outputs_m s)"
  let ?hb = "snd (history s)" and ?ib = "snd (inputs_m s)" and ?ob = "snd (outputs_m s)"
  let ?nh = "min ?nH n"
  let ?Xa = "stream (numHistory s) (fst (history s)) (fst (inputs_m s)) n"
  let ?Xb = "stream (numHistory s) (snd (history s)) (snd (inputs_m s)) n"
  let ?ni = "n - ?nh"
  have cfg: "cfg_ok s" and pos: "pos_ok s" and nH: "?nH = numTaps s - 1"
    and hla: "int (length ?ha) = 2 * ?nH" and ila: "int (length ?ia) = SRC_BLOCK"
    and ola: "int (length ?oa) = SRC_BLOCK"
    and hlb: "int (length ?hb) = 2 * ?nH" and ilb: "int (length ?ib) = SRC_BLOCK"
    and olb: "int (length ?ob) = SRC_BLOCK"
    using ok by (simp_all add: src_ok_def)
  have nH0: "0 \<le> ?nH" using cfg nH by (simp add: cfg_ok_def)
  have nla: "n \<le> int (length ?ia)" and nlb: "n \<le> int (length ?ib)" using n ila ilb by simp_all
  obtain h0 h0' where m0a: "memcpy ?ha ?nH ?ia 0 ?nh = Some h0"
    and m1a: "(if ?ni \<noteq> 0 then memcpy h0 0 ?ia ?ni ?nH else memcpy h0 0 h0 ?nh ?nH) = Some h0'"
    and l0a: "length h0 = length ?ha" and l1a: "length h0' = length ?ha"
    and ta: "take (nat ?nH) h0' = drop (nat n) ?Xa"
    and wa: "\<forall>k. 0 \<le> k \<and> k < ?nh + ?nH \<longrightarrow> h0 ! nat k = ?Xa ! nat k"
    using history_shift [OF hla nH0 n(1) nla refl refl] by blast
  obtain h1 h1' where m0b: "memcpy ?hb ?nH ?ib 0 ?nh = Some h1"
    and m1b: "(if ?ni \<noteq> 0 then memcpy h1 0 ?ib ?ni ?nH else memcpy h1 0 h1 ?nh ?nH) = Some h1'"
    and l0b: "length h1 = length ?hb" and l1b: "length h1' = length ?hb"
    and tb: "take (nat ?nH) h1' = drop (nat n) ?Xb"
    and wb: "\<forall>k. 0 \<le> k \<and> k < ?nh + ?nH \<longrightarrow> h1 ! nat k = ?Xb ! nat k"
    using history_shift [OF hlb nH0 n(1) nlb refl refl] by blast
  note tpa = two_pass_frames(1,2) [OF cfg pos nH hla n(1) nla refl refl wa, where fp = fp]
    two_pass_frames(3) [OF cfg pos nH hla n(1) nla refl refl wa]
  note tpb = two_pass_frames(1,2) [OF cfg pos nH hlb n(1) nlb refl refl wb, where fp = fp]
  let ?s1 = "afterFilter s ?nh"
  have nh0: "0 \<le> ?nh" "0 \<le> ?ni" "?nh + ?ni = n" "?nh \<le> ?nH" using n nH0 by auto
  have c1: "cfg_ok ?s1" and p1: "pos_ok ?s1" and t1: "numTaps ?s1 = numTaps s"
    using afterFilter_facts [OF cfg pos] by simp_all
  have Kadd: "length (points s n) = length (points s ?nh) + length (points ?s1 ?ni)"
    using points_length_add [OF cfg pos nh0(1,2)] nh0(3) by simp
  let ?a1 = "storeAt ?oa 0 (frames fp s ?Xa ?nh)" and ?b1 = "storeAt ?ob 0 (frames fp s ?Xb ?nh)"
  have f1: "multirateFilter2 fp s h0 h1 ?oa ?ob 0 ?nh =
      Some (?s1, ?a1, ?b1, int (length (points s ?nh)))"
  proof -
    have "multirateFilter2 fp s h0 h1 ?oa ?ob 0 ?nh =
      Some (?s1, storeAt ?oa (nat 0) (map (frame_at fp s h0) (points s ?nh)),
            storeAt ?ob (nat 0) (map (frame_at fp s h1) (points s ?nh)),
            int (length (points s ?nh)))"
    proof (rule multirateFilter2_run [OF cfg pos])
      show "?nh + numTaps s - 1 \<le> int (length h0)" using l0a hla nH nh0 by simp
      show "?nh + numTaps s - 1 \<le> int (length h1)" using l0b hlb nH nh0 by simp
      show "(0::int) \<le> 0" by simp
      show "0 + int (length (points s ?nh)) \<le> int (length ?oa)" using Kadd K ola by simp
      show "0 + int (length (points s ?nh)) \<le> int (length ?ob)" using Kadd K olb by simp
    qed
    then have "multirateFilter2 fp s h0 h1 ?oa ?ob 0 ?nh =
      Some (?s1, storeAt ?oa 0 (frames fp s h0 ?nh), storeAt ?ob 0 (frames fp s h1 ?nh),
            int (length (points s ?nh)))"
      by (simp add: frames_def)
    then show ?thesis by (simp only: tpa(1) tpb(1))
  qed
  have "\<exists>no2. (if ?ni \<noteq> 0
          then multirateFilter2 fp ?s1 ?ia ?ib ?a1 ?b1 (0 + int (length (points s ?nh))) ?ni
          else Some (?s1, ?a1, ?b1, 0))
        = Some (afterFilter s n, storeAt ?oa 0 (frames fp s ?Xa n),
                storeAt ?ob 0 (frames fp s ?Xb n), no2) \<and>
        0 + int (length (points s ?nh)) + no2 = int (length (points s n))"
  proof (cases "?ni \<noteq> 0")
    case True
    have la1: "length ?a1 = length ?oa" and lb1: "length ?b1 = length ?ob"
      using Kadd K ola olb by (simp_all add: length_storeAt)
    have "multirateFilter2 fp ?s1 ?ia ?ib ?a1 ?b1 (0 + int (length (points s ?nh))) ?ni =
        Some (afterFilter ?s1 ?ni,
              storeAt ?a1 (nat (0 + int (length (points s ?nh))))
                (map (frame_at fp ?s1 ?ia) (points ?s1 ?ni)),
              storeAt ?b1 (nat (0 + int (length (points s ?nh))))
                (map (frame_at fp ?s1 ?ib) (points ?s1 ?ni)),
              int (length (points ?s1 ?ni)))"
    proof (rule multirateFilter2_run [OF c1 p1])
      show "?ni + numTaps ?s1 - 1 \<le> int (length ?ia)" using t1 nH nla True by auto
      show "?ni + numTaps ?s1 - 1 \<le> int (length ?ib)" using t1 nH nlb True by auto
      show "0 \<le> 0 + int (length (points s ?nh))" by simp
      show "0 + int (length (points s ?nh)) + int (length (points ?s1 ?ni)) \<le> int (length ?a1)"
        using Kadd K ola la1 by simp
      show "0 + int (length (points s ?nh)) + int (length (points ?s1 ?ni)) \<le> int (length ?b1)"
        using Kadd K olb lb1 by simp
    qed
    moreover have "afterFilter ?s1 ?ni = afterFilter s n"
      using afterFilter_add [OF cfg pos nh0(1,2)] nh0(3) by simp
    moreover have "storeAt ?a1 (nat (0 + int (length (points s ?nh))))
              (map (frame_at fp ?s1 ?ia) (points ?s1 ?ni)) = storeAt ?oa 0 (frames fp s ?Xa n)"
    proof -
      have "storeAt ?a1 (nat (0 + int (length (points s ?nh))))
              (map (frame_at fp ?s1 ?ia) (points ?s1 ?ni))
            = storeAt ?a1 (0 + length (frames fp s ?Xa ?nh)) (frames fp ?s1 ?ia ?ni)"
        by (simp add: frames_def)
      also have "\<dots> = storeAt ?oa 0 (frames fp s ?Xa ?nh @ frames fp ?s1 ?ia ?ni)"
        using Kadd K ola by (intro storeAt_storeAt) simp
      also have "\<dots> = storeAt ?oa 0 (frames fp s ?Xa n)"
        by (simp only: tpa(2) [OF True])
      finally show ?thesis .
    qed
    moreover have "storeAt ?b1 (nat (0 + int (length (points s ?nh))))
              (map (frame_at fp ?s1 ?ib) (points ?s1 ?ni)) = storeAt ?ob 0 (frames fp s ?Xb n)"
    proof -
      have "storeAt ?b1 (nat (0 + int (length (points s ?nh))))
              (map (frame_at fp ?s1 ?ib) (points ?s1 ?ni))
            = storeAt ?b1 (0 + length (frames fp s ?Xb ?nh)) (frames fp ?s1 ?ib ?ni)"
        by (simp add: frames_def)
      also have "\<dots> = storeAt ?ob 0 (frames fp s ?Xb ?nh @ frames fp ?s1 ?ib ?ni)"
        using Kadd K olb by (intro storeAt_storeAt) simp
      also have "\<dots> = storeAt ?ob 0 (frames fp s ?Xb n)"
        by (simp only: tpb(2) [OF True])
      finally show ?thesis .
    qed
    ultimately have "multirateFilter2 fp ?s1 ?ia ?ib ?a1 ?b1 (0 + int (length (points s ?nh))) ?ni =
        Some (afterFilter s n, storeAt ?oa 0 (frames fp s ?Xa n),
              storeAt ?ob 0 (frames fp s ?Xb n), int (length (points ?s1 ?ni)))"
      by (simp only:)
    then have "(if ?ni \<noteq> 0
          then multirateFilter2 fp ?s1 ?ia ?ib ?a1 ?b1 (0 + int (length (points s ?nh))) ?ni
          else Some (?s1, ?a1, ?b1, 0))
        = Some (afterFilter s n, storeAt ?oa 0 (frames fp s ?Xa n),
                storeAt ?ob 0 (frames fp s ?Xb n), int (length (points ?s1 ?ni)))"
      by (simp only: if_P [OF True])
    moreover have "0 + int (length (points s ?nh)) + int (length (points ?s1 ?ni))
        = int (length (points s n))"
      using Kadd by linarith
    ultimately show ?thesis by blast
  next
    case False
    then have e: "?nh = n" using tpa(3) by simp
    have "length (points ?s1 ?ni) = 0"
    proof -
      have "0 \<le> finePos ?s1" using c1 p1 by (rule finePos_nonneg)
      moreover have "?ni = 0" using False by simp
      ultimately show ?thesis
        by (subst points_def, subst outputPoints.simps) (simp only: mult_zero_left, simp)
    qed
    then have "0 + int (length (points s ?nh)) + 0 = int (length (points s n))"
      using Kadd by linarith
    moreover have "(if ?ni \<noteq> 0
          then multirateFilter2 fp ?s1 ?ia ?ib ?a1 ?b1 (0 + int (length (points s ?nh))) ?ni
          else Some (?s1, ?a1, ?b1, 0))
        = Some (afterFilter s n, storeAt ?oa 0 (frames fp s ?Xa n),
                storeAt ?ob 0 (frames fp s ?Xb n), 0)"
    proof -
      have "Some (?s1, ?a1, ?b1, 0 :: int)
            = Some (afterFilter s n, storeAt ?oa 0 (frames fp s ?Xa n),
                    storeAt ?ob 0 (frames fp s ?Xb n), 0)"
        by (simp only: e)
      then show ?thesis by (simp only: if_not_P [OF False])
    qed
    ultimately show ?thesis by blast
  qed
  then obtain no2 where f2: "(if ?ni \<noteq> 0
          then multirateFilter2 fp ?s1 ?ia ?ib ?a1 ?b1 (0 + int (length (points s ?nh))) ?ni
          else Some (?s1, ?a1, ?b1, 0))
        = Some (afterFilter s n, storeAt ?oa 0 (frames fp s ?Xa n),
                storeAt ?ob 0 (frames fp s ?Xb n), no2)"
    and tot: "0 + int (length (points s ?nh)) + no2 = int (length (points s n))"
    by blast
  have im: "inputs_m (afterFilter s n) = inputs_m s" by (simp add: afterFilter_def)
  have "processFloat fp s Members outs n =
         Some ((afterFilter s n)\<lparr>outputs_m := (storeAt ?oa 0 (frames fp s ?Xa n),
                   storeAt ?ob 0 (frames fp s ?Xb n)),
                 history := (h0', h1')\<rparr>,
               0 + int (length (points s ?nh)) + no2)"
    by (rule processFloat_stereo_unfold [OF ch refl refl m0a m0b f1 f2 im m1a m1b])
  then show ?thesis unfolding tot using l1a l1b ta tb by blast
qed

lemma storeAt_snoc:
  assumes "a + length vs < length xs"
  shows "(storeAt xs a vs)[a + length vs := v] = storeAt xs a (vs @ [v])"
proof -
  have "(drop (a + length vs) xs)[0 := v] = v # drop (Suc (a + length vs)) xs"
    using assms by (simp add: Cons_nth_drop_Suc [symmetric])
  then show ?thesis
    using assms by (simp add: storeAt_def list_update_append)
qed

lemma upt_0_2: "[0..<2] = [0, Suc 0]"
  by (simp add: numeral_2_eq_2)

lemma length_storeAt_le: "a + length vs \<le> length xs \<Longrightarrow> length (storeAt xs a vs) = length xs"
  by (simp add: storeAt_def)

lemma chanIn_snoc:
  "chanIn fp nc j input a (Suc k) = chanIn fp nc j input a k @ [toFloat fp (input ! (nat nc * (a + k) + j))]"
  by (simp add: chanIn_def)

lemma convertInputFrame_mono:
  assumes i: "i < length r0" and inp: "i < length input"
  shows "convertInputFrame fp 1 input (int i) [0..<nat 1] (r0, r1) =
           Some (r0[i := toFloat fp (input ! i)], r1)"
  using assms by (simp add: rd_def wr_def chan_def set_chan_def toFloat_def)

lemma convertInputFrame_stereo:
  assumes i: "i < length r0" "i < length r1" and inp: "2 * i + 1 < length input"
  shows "convertInputFrame fp 2 input (int i) [0..<nat 2] (r0, r1) =
           Some (r0[i := toFloat fp (input ! (2 * i))], r1[i := toFloat fp (input ! (2 * i + 1))])"
proof -
  have a: "nat (2 * int i) = 2 * i" "nat (2 * int i + 1) = Suc (2 * i)" by linarith+
  show ?thesis
    using assms by (simp add: upt_0_2 rd_def wr_def chan_def set_chan_def toFloat_def a)
qed

lemma convertInputFrames_mono:
  "length v0 = a \<Longrightarrow> a + k \<le> length r0 \<Longrightarrow> a + k \<le> length input \<Longrightarrow>
    convertInputFrames fp 1 input [a..<a + k] (storeAt r0 0 v0, r1)
    = Some (storeAt r0 0 (v0 @ chanIn fp 1 0 input a k), r1)"
proof (induction k arbitrary: a v0)
  case 0
  then show ?case by (simp add: chanIn_def)
next
  case (Suc k)
  have e: "[a..<a + Suc k] = a # [Suc a..<Suc a + k]" by (simp add: upt_rec)
  let ?w0 = "v0 @ [toFloat fp (input ! a)]"
  have l0: "length (storeAt r0 0 v0) = length r0"
    using Suc.prems by (simp add: length_storeAt_le)
  have "convertInputFrame fp 1 input (int a) [0..<nat 1] (storeAt r0 0 v0, r1)
        = Some ((storeAt r0 0 v0)[a := toFloat fp (input ! a)], r1)"
    using Suc.prems l0 by (intro convertInputFrame_mono) simp_all
  moreover have "(storeAt r0 0 v0)[a := toFloat fp (input ! a)] = storeAt r0 0 ?w0"
    using storeAt_snoc [of 0 v0 r0] Suc.prems by simp
  ultimately have fr: "convertInputFrame fp 1 input (int a) [0..<nat 1] (storeAt r0 0 v0, r1)
        = Some (storeAt r0 0 ?w0, r1)"
    by (simp only:)
  have IH: "convertInputFrames fp 1 input [Suc a..<Suc a + k] (storeAt r0 0 ?w0, r1)
            = Some (storeAt r0 0 (?w0 @ chanIn fp 1 0 input (Suc a) k), r1)"
    using Suc.prems by (intro Suc.IH) simp_all
  have c: "chanIn fp 1 0 input a (Suc k) = toFloat fp (input ! a) # chanIn fp 1 0 input (Suc a) k"
    by (simp add: chanIn_def upt_rec)
  show ?case
    unfolding e c using fr IH by simp
qed

lemma convertInputFrames_stereo:
  "length v0 = a \<Longrightarrow> length v1 = a \<Longrightarrow> a + k \<le> length r0 \<Longrightarrow> a + k \<le> length r1 \<Longrightarrow>
    2 * (a + k) \<le> length input \<Longrightarrow>
    convertInputFrames fp 2 input [a..<a + k] (storeAt r0 0 v0, storeAt r1 0 v1)
    = Some (storeAt r0 0 (v0 @ chanIn fp 2 0 input a k), storeAt r1 0 (v1 @ chanIn fp 2 1 input a k))"
proof (induction k arbitrary: a v0 v1)
  case 0
  then show ?case by (simp add: chanIn_def)
next
  case (Suc k)
  have e: "[a..<a + Suc k] = a # [Suc a..<Suc a + k]" by (simp add: upt_rec)
  let ?w0 = "v0 @ [toFloat fp (input ! (2 * a))]"
  let ?w1 = "v1 @ [toFloat fp (input ! (2 * a + 1))]"
  have l0: "length (storeAt r0 0 v0) = length r0" and l1: "length (storeAt r1 0 v1) = length r1"
    using Suc.prems by (simp_all add: length_storeAt_le)
  have "convertInputFrame fp 2 input (int a) [0..<nat 2] (storeAt r0 0 v0, storeAt r1 0 v1)
        = Some ((storeAt r0 0 v0)[a := toFloat fp (input ! (2 * a))],
                (storeAt r1 0 v1)[a := toFloat fp (input ! (2 * a + 1))])"
    using Suc.prems l0 l1 by (intro convertInputFrame_stereo) simp_all
  moreover have "(storeAt r0 0 v0)[a := toFloat fp (input ! (2 * a))] = storeAt r0 0 ?w0"
    using storeAt_snoc [of 0 v0 r0] Suc.prems by simp
  moreover have "(storeAt r1 0 v1)[a := toFloat fp (input ! (2 * a + 1))] = storeAt r1 0 ?w1"
    using storeAt_snoc [of 0 v1 r1] Suc.prems by simp
  ultimately have fr: "convertInputFrame fp 2 input (int a) [0..<nat 2]
          (storeAt r0 0 v0, storeAt r1 0 v1) = Some (storeAt r0 0 ?w0, storeAt r1 0 ?w1)"
    by (simp only:)
  have IH: "convertInputFrames fp 2 input [Suc a..<Suc a + k] (storeAt r0 0 ?w0, storeAt r1 0 ?w1)
            = Some (storeAt r0 0 (?w0 @ chanIn fp 2 0 input (Suc a) k),
                    storeAt r1 0 (?w1 @ chanIn fp 2 1 input (Suc a) k))"
    using Suc.prems by (intro Suc.IH) simp_all
  have c: "chanIn fp 2 j input a (Suc k)
           = toFloat fp (input ! (2 * a + j)) # chanIn fp 2 j input (Suc a) k" for j
    by (simp add: chanIn_def upt_rec)
  show ?case
    unfolding e using fr IH by (simp add: c)
qed

lemma convertInputFromInt16_run:
  assumes nc: "numChannels s = 1 \<or> numChannels s = 2"
    and n: "0 \<le> n" "n \<le> int (length (fst ins))" "n \<le> int (length (snd ins))"
    and inp: "numChannels s * n \<le> int (length input)"
  shows "convertInputFromInt16 fp s input ins n =
       Some (storeAt (fst ins) 0 (chanIn fp (numChannels s) 0 input 0 (nat n)),
             if numChannels s = 2 then storeAt (snd ins) 0 (chanIn fp (numChannels s) 1 input 0 (nat n))
             else snd ins)"
  using nc
proof
  assume c: "numChannels s = 1"
  have "convertInputFrames fp 1 input [0..<0 + nat n] (storeAt (fst ins) 0 [], snd ins)
        = Some (storeAt (fst ins) 0 ([] @ chanIn fp 1 0 input 0 (nat n)), snd ins)"
    using n inp c by (intro convertInputFrames_mono) simp_all
  then show ?thesis using c by (simp add: convertInputFromInt16_def storeAt_Nil)
next
  assume c: "numChannels s = 2"
  have "convertInputFrames fp 2 input [0..<0 + nat n]
          (storeAt (fst ins) 0 [], storeAt (snd ins) 0 [])
        = Some (storeAt (fst ins) 0 ([] @ chanIn fp 2 0 input 0 (nat n)),
                storeAt (snd ins) 0 ([] @ chanIn fp 2 1 input 0 (nat n)))"
    using n inp c by (intro convertInputFrames_stereo) simp_all
  then show ?thesis using c by (simp add: convertInputFromInt16_def storeAt_Nil)
qed

lemma convertOutputFrame_run:
  assumes nc: "nc = 1 \<or> nc = 2" and i: "i < length (fst rows)" "i < length (snd rows)"
  shows "convertOutputFrame fp rows (int i) [0..<nat nc] =
           Some (map (\<lambda>j. saturate16 fp (sel j rows ! i)) [0..<nat nc])"
proof -
  have u1: "[0..<nat 1] = [0]" and u2: "[0..<nat 2] = [0, 1]" by (simp_all add: upt_rec)
  from nc show ?thesis
  proof
    assume "nc = 1"
    then show ?thesis using i by (simp add: u1 rd_def chan_def sel_def)
  next
    assume "nc = 2"
    then show ?thesis using i by (simp add: upt_0_2 rd_def chan_def sel_def)
  qed
qed

lemma convertOutputFrames_run:
  assumes nc: "nc = 1 \<or> nc = 2"
  shows "\<forall>i \<in> set is. i < length (fst rows) \<and> i < length (snd rows) \<Longrightarrow>
         convertOutputFrames fp nc rows is = Some (interleave16 fp nc rows is)"
proof (induction "is")
  case Nil
  then show ?case by (simp add: interleave16_def)
next
  case (Cons i "is")
  have "convertOutputFrame fp rows (int i) [0..<nat nc] =
           Some (map (\<lambda>j. saturate16 fp (sel j rows ! i)) [0..<nat nc])"
    using Cons.prems by (intro convertOutputFrame_run [OF nc]) simp_all
  moreover have "convertOutputFrames fp nc rows is = Some (interleave16 fp nc rows is)"
    using Cons.prems by (intro Cons.IH) simp
  ultimately show ?case by (simp add: interleave16_def)
qed

lemma config_fields:
  assumes "config a = config b"
  shows "polyphaseFilter a = polyphaseFilter b" "stepTable a = stepTable b"
    "numChannels a = numChannels b" "upFactor a = upFactor b" "downFactor a = downFactor b"
    "numTaps a = numTaps b" "numHistory a = numHistory b" "inputBlock a = inputBlock b"
    "step a = step b" "inputSampleRate a = inputSampleRate b"
    "outputSampleRate a = outputSampleRate b"
  using arg_cong [OF assms, of polyphaseFilter] arg_cong [OF assms, of stepTable]
    arg_cong [OF assms, of numChannels] arg_cong [OF assms, of upFactor]
    arg_cong [OF assms, of downFactor] arg_cong [OF assms, of numTaps]
    arg_cong [OF assms, of numHistory] arg_cong [OF assms, of inputBlock]
    arg_cong [OF assms, of step] arg_cong [OF assms, of inputSampleRate]
    arg_cong [OF assms, of outputSampleRate]
  by (simp_all add: config_def)

lemma same_ctl:
  assumes "config a = config b" "offset a = offset b" "phase a = phase b"
  shows "points a = points b" "frame_at fp a = frame_at fp b" "frames fp a = frames fp b"
    "cfg_ok a = cfg_ok b" "pos_ok a = pos_ok b" "fineUnit a = fineUnit b" "fineStep a = fineStep b"
    "offsetAfter a = offsetAfter b" "phaseAfter a = phaseAfter b"
proof -
  note f = config_fields [OF assms(1)]
  have np: "nextPhase a = nextPhase b" by (rule ext) (simp add: nextPhase_def f)
  show fu: "fineUnit a = fineUnit b" and fs: "fineStep a = fineStep b"
    by (simp_all add: fineUnit_def fineStep_def f)
  have fp': "finePos a = finePos b" by (simp add: finePos_def f assms)
  show p: "points a = points b" by (rule ext) (simp add: points_def fu fs fp' np assms)
  show fa: "frame_at fp a = frame_at fp b" by (intro ext) (simp add: frame_at_def f)
  show "frames fp a = frames fp b" by (intro ext) (simp add: frames_def p fa)
  show "cfg_ok a = cfg_ok b" by (simp add: cfg_ok_def f)
  show "pos_ok a = pos_ok b" by (simp add: pos_ok_def f assms)
  show oa: "offsetAfter a = offsetAfter b"
    by (rule ext) (simp add: offsetAfter_def f fu fs fp' p assms)
  show pa: "phaseAfter a = phaseAfter b"
    by (rule ext) (simp add: phaseAfter_def np p assms)
qed

lemma block_count:
  assumes "src_ok s" "0 \<le> n" "n \<le> inputBlock s"
  shows "int (length (points s n)) \<le> SRC_BLOCK"
proof -
  have cfg: "cfg_ok s" and pos: "pos_ok s"
    and ib: "inputBlock s * fineUnit s \<le> SRC_BLOCK * fineStep s"
    using assms(1) by (simp_all add: src_ok_def)
  have S: "0 < fineStep s" and M: "0 < fineUnit s"
    using cfg by (rule fineStep_pos, rule fineUnit_pos)
  have "n * fineUnit s \<le> inputBlock s * fineUnit s"
    using assms(3) M by (intro mult_right_mono) auto
  then have "n * fineUnit s + fineStep s - 1 \<le> SRC_BLOCK * fineStep s + (fineStep s - 1)"
    using ib by linarith
  then have "(n * fineUnit s + fineStep s - 1) div fineStep s
      \<le> (SRC_BLOCK * fineStep s + (fineStep s - 1)) div fineStep s"
    by (rule zdiv_mono1) (rule S)
  also have "\<dots> = SRC_BLOCK" using S by (simp add: div_pos_pos_trivial)
  finally have "(n * fineUnit s + fineStep s - 1) div fineStep s \<le> SRC_BLOCK" .
  then show ?thesis
    using points_count [OF cfg pos, of n] by (auto simp: SRC_BLOCK_def)
qed

lemma points_zero: "cfg_ok s \<Longrightarrow> pos_ok s \<Longrightarrow> points s 0 = []"
  using finePos_nonneg [of s]
  by (subst points_def, subst outputPoints.simps) simp

lemma afterFilter_zero:
  assumes "cfg_ok s" "pos_ok s"
  shows "afterFilter s 0 = s"
proof -
  have pz: "points s 0 = []" using assms by (rule points_zero)
  have "offsetAfter s 0 = offset s"
  proof (cases "step s = 0")
    case True
    have U: "0 < upFactor s" using assms(1) by (simp add: cfg_ok_def)
    have lo: "lo32 (offset s) = 0" using assms(2) True by (simp add: pos_ok_def)
    have "hi32 (offset s) * 2 ^ 32 = offset s"
      using lo unfolding hi32_def lo32_def by (simp add: mod_eq_0_iff_dvd)
    then show ?thesis
      using True finePos_rational_div(1) [OF assms(2) True U]
      by (simp add: offsetAfter_def pz)
  next
    case False
    then show ?thesis by (simp add: offsetAfter_def pz)
  qed
  moreover have "phaseAfter s 0 = phase s" by (simp add: phaseAfter_def pz)
  ultimately show ?thesis by (simp add: afterFilter_def)
qed

lemma unity_ok: "src_ok (unity 1)" "src_ok (unity 2)"
  by (simp_all add: src_ok_def cfg_ok_def pos_ok_def unity_def makeStepTable_def SRC_BLOCK_def
      fineUnit_def fineStep_def lo32_def cdiv_def)

lemma processFloat_zero:
  assumes ok: "src_ok s"
  shows "processFloat fp s ins outs 0 = Some (s, 0)"
proof -
  have cfg: "cfg_ok s" and pos: "pos_ok s" and nH: "numHistory s = numTaps s - 1"
    and hl: "int (length (fst (history s))) = 2 * numHistory s"
       "int (length (snd (history s))) = 2 * numHistory s"
    and ch: "numChannels s = 1 \<or> numChannels s = 2"
    using ok by (simp_all add: src_ok_def)
  have nH0: "0 \<le> numHistory s" using cfg nH by (simp add: cfg_ok_def)
  have mn: "min (numHistory s) 0 = 0" using nH0 by simp
  have m1: "memcpy h (numHistory s) src 0 0 = Some h" if "int (length h) = 2 * numHistory s"
    for h src :: "'a list"
    using that nH0 by (simp add: memcpy_def)
  have m2: "memcpy h 0 h 0 (numHistory s) = Some h" if "int (length h) = 2 * numHistory s"
    for h :: "'a list"
    using that nH0 by (simp add: memcpy_def flip: take_add)
  have pz: "points s 0 = []" using cfg pos by (rule points_zero)
  have az: "afterFilter s 0 = s" using cfg pos by (rule afterFilter_zero)
  have f1: "multirateFilter1 fp s X out 0 0 = Some (s, out, 0)"
    if "numTaps s - 1 \<le> int (length X)" for X out
    using multirateFilter1_run [OF cfg pos, of 0 X 0 out fp] that
    by (simp add: pz az storeAt_Nil)
  have f2: "multirateFilter2 fp s X Y out out' 0 0 = Some (s, out, out', 0)"
    if "numTaps s - 1 \<le> int (length X)" "numTaps s - 1 \<le> int (length Y)" for X Y out out'
    using multirateFilter2_run [OF cfg pos, of 0 X Y 0 out out' fp] that
    by (simp add: pz az storeAt_Nil)
  have l: "numTaps s - 1 \<le> int (length (fst (history s)))"
    "numTaps s - 1 \<le> int (length (snd (history s)))"
    using hl nH nH0 by simp_all
  from ch show ?thesis
  proof
    assume c: "numChannels s = 1"
    show ?thesis
      unfolding processFloat_def Let_def mn
      by (simp add: c m1 [OF hl(1)] m2 [OF hl(1)] f1 [OF l(1)])
  next
    assume c: "numChannels s = 2"
    show ?thesis
      unfolding processFloat_def Let_def mn
      by (simp add: c m1 [OF hl(1)] m2 [OF hl(1)] m1 [OF hl(2)] m2 [OF hl(2)] f2 [OF l])
  qed
qed

lemma count_le_maxOutput:
  assumes ok: "src_ok s" and n: "0 \<le> n" "n \<le> inputBlock s"
  shows "getMaxOutput s n = Some (spec_maxOutput (upFactor s) (downFactor s) (step s) n)"
    "int (length (points s n)) \<le> spec_maxOutput (upFactor s) (downFactor s) (step s) n"
    "spec_maxOutput (upFactor s) (downFactor s) (step s) n \<le> SRC_BLOCK"
proof -
  have cfg: "cfg_ok s" and pos: "pos_ok s"
    and ib: "inputBlock s \<le> SRC_BLOCK" "inputBlock s * fineUnit s \<le> SRC_BLOCK * fineStep s"
    using ok by (simp_all add: src_ok_def)
  have S: "0 < fineStep s" and M: "0 < fineUnit s"
    using cfg by (rule fineStep_pos, rule fineUnit_pos)
  have S': "0 < (if step s = 0 then downFactor s else step s)"
    using S by (simp add: fineStep_def)
  have mx: "spec_maxOutput (upFactor s) (downFactor s) (step s) n
      = (n * fineUnit s + fineStep s - 1) div fineStep s"
    unfolding spec_maxOutput_int [OF S'] by (simp add: fineUnit_def fineStep_def)
  have "n * fineUnit s \<le> inputBlock s * fineUnit s"
    using n(2) M by (intro mult_right_mono) auto
  then have "n * fineUnit s + fineStep s - 1 \<le> SRC_BLOCK * fineStep s + (fineStep s - 1)"
    using ib by linarith
  then have "(n * fineUnit s + fineStep s - 1) div fineStep s
      \<le> (SRC_BLOCK * fineStep s + (fineStep s - 1)) div fineStep s"
    by (rule zdiv_mono1) (rule S)
  also have "\<dots> = SRC_BLOCK" using S by (simp add: div_pos_pos_trivial)
  finally show le: "spec_maxOutput (upFactor s) (downFactor s) (step s) n \<le> SRC_BLOCK"
    unfolding mx .
  have "0 \<le> n * fineUnit s" using n(1) M by (intro mult_nonneg_nonneg) auto
  then have "0 \<le> n * fineUnit s + fineStep s - 1" using S by linarith
  then have nn: "0 \<le> (n * fineUnit s + fineStep s - 1) div fineStep s"
    using S by (simp add: pos_imp_zdiv_nonneg_iff)
  show "int (length (points s n)) \<le> spec_maxOutput (upFactor s) (downFactor s) (step s) n"
    unfolding mx using points_count [OF cfg pos, of n] nn by auto
  have "oracle_ranges s n 0"
    unfolding oracle_ranges_def using cfg n ib(1) le
    by (auto simp: cfg_ok_def SRC_BLOCK_def spec_minInput_def split: if_splits)
  then show "getMaxOutput s n = Some (spec_maxOutput (upFactor s) (downFactor s) (step s) n)"
    by (rule getMaxOutput_spec)
qed

lemma src_ok_block:
  assumes "src_ok s" "0 \<le> n" "n \<le> inputBlock s"
  shows "n \<le> SRC_BLOCK" "int (length (points s n)) \<le> SRC_BLOCK"
  using assms block_count [OF assms] by (simp_all add: src_ok_def)

lemma processFloat_count:
  assumes ok: "src_ok s" and n: "0 \<le> n" "n \<le> inputBlock s"
    and ins: "numChannels s = 1 \<or> ins = Members"
  shows "\<exists>s'. processFloat fp s ins outs n = Some (s', int (length (points s n)))"
proof -
  note b = src_ok_block [OF ok n]
  have "numChannels s = 1 \<or> numChannels s = 2" using ok by (simp add: src_ok_def)
  then show ?thesis
  proof
    assume c: "numChannels s = 1"
    show ?thesis using processFloat_mono [OF ok c n(1) b, of fp ins outs] by blast
  next
    assume c: "numChannels s = 2"
    then have "ins = Members" using ins by simp
    then show ?thesis using processFloat_stereo [OF ok c n(1) b, of fp outs] by blast
  qed
qed

text \<open>
  Claim C9.  In every state that satisfies the invariant \<open>src_ok\<close>, with one channel or
  two and whatever the arrays of the caller are, \<^verbatim>\<open>processFloat\<close> with \<open>inputFrames = 0\<close>
  returns 0 and leaves the object as it was: \<^verbatim>\<open>_offset\<close>, \<^verbatim>\<open>_phase\<close>, both history
  buffers and every other member.
\<close>

theorem C9_zero_frames:
  assumes "src_ok s"
  shows "processFloat fp s ins outs 0 = Some (s, 0)"
  using assms by (rule processFloat_zero)

theorem C9_zero_frames_witness:
  "processFloat rat_fpu (unity 2) (Caller []) (Caller []) 0 = Some (unity 2, 0)"
  using C9_zero_frames [OF unity_ok(2)] .

lemma chanIn_length: "length (chanIn fp nc j input a k) = k"
  by (simp add: chanIn_def)

lemma chanIn_add:
  "chanIn fp nc j input a (k + m) = chanIn fp nc j input a k @ chanIn fp nc j input (a + k) m"
proof -
  have "[a..<a + (k + m)] = [a..<a + k] @ [a + k..<a + k + m]"
    by (metis add.assoc le_add1 upt_add_eq_append)
  then show ?thesis by (simp add: chanIn_def)
qed

lemma chanIn_drop:
  assumes "nat nc * a + nat nc * m \<le> length input" "j < nat nc"
  shows "chanIn fp nc j input a m = chanIn fp nc j (drop (nat nc * a) input) 0 m"
proof -
  have u: "[a..<a + m] = map (\<lambda>i. i + a) [0..<m]"
    by (simp add: map_add_upt add.commute)
  have "map (\<lambda>i. toFloat fp (input ! (nat nc * i + j))) [a..<a + m]
      = map (\<lambda>i. toFloat fp (input ! (nat nc * (a + i) + j))) [0..<m]"
    by (subst u) (simp add: comp_def add.commute)
  also have "\<dots> = map (\<lambda>i. toFloat fp (drop (nat nc * a) input ! (nat nc * i + j))) [0..<m]"
  proof (rule map_cong [OF refl])
    fix i assume "i \<in> set [0..<m]"
    then have i: "i < m" by simp
    have "nat nc * Suc i \<le> nat nc * m" using i by (intro mult_le_mono2) simp
    then have "nat nc * i + nat nc \<le> nat nc * m" by simp
    then have "nat nc * a + (nat nc * i + j) < length input" using assms by linarith
    then show "toFloat fp (input ! (nat nc * (a + i) + j))
        = toFloat fp (drop (nat nc * a) input ! (nat nc * i + j))"
      by (simp add: distrib_left add.assoc)
  qed
  finally show ?thesis by (simp add: chanIn_def)
qed

lemma interleave16_cong:
  assumes "\<forall>j < nat nc. \<forall>i \<in> set is. sel j R ! i = sel j R' ! i"
  shows "interleave16 fp nc R is = interleave16 fp nc R' is"
  unfolding interleave16_def using assms
  by (intro arg_cong [where f = concat] map_cong refl) simp

lemma interleave16_append:
  assumes "\<forall>j < nat nc. length (sel j A) = K1"
  shows "interleave16 fp nc (fst A @ fst B, snd A @ snd B) [0..<K1 + K2] =
         interleave16 fp nc A [0..<K1] @ interleave16 fp nc B [0..<K2]"
proof -
  have s: "sel j (fst A @ fst B, snd A @ snd B) = sel j A @ sel j B" for j
    by (simp add: sel_def)
  have u: "[0..<K1 + K2] = [0..<K1] @ map (\<lambda>i. i + K1) [0..<K2]"
    by (subst upt_add_eq_append) (simp_all add: map_add_upt add.commute)
  have a: "interleave16 fp nc (fst A @ fst B, snd A @ snd B) [0..<K1] = interleave16 fp nc A [0..<K1]"
    by (rule interleave16_cong) (simp add: s nth_append assms)
  have b: "interleave16 fp nc (fst A @ fst B, snd A @ snd B) (map (\<lambda>i. i + K1) [0..<K2])
      = interleave16 fp nc B [0..<K2]"
    unfolding interleave16_def map_map comp_def
    by (intro arg_cong [where f = concat] map_cong refl) (simp add: s nth_append assms)
  have c: "interleave16 fp nc R (xs @ ys) = interleave16 fp nc R xs @ interleave16 fp nc R ys"
    for R xs ys by (simp add: interleave16_def)
  show ?thesis unfolding u c a b ..
qed

lemma sel_pair: "j < 2 \<Longrightarrow> sel j (f 0, f 1) = f j"
  by (cases j) (simp_all add: sel_def)

lemma sel_length:
  assumes "length (fst p) = l" "length (snd p) = l"
  shows "length (sel j p) = l"
  using assms by (simp add: sel_def)

lemma xstream_length:
  assumes "src_ok s" "0 \<le> n"
  shows "length (xstream fp s j input n) = nat (numHistory s) + nat n"
proof -
  have "int (length (sel j (history s))) = 2 * numHistory s"
    using assms(1) by (simp add: src_ok_def sel_def)
  then have "nat (numHistory s) \<le> length (sel j (history s))" by linarith
  then show ?thesis by (simp add: xstream_def chanIn_length)
qed

lemma xstream_add:
  assumes "0 \<le> k" "0 \<le> m"
  shows "xstream fp s j input (k + m) =
         xstream fp s j input k @ chanIn fp (numChannels s) j input (nat k) (nat m)"
  using assms chanIn_add [of fp "numChannels s" j input 0 "nat k" "nat m"]
  by (simp add: xstream_def nat_add_distrib)

lemma follows_fields:
  assumes "follows s1 s fp input k"
  shows "src_ok s1" "numChannels s1 = numChannels s" "numHistory s1 = numHistory s"
    "inputBlock s1 = inputBlock s" "numTaps s1 = numTaps s"
    "points s1 = points (afterFilter s k)" "frames fp' s1 = frames fp' (afterFilter s k)"
    "offsetAfter s1 = offsetAfter (afterFilter s k)" "phaseAfter s1 = phaseAfter (afterFilter s k)"
proof -
  have c: "config s1 = config s" and o: "offset s1 = offsetAfter s k"
    and p: "phase s1 = phaseAfter s k"
    using assms by (simp_all add: follows_def)
  show "src_ok s1" using assms by (simp add: follows_def)
  show "numChannels s1 = numChannels s" "numHistory s1 = numHistory s"
    "inputBlock s1 = inputBlock s" "numTaps s1 = numTaps s"
    using config_fields [OF c] by simp_all
  have c': "config s1 = config (afterFilter s k)"
    using c by (simp add: config_def afterFilter_def)
  have o': "offset s1 = offset (afterFilter s k)" and p': "phase s1 = phase (afterFilter s k)"
    using o p by (simp_all add: afterFilter_def)
  show "points s1 = points (afterFilter s k)" "frames fp' s1 = frames fp' (afterFilter s k)"
    "offsetAfter s1 = offsetAfter (afterFilter s k)" "phaseAfter s1 = phaseAfter (afterFilter s k)"
    using same_ctl [OF c' o' p'] by simp_all
qed

lemma xstream_split:
  assumes ok: "src_ok s" and f: "follows s1 s fp input k"
    and k: "0 \<le> k" and m: "0 \<le> m"
    and len: "numChannels s * (k + m) \<le> int (length input)"
    and j: "j < nat (numChannels s)"
  shows "drop (nat k) (xstream fp s j input (k + m)) =
         xstream fp s1 j (drop (nat (numChannels s * k)) input) m"
proof -
  let ?nc = "numChannels s"
  have nc: "0 \<le> ?nc" using ok by (auto simp: src_ok_def)
  have h: "take (nat (numHistory s)) (sel j (history s1)) = drop (nat k) (xstream fp s j input k)"
    using f j by (simp add: follows_def)
  have l: "nat k \<le> length (xstream fp s j input k)"
    using xstream_length [OF ok k, of fp j input] by simp
  have nm: "nat (?nc * k) = nat ?nc * nat k" using nc k by (simp add: nat_mult_distrib)
  have "?nc * k + ?nc * m \<le> int (length input)" using len by (simp add: distrib_left)
  then have "nat (?nc * k) + nat (?nc * m) \<le> length input"
    using nc k m by (simp add: nat_le_iff nat_add_distrib [symmetric])
  then have b: "nat ?nc * nat k + nat ?nc * nat m \<le> length input"
    using nc k m by (simp add: nat_mult_distrib)
  have "drop (nat k) (xstream fp s j input (k + m))
      = drop (nat k) (xstream fp s j input k) @ chanIn fp ?nc j input (nat k) (nat m)"
    unfolding xstream_add [OF k m] using l by simp
  also have "chanIn fp ?nc j input (nat k) (nat m)
      = chanIn fp ?nc j (drop (nat ?nc * nat k) input) 0 (nat m)"
    using b j by (rule chanIn_drop)
  finally show ?thesis
    unfolding h [symmetric] nm
    by (simp add: xstream_def follows_fields(2,3) [OF f])
qed

lemma follows_refl:
  assumes "src_ok s"
  shows "follows s s fp input 0"
proof -
  have cfg: "cfg_ok s" and pos: "pos_ok s" using assms by (simp_all add: src_ok_def)
  have a: "afterFilter s 0 = s" using cfg pos by (rule afterFilter_zero)
  have "offsetAfter s 0 = offset (afterFilter s 0)" "phaseAfter s 0 = phase (afterFilter s 0)"
    by (simp_all add: afterFilter_def)
  then have "offsetAfter s 0 = offset s" "phaseAfter s 0 = phase s" unfolding a by simp_all
  then show ?thesis using assms by (simp add: follows_def xstream_def chanIn_def)
qed

lemma follows_trans:
  assumes ok: "src_ok s" and f1: "follows s1 s fp input k"
    and f2: "follows s2 s1 fp (drop (nat (numChannels s * k)) input) m"
    and k: "0 \<le> k" and m: "0 \<le> m"
    and len: "numChannels s * (k + m) \<le> int (length input)"
  shows "follows s2 s fp input (k + m)"
proof -
  have cfg: "cfg_ok s" and pos: "pos_ok s" using ok by (simp_all add: src_ok_def)
  note ff = follows_fields [OF f1]
  have ok2: "src_ok s2" and c2: "config s2 = config s1" and o2: "offset s2 = offsetAfter s1 m"
    and p2: "phase s2 = phaseAfter s1 m"
    and h2: "\<forall>j < nat (numChannels s1). take (nat (numHistory s1)) (sel j (history s2))
        = drop (nat m) (xstream fp s1 j (drop (nat (numChannels s * k)) input) m)"
    using f2 by (simp_all add: follows_def)
  have c1: "config s1 = config s" using f1 by (simp add: follows_def)
  have aa: "afterFilter (afterFilter s k) m = afterFilter s (k + m)"
    using cfg pos k m by (rule afterFilter_add)
  have "offsetAfter (afterFilter s k) m = offset (afterFilter (afterFilter s k) m)"
    "phaseAfter (afterFilter s k) m = phase (afterFilter (afterFilter s k) m)"
    by (simp_all add: afterFilter_def)
  then have "offsetAfter (afterFilter s k) m = offsetAfter s (k + m)"
    "phaseAfter (afterFilter s k) m = phaseAfter s (k + m)"
    unfolding aa by (simp_all add: afterFilter_def)
  then have o: "offset s2 = offsetAfter s (k + m)" and p: "phase s2 = phaseAfter s (k + m)"
    using o2 p2 ff(8,9) by simp_all
  have h: "take (nat (numHistory s)) (sel j (history s2)) = drop (nat (k + m)) (xstream fp s j input (k + m))"
    if j: "j < nat (numChannels s)" for j
  proof -
    have "take (nat (numHistory s)) (sel j (history s2))
        = drop (nat m) (xstream fp s1 j (drop (nat (numChannels s * k)) input) m)"
      using h2 j ff(2,3) by simp
    also have "\<dots> = drop (nat m) (drop (nat k) (xstream fp s j input (k + m)))"
      by (simp only: xstream_split [OF ok f1 k m len j])
    also have "\<dots> = drop (nat (k + m)) (xstream fp s j input (k + m))"
      using k m by (simp add: nat_add_distrib add.commute)
    finally show ?thesis .
  qed
  show ?thesis
    unfolding follows_def using ok2 c2 c1 o p h by simp
qed

lemma block_split:
  assumes ok: "src_ok s" and f: "follows s1 s fp input k"
    and k: "0 \<le> k" and m: "0 \<le> m"
    and len: "numChannels s * (k + m) \<le> int (length input)"
  shows "blockOut fp s input (k + m) =
         blockOut fp s input k @ blockOut fp s1 (drop (nat (numChannels s * k)) input) m"
    and "length (points s (k + m)) = length (points s k) + length (points s1 m)"
proof -
  let ?nc = "numChannels s" and ?inp = "drop (nat (numChannels s * k)) input"
  let ?K1 = "length (points s k)" and ?K2 = "length (points s1 m)"
  have cfg: "cfg_ok s" and pos: "pos_ok s" and nH: "numHistory s = numTaps s - 1"
    and nc: "?nc = 1 \<or> ?nc = 2"
    using ok by (simp_all add: src_ok_def)
  note ff = follows_fields [OF f]
  show K: "length (points s (k + m)) = ?K1 + ?K2"
    unfolding ff(6) using cfg pos k m by (rule points_length_add)
  let ?F = "\<lambda>j. frames fp s (xstream fp s j input (k + m)) (k + m)"
  let ?A = "\<lambda>j. frames fp s (xstream fp s j input k) k"
  let ?B = "\<lambda>j. frames fp s1 (xstream fp s1 j ?inp m) m"
  have split: "?F j = ?A j @ ?B j" if j: "j < nat ?nc" for j
  proof -
    let ?X = "xstream fp s j input (k + m)"
    have lX: "length ?X = nat (numHistory s) + nat (k + m)"
      using ok k m by (intro xstream_length) simp_all
    have lk: "length (xstream fp s j input k) = nat (numHistory s) + nat k"
      using ok k by (rule xstream_length)
    have "k \<le> int (length ?X)" unfolding lX using k m by simp
    then have "?F j = frames fp s ?X k @ frames fp (afterFilter s k) (drop (nat k) ?X) m"
      by (rule frames_split [OF cfg pos k m])
    moreover have "frames fp s ?X k = ?A j"
    proof (rule frames_cong [OF cfg pos], intro allI impI)
      fix i assume i: "0 \<le> i \<and> i < k + numTaps s - 1"
      then have "nat i < length (xstream fp s j input k)" unfolding lk using nH by linarith
      then show "?X ! nat i = xstream fp s j input k ! nat i"
        unfolding xstream_add [OF k m] by (simp add: nth_append)
    qed
    moreover have "frames fp (afterFilter s k) (drop (nat k) ?X) m = ?B j"
      by (simp only: xstream_split [OF ok f k m len j] ff(7))
    ultimately show ?thesis by (simp only:)
  qed
  have lA: "length (?A j) = ?K1" for j by (simp add: frames_def)
  have j2: "j < 2" if "j < nat ?nc" for j using that nc by auto
  have "blockOut fp s input (k + m) = interleave16 fp ?nc (?F 0, ?F 1) [0..<?K1 + ?K2]"
    unfolding blockOut_def K ..
  also have "\<dots> = interleave16 fp ?nc (fst (?A 0, ?A 1) @ fst (?B 0, ?B 1),
        snd (?A 0, ?A 1) @ snd (?B 0, ?B 1)) [0..<?K1 + ?K2]"
  proof (rule interleave16_cong, intro allI impI ballI)
    fix j i assume j: "j < nat ?nc"
    have "sel j (?F 0, ?F 1) = ?F j" using j2 [OF j] by (rule sel_pair)
    moreover have "sel j (?A 0 @ ?B 0, ?A 1 @ ?B 1) = ?A j @ ?B j"
      using sel_pair [OF j2 [OF j], of "\<lambda>j. ?A j @ ?B j"] .
    ultimately show "sel j (?F 0, ?F 1) ! i
        = sel j (fst (?A 0, ?A 1) @ fst (?B 0, ?B 1), snd (?A 0, ?A 1) @ snd (?B 0, ?B 1)) ! i"
      using split [OF j] by (simp only: fst_conv snd_conv)
  qed
  also have "\<dots> = interleave16 fp ?nc (?A 0, ?A 1) [0..<?K1] @ interleave16 fp ?nc (?B 0, ?B 1) [0..<?K2]"
  proof (rule interleave16_append, intro allI impI)
    fix j assume j: "j < nat ?nc"
    show "length (sel j (?A 0, ?A 1)) = ?K1"
      unfolding sel_pair [OF j2 [OF j], of ?A] by (rule lA)
  qed
  finally show "blockOut fp s input (k + m) = blockOut fp s input k @ blockOut fp s1 ?inp m"
    unfolding blockOut_def ff(2) .
qed

lemma storeAt_nth: "i < length vs \<Longrightarrow> storeAt xs 0 vs ! i = vs ! i"
  by (simp add: storeAt_def nth_append)

lemma storeAt_take: "length vs = n \<Longrightarrow> take n (storeAt xs 0 vs) = vs"
  by (simp add: storeAt_def)

lemma processFloat_members:
  assumes ok: "src_ok s" and n: "0 \<le> n" "n \<le> inputBlock s"
  shows "\<exists>s1. processFloat fp s Members outs n = Some (s1, int (length (points s n))) \<and>
           src_ok s1 \<and> config s1 = config s \<and>
           offset s1 = offsetAfter s n \<and> phase s1 = phaseAfter s n \<and>
           (\<forall>j < nat (numChannels s).
              sel j (outputs_m s1) =
                storeAt (sel j (outputs_m s)) 0
                  (frames fp s (stream (numHistory s) (sel j (history s)) (sel j (inputs_m s)) n) n) \<and>
              take (nat (numHistory s)) (sel j (history s1)) =
                drop (nat n) (stream (numHistory s) (sel j (history s)) (sel j (inputs_m s)) n))"
proof -
  note b = src_ok_block [OF ok n]
  have cfg: "cfg_ok s" and pos: "pos_ok s" using ok by (simp_all add: src_ok_def)
  let ?a = "afterFilter s n"
  let ?K = "length (points s n)"
  let ?X = "\<lambda>j. stream (numHistory s) (sel j (history s)) (sel j (inputs_m s)) n"
  have ca: "config ?a = config s" by (simp add: config_def afterFilter_def)
  have inv: "src_ok s1"
    if c: "config s1 = config s" and o: "offset s1 = offsetAfter s n"
      and p: "phase s1 = phaseAfter s n"
      and l: "length (fst (history s1)) = length (fst (history s))"
        "length (snd (history s1)) = length (snd (history s))"
        "length (fst (outputs_m s1)) = length (fst (outputs_m s))"
        "length (snd (outputs_m s1)) = length (snd (outputs_m s))"
        "inputs_m s1 = inputs_m s"
    for s1
  proof -
    have c': "config s1 = config ?a" using c ca by simp
    have o': "offset s1 = offset ?a" and p': "phase s1 = phase ?a"
      using o p by (simp_all add: afterFilter_def)
    note sc = same_ctl [OF c' o' p']
    have "cfg_ok s1" "pos_ok s1" using afterFilter_facts(1,2) [OF cfg pos, of n] sc(4,5) by simp_all
    moreover have "fineUnit s1 = fineUnit s" "fineStep s1 = fineStep s"
      using sc(6,7) by (simp_all add: fineUnit_def fineStep_def afterFilter_def)
    ultimately show ?thesis
      using ok l config_fields [OF c] unfolding src_ok_def by simp
  qed
  have "numChannels s = 1 \<or> numChannels s = 2" using ok by (simp add: src_ok_def)
  then show ?thesis
  proof
    assume ch: "numChannels s = 1"
    obtain h' where r: "processFloat fp s Members outs n =
           Some (?a\<lparr>history := (h', snd (history s)),
                    outputs_m := (storeAt (fst (outputs_m s)) 0 (frames fp s (?X 0) n),
                       snd (outputs_m s))\<rparr>, int ?K)"
      and lh: "length h' = length (fst (history s))"
      and th: "take (nat (numHistory s)) h' = drop (nat n) (?X 0)"
      using processFloat_mono [OF ok ch n(1) b, of fp Members outs] by (auto simp: sel_def)
    let ?s1 = "?a\<lparr>history := (h', snd (history s)),
                    outputs_m := (storeAt (fst (outputs_m s)) 0 (frames fp s (?X 0) n),
                       snd (outputs_m s))\<rparr>"
    have lo: "length (storeAt (fst (outputs_m s)) 0 (frames fp s (?X 0) n)) = length (fst (outputs_m s))"
      using b(2) ok by (intro length_storeAt_le) (simp add: frames_def src_ok_def)
    have "src_ok ?s1"
      by (rule inv) (simp_all add: config_def afterFilter_def lh lo)
    moreover have "config ?s1 = config s" by (simp add: config_def afterFilter_def)
    moreover have "offset ?s1 = offsetAfter s n" "phase ?s1 = phaseAfter s n"
      by (simp_all add: afterFilter_def)
    moreover have "\<forall>j < nat (numChannels s).
        sel j (outputs_m ?s1) = storeAt (sel j (outputs_m s)) 0 (frames fp s (?X j) n) \<and>
        take (nat (numHistory s)) (sel j (history ?s1)) = drop (nat n) (?X j)"
      using ch th by (simp add: sel_def)
    ultimately show ?thesis using r by blast
  next
    assume ch: "numChannels s = 2"
    obtain h0' h1' where r: "processFloat fp s Members outs n =
           Some (?a\<lparr>outputs_m := (storeAt (fst (outputs_m s)) 0 (frames fp s (?X 0) n),
                       storeAt (snd (outputs_m s)) 0 (frames fp s (?X 1) n)),
                    history := (h0', h1')\<rparr>, int ?K)"
      and lh: "length h0' = length (fst (history s))" "length h1' = length (snd (history s))"
      and th: "take (nat (numHistory s)) h0' = drop (nat n) (?X 0)"
        "take (nat (numHistory s)) h1' = drop (nat n) (?X 1)"
      using processFloat_stereo [OF ok ch n(1) b, of fp outs] by (auto simp: sel_def)
    let ?s1 = "?a\<lparr>outputs_m := (storeAt (fst (outputs_m s)) 0 (frames fp s (?X 0) n),
                       storeAt (snd (outputs_m s)) 0 (frames fp s (?X 1) n)),
                    history := (h0', h1')\<rparr>"
    have lo: "length (storeAt (fst (outputs_m s)) 0 (frames fp s X n)) = length (fst (outputs_m s))"
      "length (storeAt (snd (outputs_m s)) 0 (frames fp s X n)) = length (snd (outputs_m s))" for X
      using b(2) ok by (intro length_storeAt_le; simp add: frames_def src_ok_def)+
    have "src_ok ?s1"
      by (rule inv) (simp_all add: config_def afterFilter_def lh lo)
    moreover have "config ?s1 = config s" by (simp add: config_def afterFilter_def)
    moreover have "offset ?s1 = offsetAfter s n" "phase ?s1 = phaseAfter s n"
      by (simp_all add: afterFilter_def)
    moreover have "\<forall>j < nat (numChannels s).
        sel j (outputs_m ?s1) = storeAt (sel j (outputs_m s)) 0 (frames fp s (?X j) n) \<and>
        take (nat (numHistory s)) (sel j (history ?s1)) = drop (nat n) (?X j)"
      using ch th by (simp add: sel_def)
    ultimately show ?thesis using r by blast
  qed
qed

lemma render_step:
  assumes ok: "src_ok s" and n: "0 \<le> n" "n \<le> inputBlock s"
    and len: "numChannels s * n \<le> int (length input)"
  shows "\<exists>ins s1. convertInputFromInt16 fp s input (inputs_m s) n = Some ins \<and>
           processFloat fp (s\<lparr>inputs_m := ins\<rparr>) Members Members n =
             Some (s1, int (length (points s n))) \<and>
           int (length (points s n)) \<le> SRC_BLOCK \<and>
           convertOutputToInt16 fp s1 (outputs_m s1) (int (length (points s n))) =
             Some (blockOut fp s input n) \<and>
           follows s1 s fp input n"
proof -
  let ?nc = "numChannels s" and ?K = "length (points s n)"
  let ?C = "\<lambda>j. chanIn fp ?nc j input 0 (nat n)"
  let ?im = "inputs_m s"
  let ?ins = "(storeAt (fst ?im) 0 (?C 0), if ?nc = 2 then storeAt (snd ?im) 0 (?C 1) else snd ?im)"
  let ?s0 = "s\<lparr>inputs_m := ?ins\<rparr>"
  let ?F = "\<lambda>j. frames fp s (xstream fp s j input n) n"
  note b = src_ok_block [OF ok n]
  have nc: "?nc = 1 \<or> ?nc = 2"
    and li: "int (length (fst ?im)) = SRC_BLOCK" "int (length (snd ?im)) = SRC_BLOCK"
    using ok by (simp_all add: src_ok_def)
  have j2: "j < 2" if "j < nat ?nc" for j using that nc by auto
  have ci: "convertInputFromInt16 fp s input ?im n = Some ?ins"
    using nc n(1) b(1) li len by (intro convertInputFromInt16_run) simp_all
  have lC: "length (?C j) = nat n" for j by (rule chanIn_length)
  have ls: "length (storeAt (fst ?im) 0 (chanIn fp c j input 0 (nat n))) = length (fst ?im)"
    "length (storeAt (snd ?im) 0 (chanIn fp c j input 0 (nat n))) = length (snd ?im)" for c j
    using b(1) li n(1) by (intro length_storeAt_le; simp add: chanIn_length)+
  have c0: "config ?s0 = config s" by (simp add: config_def)
  have o0: "offset ?s0 = offset s" "phase ?s0 = phase s" by simp_all
  note sc = same_ctl [OF c0 o0]
  have sc': "points ?s0 = points s" "frames fp ?s0 = frames fp s" "cfg_ok ?s0 = cfg_ok s"
    "pos_ok ?s0 = pos_ok s" "fineUnit ?s0 = fineUnit s" "fineStep ?s0 = fineStep s"
    "offsetAfter ?s0 = offsetAfter s" "phaseAfter ?s0 = phaseAfter s"
    using sc by simp_all
  have ok0: "src_ok ?s0"
    using ok ls unfolding src_ok_def sc' by (simp split: if_splits)
  have n0: "n \<le> inputBlock ?s0" using n(2) by simp
  obtain s1 where pf: "processFloat fp ?s0 Members Members n = Some (s1, int (length (points ?s0 n)))"
    and ok1: "src_ok s1" and c1: "config s1 = config ?s0"
    and o1: "offset s1 = offsetAfter ?s0 n" and p1: "phase s1 = phaseAfter ?s0 n"
    and r: "\<forall>j < nat (numChannels ?s0).
              sel j (outputs_m s1) =
                storeAt (sel j (outputs_m ?s0)) 0
                  (frames fp ?s0 (stream (numHistory ?s0) (sel j (history ?s0)) (sel j (inputs_m ?s0)) n) n) \<and>
              take (nat (numHistory ?s0)) (sel j (history s1)) =
                drop (nat n) (stream (numHistory ?s0) (sel j (history ?s0)) (sel j (inputs_m ?s0)) n)"
    using processFloat_members [OF ok0 n(1) n0, of fp Members] by blast
  have st: "stream (numHistory ?s0) (sel j (history ?s0)) (sel j (inputs_m ?s0)) n
      = xstream fp s j input n" if j: "j < nat ?nc" for j
  proof -
    have "sel j ?ins = storeAt (sel j ?im) 0 (?C j)"
      using j nc by (cases j) (auto simp: sel_def)
    then show ?thesis
      by (simp add: stream_def xstream_def storeAt_take [OF lC])
  qed
  have r': "sel j (outputs_m s1) = storeAt (sel j (outputs_m s)) 0 (?F j)"
    "take (nat (numHistory s)) (sel j (history s1)) = drop (nat n) (xstream fp s j input n)"
    if j: "j < nat ?nc" for j
    using r j st [OF j] unfolding sc' by simp_all
  have f1: "numChannels s1 = ?nc" using config_fields(3) [OF c1] by simp
  have lo: "int (length (fst (outputs_m s1))) = SRC_BLOCK" "int (length (snd (outputs_m s1))) = SRC_BLOCK"
    using ok1 by (simp_all add: src_ok_def)
  have "convertOutputFrames fp ?nc (outputs_m s1) [0..<?K] = Some (interleave16 fp ?nc (outputs_m s1) [0..<?K])"
    using b(2) lo by (intro convertOutputFrames_run [OF nc]) auto
  moreover have "interleave16 fp ?nc (outputs_m s1) [0..<?K] = interleave16 fp ?nc (?F 0, ?F 1) [0..<?K]"
  proof (rule interleave16_cong, intro allI impI ballI)
    fix j i assume j: "j < nat ?nc" and "i \<in> set [0..<?K]"
    then have i: "i < length (?F j)" by (simp add: frames_def)
    show "sel j (outputs_m s1) ! i = sel j (?F 0, ?F 1) ! i"
      unfolding r'(1) [OF j] sel_pair [OF j2 [OF j], of ?F] using i by (rule storeAt_nth)
  qed
  ultimately have co: "convertOutputToInt16 fp s1 (outputs_m s1) (int ?K) = Some (blockOut fp s input n)"
    by (simp add: convertOutputToInt16_def f1 blockOut_def)
  have fo: "follows s1 s fp input n"
    unfolding follows_def using ok1 c1 c0 o1 p1 r'(2) sc'(7,8) by simp
  show ?thesis
    using ci pf b(2) co fo unfolding sc' by blast
qed

lemma blockOut_zero:
  assumes "src_ok s"
  shows "blockOut fp s input 0 = []" "points s 0 = []"
proof -
  show p: "points s 0 = []" using assms by (intro points_zero) (simp_all add: src_ok_def)
  show "blockOut fp s input 0 = []" by (simp add: blockOut_def p interleave16_def)
qed

lemma renderLoop_run:
  assumes ok: "src_ok s" and ib: "0 < inputBlock s" and n: "0 \<le> n"
    and len: "numChannels s * n \<le> int (length input)"
  shows "\<exists>s'. renderLoop fp s input out n no =
           Some (s', out @ blockOut fp s input n, no + int (length (points s n))) \<and>
         follows s' s fp input n"
  using assms
proof (induction "nat n" arbitrary: s input out n no rule: less_induct)
  case less
  note ok = less.prems(1) and ib = less.prems(2) and n = less.prems(3) and len = less.prems(4)
  show ?case
  proof (cases "n = 0")
    case True
    show ?thesis
      unfolding True using follows_refl [OF ok] blockOut_zero [OF ok]
      by (subst renderLoop.simps) simp
  next
    case False
    let ?nc = "numChannels s"
    let ?nb = "min n (inputBlock s)"
    let ?inp = "drop (nat (?nc * ?nb)) input"
    have nc: "0 \<le> ?nc" using ok by (auto simp: src_ok_def)
    have nb: "0 < ?nb" "0 \<le> ?nb" "?nb \<le> inputBlock s" "?nb \<le> n" using False n ib by auto
    have "?nc * ?nb \<le> ?nc * n" using nb(4) nc by (rule mult_left_mono)
    then have lb: "?nc * ?nb \<le> int (length input)" using len by linarith
    obtain ins s1 where ci: "convertInputFromInt16 fp s input (inputs_m s) ?nb = Some ins"
      and pf: "processFloat fp (s\<lparr>inputs_m := ins\<rparr>) Members Members ?nb =
             Some (s1, int (length (points s ?nb)))"
      and kb: "int (length (points s ?nb)) \<le> SRC_BLOCK"
      and co: "convertOutputToInt16 fp s1 (outputs_m s1) (int (length (points s ?nb))) =
             Some (blockOut fp s input ?nb)"
      and f1: "follows s1 s fp input ?nb"
      using render_step [OF ok nb(2,3) lb, of fp] by blast
    note ff = follows_fields [OF f1]
    have e: "?nb + (n - ?nb) = n" by simp
    have len': "?nc * (?nb + (n - ?nb)) \<le> int (length input)" unfolding e by (rule len)
    have m0: "0 \<le> n - ?nb" using nb(4) by simp
    have "numChannels s1 * (n - ?nb) \<le> int (length ?inp)"
    proof -
      have "?nc * (n - ?nb) = ?nc * n - ?nc * ?nb" by (simp add: right_diff_distrib)
      moreover have "int (length ?inp) = int (length input) - ?nc * ?nb"
        using lb nc nb(2) by simp
      ultimately show ?thesis using len ff(2) by simp
    qed
    moreover have "nat (n - ?nb) < nat n" using nb(1) n by linarith
    moreover have "0 < inputBlock s1" using ib ff(4) by simp
    ultimately obtain s' where
      rl: "renderLoop fp s1 ?inp (out @ blockOut fp s input ?nb) (n - ?nb)
             (no + int (length (points s ?nb))) =
           Some (s', (out @ blockOut fp s input ?nb) @ blockOut fp s1 ?inp (n - ?nb),
                 no + int (length (points s ?nb)) + int (length (points s1 (n - ?nb))))"
      and f2: "follows s' s1 fp ?inp (n - ?nb)"
      using less.hyps [of "n - ?nb" s1 ?inp] ff(1) m0 by blast
    have bs: "blockOut fp s input n = blockOut fp s input ?nb @ blockOut fp s1 ?inp (n - ?nb)"
      "length (points s n) = length (points s ?nb) + length (points s1 (n - ?nb))"
      using block_split [OF ok f1 nb(2) m0 len'] unfolding e by simp_all
    have ft: "follows s' s fp input n"
      using follows_trans [OF ok f1 f2 nb(2) m0 len'] unfolding e .
    have "renderLoop fp s input out n no =
        Some (s', out @ blockOut fp s input n, no + int (length (points s n)))"
      by (subst renderLoop.simps) (simp add: False ci pf kb co rl bs)
    then show ?thesis using ft by blast
  qed
qed

lemma render_run:
  assumes ok: "src_ok s" and ib: "0 < inputBlock s" and n: "0 \<le> n"
    and len: "numChannels s * n \<le> int (length input)"
  shows "\<exists>s'. render fp s input n = Some (s', blockOut fp s input n, int (length (points s n))) \<and>
         follows s' s fp input n"
  using renderLoop_run [OF assms, of fp "[]" 0] by (simp add: render_def)


lemma renderLoop_stuck:
  assumes r: "renderLoop fp s input out n no = Some y"
  shows "\<not> (src_ok s \<and> inputBlock s = 0 \<and> 0 < n)"
proof (rule renderLoop.raw_induct
    [where P = "\<lambda>fp s input out n no y. \<not> (src_ok s \<and> inputBlock s = 0 \<and> 0 < n)", OF _ r],
    goal_cases)
  case (1 renderLoop' fp s input out n no y)
  show ?case
  proof
    assume a: "src_ok s \<and> inputBlock s = 0 \<and> 0 < n"
    then have ok: "src_ok s" and mn: "min n (inputBlock s) = 0" and n: "n \<noteq> 0" by auto
    have "convertInputFromInt16 fp s input (inputs_m s) 0 = Some (inputs_m s)"
      by (simp add: convertInputFromInt16_def)
    moreover have "s\<lparr>inputs_m := inputs_m s\<rparr> = s" by simp
    moreover have "convertOutputToInt16 fp s (outputs_m s) 0 = Some []"
      by (simp add: convertOutputToInt16_def)
    ultimately have "renderLoop' fp s input out n no = Some y"
      using 1(2) n unfolding mn
      by (simp add: processFloat_zero [OF ok] SRC_BLOCK_def)
    then have "\<not> (src_ok s \<and> inputBlock s = 0 \<and> 0 < n)" by (rule 1(1))
    then show False using a by simp
  qed
qed

lemma render_zero: "render fp s input 0 = Some (s, [], 0)"
  unfolding render_def by (subst renderLoop.simps) simp

lemma render_stuck:
  assumes "src_ok s" "inputBlock s = 0" "0 < n"
  shows "render fp s input n = None"
proof (cases "render fp s input n")
  case None
  then show ?thesis .
next
  case (Some y)
  then show ?thesis
    using renderLoop_stuck [of fp s input "[]" n 0 y] assms by (simp add: render_def)
qed

lemma render_split:
  assumes ok: "src_ok s" and k: "0 \<le> k" and m: "0 \<le> m"
    and len: "numChannels s * (k + m) \<le> int (length input)"
  shows "map_option (\<lambda>(s', out, no). (out, no)) (render fp s input (k + m)) =
         do {
           (s1, out1, no1) \<leftarrow> render fp s input k;
           (s2, out2, no2) \<leftarrow> render fp s1 (drop (nat (numChannels s * k)) input) m;
           Some (out1 @ out2, no1 + no2)
         }"
proof (cases "0 < inputBlock s")
  case True
  let ?nc = "numChannels s" and ?inp = "drop (nat (numChannels s * k)) input"
  have nc: "0 \<le> ?nc" using ok by (auto simp: src_ok_def)
  have lk: "?nc * k \<le> int (length input)" and lm: "?nc * m \<le> int (length ?inp)"
  proof -
    have e: "?nc * (k + m) = ?nc * k + ?nc * m" by (simp add: distrib_left)
    have "0 \<le> ?nc * k" "0 \<le> ?nc * m" using nc k m by simp_all
    then show "?nc * k \<le> int (length input)" "?nc * m \<le> int (length ?inp)"
      using len unfolding e by simp_all
  qed
  obtain s' where r: "render fp s input (k + m) =
      Some (s', blockOut fp s input (k + m), int (length (points s (k + m))))"
    using render_run [OF ok True _ len, of fp] k m by auto
  obtain s1 where r1: "render fp s input k = Some (s1, blockOut fp s input k, int (length (points s k)))"
    and f1: "follows s1 s fp input k"
    using render_run [OF ok True k lk, of fp] by blast
  note ff = follows_fields [OF f1]
  have ib1: "0 < inputBlock s1" using True ff(4) by simp
  have lm1: "numChannels s1 * m \<le> int (length ?inp)" using lm ff(2) by simp
  obtain s2 where r2: "render fp s1 ?inp m =
      Some (s2, blockOut fp s1 ?inp m, int (length (points s1 m)))"
    using render_run [OF ff(1) ib1 m lm1, of fp] by blast
  note bs = block_split [OF ok f1 k m len]
  show ?thesis unfolding r r1 by (simp add: r2 bs)
next
  case False
  then have ib: "inputBlock s = 0" using ok by (simp add: src_ok_def)
  consider (z) "k = 0" "m = 0" | (kp) "0 < k" | (mp) "k = 0" "0 < m" using k m by linarith
  then show ?thesis
  proof cases
    case z
    then show ?thesis by (simp add: render_zero)
  next
    case kp
    then have "0 < k + m" using m by simp
    then show ?thesis
      using render_stuck [OF ok ib, of "k + m" fp input] render_stuck [OF ok ib kp, of fp input]
      by simp
  next
    case mp
    then show ?thesis
      using render_stuck [OF ok ib mp(2), of fp input] by (simp add: render_zero)
  qed
qed

text \<open>
  Claim C2.  Let \<open>s\<close> be an object that satisfies the invariant \<open>src_ok\<close> (a constructed
  object does, and \<^verbatim>\<open>render\<close> keeps it), in either mode and with one channel or two, and
  let \<open>input\<close> hold \<open>k + m\<close> frames.  Rendering the first \<open>k\<close> frames and then, with the same
  object, the next \<open>m\<close> frames writes the same samples and returns the same total as
  rendering the \<open>k + m\<close> frames in one call from the state \<open>s\<close>: the two sides are equal
  as results, so that one returns if and only if the other does.  When \<^verbatim>\<open>_inputBlock\<close> is
  positive the call returns.  The samples are equal for every choice of the operations on
  floats, hence bit for bit.
\<close>

theorem C2_streaming_continuity:
  assumes "src_ok s" "0 \<le> k" "0 \<le> m" "numChannels s * (k + m) \<le> int (length input)"
  shows "map_option (\<lambda>(s', out, no). (out, no)) (render fp s input (k + m)) =
         do {
           (s1, out1, no1) \<leftarrow> render fp s input k;
           (s2, out2, no2) \<leftarrow> render fp s1 (drop (nat (numChannels s * k)) input) m;
           Some (out1 @ out2, no1 + no2)
         } \<and>
         (0 < inputBlock s \<longrightarrow> (\<exists>s' out no. render fp s input (k + m) = Some (s', out, no)))"
proof -
  have "0 \<le> k + m" using assms(2,3) by simp
  then have "\<exists>s' out no. render fp s input (k + m) = Some (s', out, no)" if "0 < inputBlock s"
    using render_run [OF assms(1) that _ assms(4), of fp] by blast
  then show ?thesis using render_split [OF assms, of fp] by blast
qed

theorem C2_streaming_continuity_witness:
  "map_option (\<lambda>(s', out, no). (out, no)) (render rat_fpu (unity 2) [1, 2, 3, 4, 5, 6] (1 + 2)) =
     do {
       (s1, out1, no1) \<leftarrow> render rat_fpu (unity 2) [1, 2, 3, 4, 5, 6] 1;
       (s2, out2, no2) \<leftarrow> render rat_fpu s1 (drop (nat (numChannels (unity 2) * 1)) [1, 2, 3, 4, 5, 6]) 2;
       Some (out1 @ out2, no1 + no2)
     } \<and>
   (\<exists>s' out no. render rat_fpu (unity 2) [1, 2, 3, 4, 5, 6] (1 + 2) = Some (s', out, no))"
proof -
  have "numChannels (unity 2) * (1 + 2) \<le> int (length [1, 2, 3, 4, 5, 6 :: int])"
    "0 < inputBlock (unity 2)"
    by (simp_all add: unity_def)
  then show ?thesis
    using C2_streaming_continuity [OF unity_ok(2), of 1 2 "[1, 2, 3, 4, 5, 6]" rat_fpu] by simp
qed

text \<open>
  Claim C3.  Let \<open>s\<close> satisfy the invariant \<open>src_ok\<close>, which holds \<open>_offset \<ge> 0\<close> and that
  \<^verbatim>\<open>_inputBlock\<close> is at most \<^verbatim>\<open>SRC_BLOCK\<close> and at most \<open>getMaxInput(SRC_BLOCK)\<close>.  For a
  block of \<open>n \<le> _inputBlock\<close> frames, \<^verbatim>\<open>processFloat\<close> returns a number of frames that is at
  most \<open>getMaxOutput(n)\<close>, which is at most \<^verbatim>\<open>SRC_BLOCK\<close>.  And \<^verbatim>\<open>render\<close>, whose model has no
  result when the assertion \<^verbatim>\<open>no <= SRC_BLOCK\<close> fails, returns for every number of frames
  when \<^verbatim>\<open>_inputBlock\<close> is positive.
\<close>

theorem C3_output_fits_block:
  assumes "src_ok s" "0 \<le> n"
  shows "(n \<le> inputBlock s \<and> (numChannels s = 1 \<or> ins = Members) \<longrightarrow>
            (\<exists>s' no mx. processFloat fp s ins outs n = Some (s', no) \<and>
               getMaxOutput s n = Some mx \<and> no \<le> mx \<and> mx \<le> SRC_BLOCK)) \<and>
         (0 < inputBlock s \<and> numChannels s * n \<le> int (length input) \<longrightarrow>
            (\<exists>s' out no. render fp s input n = Some (s', out, no)))"
proof -
  have a: "\<exists>s' no mx. processFloat fp s ins outs n = Some (s', no) \<and>
               getMaxOutput s n = Some mx \<and> no \<le> mx \<and> mx \<le> SRC_BLOCK"
    if "n \<le> inputBlock s" "numChannels s = 1 \<or> ins = Members"
    using processFloat_count [OF assms that, of fp outs] count_le_maxOutput [OF assms that(1)]
    by blast
  have b: "\<exists>s' out no. render fp s input n = Some (s', out, no)"
    if "0 < inputBlock s" "numChannels s * n \<le> int (length input)"
    using render_run [OF assms(1) that(1) assms(2) that(2), of fp] by blast
  show ?thesis using a b by blast
qed

theorem C3_output_fits_block_witness:
  "(\<exists>s' no mx. processFloat rat_fpu (unity 1) (Caller []) (Caller []) 1024 = Some (s', no) \<and>
       getMaxOutput (unity 1) 1024 = Some mx \<and> no \<le> mx \<and> mx \<le> SRC_BLOCK) \<and>
   (\<exists>s' out no. render rat_fpu (unity 1) (replicate 3000 7) 3000 = Some (s', out, no))"
proof -
  have "1024 \<le> inputBlock (unity 1)" "numChannels (unity 1) = 1" "0 < inputBlock (unity 1)"
    "numChannels (unity 1) * 3000 \<le> int (length (replicate 3000 (7 :: int)))"
    by (simp_all add: unity_def)
  then show ?thesis
    using C3_output_fits_block [OF unity_ok(1), of 1024 "Caller []" rat_fpu "Caller []"
        "replicate 3000 7"]
      C3_output_fits_block [OF unity_ok(1), of 3000 "Caller []" rat_fpu "Caller []"
        "replicate 3000 7"]
    by simp
qed

section \<open>The filter builders\<close>

lemma int32_Some: "- (2 ^ 31) \<le> x \<Longrightarrow> x < 2 ^ 31 \<Longrightarrow> int32 x = Some x"
  by (simp add: int32_def)

lemma filterSize_value:
  assumes "0 < U" "96 * U < 2 ^ 31" "0 \<le> D" "D \<le> U \<or> 96 * D + U < 2 ^ 31"
  shows "filterSize fp U D gain =
     Some (if D \<le> U then (96, 96 * U, gain)
           else ((96 * D + U - 1) div U, 96 * D,
                 fmul fp gain (fdiv fp (f_of_int fp (96 * U)) (f_of_int fp (96 * D)))))"
proof (cases "D \<le> U")
  case True
  then show ?thesis
    using assms by (simp add: filterSize_def PROTOTYPE_TAPS_def int32_Some)
next
  case False
  then have r: "96 * D + U < 2 ^ 31" using assms(4) by simp
  have b: "0 \<le> 96 * U * D" "96 * U * D < 2 ^ 62"
    using mul31_bound [of "96 * U" D] assms r by auto
  then have "wrap64 (96 * U * D) = 96 * U * D" by (intro wrap64_id) auto
  moreover have "cdiv (96 * U * D) U = 96 * D"
    using assms b by (simp add: cdiv_nonneg mult_ac)
  moreover have "wrap32 (96 * D) = 96 * D" using assms r by (intro wrap32_id) auto
  moreover have "int32 (96 * D + U) = Some (96 * D + U)"
    using assms r by (intro int32_Some) auto
  moreover have "int32 (96 * D + U - 1) = Some (96 * D + U - 1)"
    using assms r by (intro int32_Some) auto
  moreover have "cdiv (96 * D + U - 1) U = (96 * D + U - 1) div U"
    using assms by (intro cdiv_nonneg) auto
  moreover have "int32 (96 * U) = Some (96 * U)" using assms by (intro int32_Some) auto
  ultimately show ?thesis
    using False assms by (simp add: filterSize_def PROTOTYPE_TAPS_def Let_def)
qed

lemma wr_Some: "0 \<le> k \<Longrightarrow> k < int (length xs) \<Longrightarrow> wr xs k v = Some (xs[nat k := v])"
  by (simp add: wr_def)

lemma rd_Some: "0 \<le> k \<Longrightarrow> k < int (length xs) \<Longrightarrow> rd xs k = Some (xs ! nat k)"
  by (simp add: rd_def)

lemma cubicSample_some:
  assumes "0 \<le> off" "off < inputSize * 2 ^ 32" "inputSize \<le> int (length input)"
  shows "\<exists>y. cubicSample fp input inputSize off gain = Some y"
proof -
  have i: "0 \<le> hi32 off" "hi32 off < inputSize"
    using assms(1,2) by (simp_all add: hi32_def pos_imp_zdiv_nonneg_iff div_less_iff_less_mult)
  then show ?thesis
    using assms(3) unfolding cubicSample_def Let_def by (simp add: rd_def)
qed

lemma cubicLoop_some:
  assumes "0 \<le> stp" "inputSize \<le> int (length input)"
  shows "0 \<le> off \<Longrightarrow> js = [] \<or> off + (int (length js) - 1) * stp < inputSize * 2 ^ 32 \<Longrightarrow>
     \<forall>j \<in> set js. j < length outp \<Longrightarrow>
     \<exists>out'. cubicLoop fp input inputSize stp gain js off outp = Some out' \<and>
            length out' = length outp \<and> (\<forall>k. k \<notin> set js \<longrightarrow> out' ! k = outp ! k)"
proof (induction js arbitrary: off outp)
  case Nil
  then show ?case by simp
next
  case (Cons j js)
  have m: "0 \<le> int (length js) * stp" using assms(1) by simp
  have b: "off + int (length js) * stp < inputSize * 2 ^ 32" using Cons.prems(2) by simp
  then have "off < inputSize * 2 ^ 32" using m by linarith
  then obtain y where y: "cubicSample fp input inputSize off gain = Some y"
    using cubicSample_some [OF Cons.prems(1) _ assms(2)] by blast
  have j: "j < length outp" using Cons.prems(3) by simp
  have w: "wr outp (int j) y = Some (outp[j := y])" using j by (simp add: wr_def)
  have "js = [] \<or> (off + stp) + (int (length js) - 1) * stp < inputSize * 2 ^ 32"
    using b by (simp add: algebra_simps)
  moreover have "0 \<le> off + stp" using Cons.prems(1) assms(1) by simp
  moreover have "\<forall>i \<in> set js. i < length (outp[j := y])" using Cons.prems(3) by simp
  ultimately obtain out' where
    r: "cubicLoop fp input inputSize stp gain js (off + stp) (outp[j := y]) = Some out'"
    and l: "length out' = length (outp[j := y])"
    and u: "\<forall>k. k \<notin> set js \<longrightarrow> out' ! k = (outp[j := y]) ! k"
    using Cons.IH [of "off + stp" "outp[j := y]"] by blast
  show ?case using y w r l u by auto
qed

lemma last_offset_bound:
  fixes S N h X :: int
  assumes "h < S \<or> (h = 0 \<and> 0 \<le> S \<and> 0 < X)" "S * N \<le> X" "0 \<le> S"
  shows "h + (N - 1) * S < X"
proof -
  have e: "(N - 1) * S = S * N - S" by (simp add: algebra_simps)
  from assms(1) show ?thesis
  proof
    assume "h < S"
    then show ?thesis unfolding e using assms(2) by linarith
  next
    assume a: "h = 0 \<and> 0 \<le> S \<and> 0 < X"
    show ?thesis
    proof (cases "S = 0")
      case True
      then show ?thesis using a by simp
    next
      case False
      then have "0 < S" using a by simp
      then show ?thesis unfolding e using assms(2) a by linarith
    qed
  qed
qed

lemma cubicInterpolation_some:
  assumes "0 < outputSize" "0 < inputSize" "inputSize \<le> int (length input)"
    "outputSize \<le> int (length outp)"
  shows "\<exists>out'. cubicInterpolation fp input outp inputSize outputSize gain = Some out' \<and>
           length out' = length outp"
proof -
  define X where "X = inputSize * 2 ^ 32"
  define S where "S = cdiv X outputSize"
  define h where "h = (if outputSize < inputSize then cdiv S 2 else 0)"
  have X: "0 < X" using assms(2) by (simp add: X_def)
  have s: "S = X div outputSize"
    unfolding S_def using assms(1) X by (intro cdiv_nonneg) auto
  have s0: "0 \<le> S" unfolding s using assms(1) X by (simp add: pos_imp_zdiv_nonneg_iff)
  have sm: "S * outputSize \<le> X"
  proof -
    have "0 \<le> X mod outputSize" using assms(1) by simp
    moreover have "outputSize * (X div outputSize) = X - X mod outputSize"
      by (simp only: minus_mod_eq_mult_div)
    ultimately show ?thesis unfolding s by (simp only: mult.commute [of _ outputSize])
  qed
  have h0: "0 \<le> h" unfolding h_def using s0 by (simp add: cdiv_nonneg pos_imp_zdiv_nonneg_iff)
  have hb: "h < S \<or> (h = 0 \<and> 0 \<le> S \<and> 0 < X)"
  proof (cases "outputSize < inputSize")
    case True
    have "outputSize * 2 ^ 32 \<le> X" unfolding X_def using True by simp
    then have "(outputSize * 2 ^ 32) div outputSize \<le> X div outputSize"
      using assms(1) by (intro zdiv_mono1) auto
    moreover have "(outputSize * 2 ^ 32) div outputSize = 2 ^ 32" using assms(1) by simp
    ultimately have "(2 ^ 32 :: int) \<le> S" unfolding s by (simp only:)
    then have "0 < S" by simp
    then have "S div 2 < S" by (intro int_div_less_self) auto
    then show ?thesis unfolding h_def using True s0 by (simp add: cdiv_nonneg)
  next
    case False
    then show ?thesis unfolding h_def using s0 X by simp
  qed
  have b: "h + (outputSize - 1) * S < X" using hb sm s0 by (rule last_offset_bound)
  have "[0..<nat outputSize] = [] \<or>
      h + (int (length [0..<nat outputSize]) - 1) * S < inputSize * 2 ^ 32"
    using b assms(1) unfolding X_def by simp
  moreover have "\<forall>j \<in> set [0..<nat outputSize]. j < length outp" using assms(4) by auto
  ultimately have "\<exists>out'. cubicLoop fp input inputSize S gain [0..<nat outputSize] h outp = Some out' \<and>
            length out' = length outp \<and> (\<forall>k. k \<notin> set [0..<nat outputSize] \<longrightarrow> out' ! k = outp ! k)"
    by (rule cubicLoop_some [OF s0 assms(3) h0])
  moreover have "cubicInterpolation fp input outp inputSize outputSize gain
      = cubicLoop fp input inputSize S gain [0..<nat outputSize] h outp"
    using assms(1) unfolding cubicInterpolation_def Let_def S_def h_def X_def by simp
  ultimately show ?thesis by (simp only:) blast
qed

lemma fillRow_some:
  assumes "0 < np" "0 \<le> ph" "ph < np" "nt * np \<le> int (length temp)" "nt * np < 2 ^ 31"
    and "0 \<le> base"
  shows "\<forall>j \<in> set js. int j < nt \<Longrightarrow> distinct js \<Longrightarrow>
     base + nt \<le> int (length poly) \<Longrightarrow> int (length poly) < 2 ^ 31 \<Longrightarrow>
     \<exists>poly'. fillRow temp nt np ph base js poly = Some poly' \<and> length poly' = length poly \<and>
        (\<forall>j \<in> set js. poly' ! (nat base + j) = temp ! nat ((nt - int j - 1) * np + ph)) \<and>
        (\<forall>k. (\<forall>j \<in> set js. k \<noteq> nat base + j) \<longrightarrow> poly' ! k = poly ! k)"
proof (induction js arbitrary: poly)
  case Nil
  then show ?case by simp
next
  case (Cons j js)
  let ?a = "(nt - int j - 1) * np"
  let ?f = "temp ! nat (?a + ph)"
  let ?p1 = "poly[nat base + j := ?f]"
  have j: "int j < nt" and js: "\<forall>i \<in> set js. int i < nt" and d: "distinct js" "j \<notin> set js"
    using Cons.prems(1,2) by auto
  have a0: "0 \<le> ?a" using j assms(1) by simp
  have "(nt - int j - 1) * np \<le> (nt - 1) * np"
    using assms(1) by (intro mult_right_mono) auto
  then have a1: "?a + ph < nt * np" using assms(3) by (simp add: algebra_simps)
  have i1: "int32 ?a = Some ?a" using a0 a1 assms(2,5) by (intro int32_Some) auto
  have i2: "int32 (?a + ph) = Some (?a + ph)" using a0 a1 assms(2,5) by (intro int32_Some) auto
  have r: "rd temp (?a + ph) = Some ?f" using a0 a1 assms(2,4) by (intro rd_Some) auto
  have k: "0 \<le> base + int j" "base + int j < int (length poly)"
    using assms(6) j Cons.prems(3) by auto
  have i3: "int32 (base + int j) = Some (base + int j)"
    using k Cons.prems(4) by (intro int32_Some) auto
  have n: "nat (base + int j) = nat base + j" using assms(6) by (simp add: nat_add_distrib)
  have w: "wr poly (base + int j) ?f = Some ?p1"
    using wr_Some [OF k, of ?f] by (simp only: n)
  have l1: "length ?p1 = length poly" by simp
  obtain poly' where f: "fillRow temp nt np ph base js ?p1 = Some poly'"
    and l: "length poly' = length ?p1"
    and v: "\<forall>i \<in> set js. poly' ! (nat base + i) = temp ! nat ((nt - int i - 1) * np + ph)"
    and u: "\<forall>k. (\<forall>i \<in> set js. k \<noteq> nat base + i) \<longrightarrow> poly' ! k = ?p1 ! k"
    using Cons.IH [OF js d(1), of ?p1] Cons.prems(3,4) by (auto simp only: l1)
  have lt: "nat base + j < length poly" using k n by linarith
  have "\<forall>i \<in> set js. nat base + j \<noteq> nat base + i" using d(2) by auto
  then have "poly' ! (nat base + j) = ?p1 ! (nat base + j)" using u by blast
  then have "poly' ! (nat base + j) = ?f" using lt by simp
  moreover have "poly' ! k = poly ! k" if "\<forall>i \<in> set (j # js). k \<noteq> nat base + i" for k
    using u that by simp
  ultimately show ?case
    using i1 i2 r i3 w f l v by (simp add: l1)
qed

lemma rationalRows_some:
  assumes "0 < U" "0 < nt" "0 \<le> D" "(U - 1) * D < 2 ^ 31" "nt * U \<le> int (length temp)"
    "nt * U < 2 ^ 31"
  shows "\<forall>i \<in> set is. int i < U \<Longrightarrow> int (length poly) = nt * U \<Longrightarrow>
     \<exists>poly'. rationalRows temp nt U U D is poly = Some poly' \<and> length poly' = length poly"
proof (induction "is" arbitrary: poly)
  case Nil
  then show ?case by simp
next
  case (Cons i "is")
  have i: "int i < U" and r: "\<forall>k \<in> set is. int k < U" using Cons.prems(1) by auto
  have "int i * D \<le> (U - 1) * D" using i assms(3) by (intro mult_right_mono) auto
  moreover have "0 \<le> int i * D" using assms(3) by simp
  ultimately have p: "int32 (int i * D) = Some (int i * D)" using assms(4) by (intro int32_Some) auto
  let ?ph = "crem (int i * D) U"
  have ph: "0 \<le> ?ph" "?ph < U"
    using assms(1,3) by (simp_all add: crem_nonneg)
  have b0: "0 \<le> nt * int i" using assms(2) by simp
  have "nt * (int i + 1) \<le> nt * U" using i assms(2) by (intro mult_left_mono) auto
  then have b1: "nt * int i + nt \<le> nt * U" by (simp add: algebra_simps)
  have b: "int32 (nt * int i) = Some (nt * int i)"
    using b0 b1 assms(2,6) by (intro int32_Some) linarith+
  have d: "\<forall>j \<in> set [0..<nat nt]. int j < nt" "distinct [0..<nat nt]" by auto
  obtain p1 where f: "fillRow temp nt U ?ph (nt * int i) [0..<nat nt] poly = Some p1"
    and l: "length p1 = length poly"
    using fillRow_some [OF assms(1) ph assms(5,6) b0 d, of poly] b1 Cons.prems(2) assms(6)
    by auto
  obtain poly' where "rationalRows temp nt U U D is p1 = Some poly'" "length poly' = length p1"
    using Cons.IH [OF r, of p1] l Cons.prems(2) by auto
  then show ?case using p b f l assms(1) by simp
qed

lemma createRationalFilter_returns:
  assumes fs: "filterSize fp U D gain = Some (nt, nc, g)"
    and "0 < U" "0 < nt" "0 < nc" "nc \<le> nt * U" "nt * U < 2 ^ 31" "0 \<le> D" "(U - 1) * D < 2 ^ 31"
    and "int (length proto) = PROTOTYPE_COEFS"
  shows "\<exists>poly. createRationalFilter fp proto U D gain = Some (nt, poly, makeStepTable U U D) \<and>
           int (length poly) = nt * U"
proof -
  let ?z = "replicate (nat (nt * U)) (fzero fp)"
  have s0: "0 \<le> nt * U" using assms(2,3) by simp
  have sz: "int32 (nt * U) = Some (nt * U)" using s0 assms(6) by (intro int32_Some) auto
  have lz: "int (length ?z) = nt * U" using s0 by simp
  obtain temp where c: "cubicInterpolation fp proto ?z PROTOTYPE_COEFS nc g = Some temp"
    and lt: "length temp = length ?z"
    using cubicInterpolation_some [of nc PROTOTYPE_COEFS proto ?z fp g] assms(4,5,9) lz
    by (auto simp: PROTOTYPE_COEFS_def PROTOTYPE_TAPS_def PROTOTYPE_PHASES_def)
  have "nt * U \<le> int (length temp)" using lt lz by simp
  moreover have "\<forall>i \<in> set [0..<nat U]. int i < U" by auto
  ultimately obtain poly where r: "rationalRows temp nt U U D [0..<nat U] ?z = Some poly"
    and lp: "length poly = length ?z"
    using rationalRows_some [OF assms(2,3,7,8) _ assms(6), of temp "[0..<nat U]" ?z] lz by blast
  have "createRationalFilter fp proto U D gain = Some (nt, poly, makeStepTable U U D)"
    unfolding createRationalFilter_def rationalBank_def using fs sz s0 c r by simp
  then show ?thesis using lp lz by auto
qed

lemma ceil_mult_ge:
  fixes a U :: int
  assumes "0 < U"
  shows "a \<le> ((a + U - 1) div U) * U" "((a + U - 1) div U) * U \<le> a + U - 1"
proof -
  have m: "0 \<le> (a + U - 1) mod U" "(a + U - 1) mod U < U" using assms by simp_all
  have e: "((a + U - 1) div U) * U = (a + U - 1) - (a + U - 1) mod U"
    by (simp add: minus_mod_eq_div_mult)
  show "a \<le> ((a + U - 1) div U) * U" unfolding e using m by linarith
  show "((a + U - 1) div U) * U \<le> a + U - 1" unfolding e using m by linarith
qed

lemma spec_sizes:
  assumes "0 < U" "PROTOTYPE_TAPS * U < 2 ^ 31" "0 \<le> D"
    "D \<le> U \<or> PROTOTYPE_TAPS * D + U < 2 ^ 31"
  shows "filterSize fp U D gain = Some (spec_numTaps U D, spec_numCoefs U D, spec_gain fp U D gain)"
    "0 < spec_numTaps U D" "0 < spec_numCoefs U D"
    "spec_numCoefs U D \<le> spec_numTaps U D * U" "spec_numTaps U D * U < 2 ^ 31"
proof -
  have c: "\<lceil>real_of_int (PROTOTYPE_TAPS * D) / real_of_int U\<rceil> = (96 * D + U - 1) div U"
    using assms(1) by (simp only: ceil_div_real PROTOTYPE_TAPS_def)
  have n: "spec_numTaps U D = (if D \<le> U then 96 else (96 * D + U - 1) div U)"
    unfolding spec_numTaps_def c by (simp add: PROTOTYPE_TAPS_def)
  have a: "96 * U < 2 ^ 31" "D \<le> U \<or> 96 * D + U < 2 ^ 31"
    using assms(2,4) by (simp_all add: PROTOTYPE_TAPS_def)
  show "filterSize fp U D gain = Some (spec_numTaps U D, spec_numCoefs U D, spec_gain fp U D gain)"
    using filterSize_value [OF assms(1) a(1) assms(3) a(2), of fp gain]
    by (simp add: n spec_numCoefs_def spec_gain_def PROTOTYPE_TAPS_def)
  show "0 < spec_numCoefs U D" using assms(1,3) by (simp add: spec_numCoefs_def PROTOTYPE_TAPS_def)
  show "0 < spec_numTaps U D" "spec_numCoefs U D \<le> spec_numTaps U D * U"
    "spec_numTaps U D * U < 2 ^ 31"
  proof -
    consider (le) "D \<le> U" | (gt) "U < D" by linarith
    then have "0 < spec_numTaps U D \<and> spec_numCoefs U D \<le> spec_numTaps U D * U \<and>
        spec_numTaps U D * U < 2 ^ 31"
    proof cases
      case le
      then show ?thesis using a(1) by (simp add: n spec_numCoefs_def PROTOTYPE_TAPS_def)
    next
      case gt
      then have r: "96 * D + U < 2 ^ 31" using a(2) by simp
      note cm = ceil_mult_ge [OF assms(1), of "96 * D"]
      have "0 < ((96 * D + U - 1) div U) * U" using cm(1) gt assms(1) by linarith
      then have "0 < (96 * D + U - 1) div U" using assms(1) by (simp add: zero_less_mult_iff)
      then show ?thesis
        using gt cm r by (simp add: n spec_numCoefs_def PROTOTYPE_TAPS_def)
    qed
    then show "0 < spec_numTaps U D" "spec_numCoefs U D \<le> spec_numTaps U D * U"
      "spec_numTaps U D * U < 2 ^ 31" by simp_all
  qed
qed

text \<open>
  Claim C6.  The factors \<open>U > 0\<close> and \<open>D \<ge> 0\<close> are values of \<^verbatim>\<open>int\<close>, and so are
  \<open>oldCoefs = 96 U\<close> and, when \<open>D > U\<close>, the sum \<open>96 D + U\<close> that the builders form to round
  up.  Then both builders compute \<open>numTaps = 96\<close> when \<open>D \<le> U\<close> and
  \<open>numTaps = \<lceil>96 D / U\<rceil>\<close> when \<open>D > U\<close>; they hand \<^verbatim>\<open>cubicInterpolation\<close> the number of
  coefficients \<open>96 U\<close> or \<open>96 D\<close> and the gain, multiplied by \<open>(float) oldCoefs / numCoefs\<close>
  with \<open>numCoefs = 96 D\<close> when \<open>D > U\<close>; and they return this \<open>numTaps\<close>.  Each builder
  is equal to the call of \<^verbatim>\<open>cubicInterpolation\<close> with these arguments followed by the
  rest of its statements, and \<^verbatim>\<open>createRationalFilter\<close> returns for a prototype of
  \<^verbatim>\<open>PROTOTYPE_COEFS\<close> entries when its products \<open>i * downFactor\<close> are values of \<^verbatim>\<open>int\<close>.
\<close>

theorem C6_filter_widening:
  assumes "0 < U" "PROTOTYPE_TAPS * U < 2 ^ 31" "0 \<le> D"
    "D \<le> U \<or> PROTOTYPE_TAPS * D + U < 2 ^ 31"
  shows "filterSize fp U D gain =
           Some (spec_numTaps U D, spec_numCoefs U D, spec_gain fp U D gain) \<and>
         createRationalFilter fp proto U D gain =
           do {
             tempFilter \<leftarrow> cubicInterpolation fp proto
               (replicate (nat (spec_numTaps U D * U)) (fzero fp))
               PROTOTYPE_COEFS (spec_numCoefs U D) (spec_gain fp U D gain);
             (poly, tbl) \<leftarrow> rationalBank fp tempFilter (spec_numTaps U D) U D;
             Some (spec_numTaps U D, poly, tbl)
           } \<and>
         createIrrationalFilter fp proto U D gain =
           do {
             tempFilter \<leftarrow> cubicInterpolation fp proto
               (replicate (nat (spec_numTaps U D * U)) (fzero fp))
               PROTOTYPE_COEFS (spec_numCoefs U D) (spec_gain fp U D gain);
             poly \<leftarrow> irrationalBank fp tempFilter (spec_numTaps U D) U;
             Some (spec_numTaps U D, poly)
           } \<and>
         (int (length proto) = PROTOTYPE_COEFS \<and> (U - 1) * D < 2 ^ 31 \<longrightarrow>
            (\<exists>poly. createRationalFilter fp proto U D gain =
               Some (spec_numTaps U D, poly, makeStepTable U U D)))"
proof -
  note sz = spec_sizes(1) [OF assms, of fp gain] spec_sizes(2-5) [OF assms]
  have s0: "0 \<le> spec_numTaps U D * U" using sz(2) assms(1) by simp
  have i: "int32 (spec_numTaps U D * U) = Some (spec_numTaps U D * U)"
    using s0 sz(5) by (intro int32_Some) auto
  have r: "createRationalFilter fp proto U D gain =
           do {
             tempFilter \<leftarrow> cubicInterpolation fp proto
               (replicate (nat (spec_numTaps U D * U)) (fzero fp))
               PROTOTYPE_COEFS (spec_numCoefs U D) (spec_gain fp U D gain);
             (poly, tbl) \<leftarrow> rationalBank fp tempFilter (spec_numTaps U D) U D;
             Some (spec_numTaps U D, poly, tbl)
           }"
    unfolding createRationalFilter_def using sz(1) i s0 by simp
  have q: "createIrrationalFilter fp proto U D gain =
           do {
             tempFilter \<leftarrow> cubicInterpolation fp proto
               (replicate (nat (spec_numTaps U D * U)) (fzero fp))
               PROTOTYPE_COEFS (spec_numCoefs U D) (spec_gain fp U D gain);
             poly \<leftarrow> irrationalBank fp tempFilter (spec_numTaps U D) U;
             Some (spec_numTaps U D, poly)
           }"
    unfolding createIrrationalFilter_def using sz(1) i s0 by simp
  have t: "\<exists>poly. createRationalFilter fp proto U D gain =
               Some (spec_numTaps U D, poly, makeStepTable U U D)"
    if "int (length proto) = PROTOTYPE_COEFS \<and> (U - 1) * D < 2 ^ 31"
    using createRationalFilter_returns [OF sz(1) assms(1) sz(2,3,4,5) assms(3), of proto] that
    by blast
  show ?thesis using sz(1) r q t by (simp only: simp_thms) blast
qed

theorem C6_filter_widening_witness:
  "filterSize rat_fpu 147 160 1 = Some (105, 15360, 147 / 160) \<and>
   (\<exists>poly. createRationalFilter rat_fpu (replicate 3072 0) 147 160 1 =
      Some (105, poly, makeStepTable 147 147 160)) \<and>
   filterSize rat_fpu 160 147 1 = Some (96, 15360, 1) \<and>
   (\<exists>poly. createRationalFilter rat_fpu (replicate 3072 0) 160 147 1 =
      Some (96, poly, makeStepTable 160 160 147))"
proof -
  have n: "spec_numTaps 147 160 = 105" "spec_numTaps 160 147 = 96"
    "spec_numCoefs 147 160 = 15360" "spec_numCoefs 160 147 = 15360"
    "spec_gain rat_fpu 147 160 1 = 147 / 160" "spec_gain rat_fpu 160 147 1 = 1"
    by (simp_all add: spec_numTaps_def spec_numCoefs_def spec_gain_def PROTOTYPE_TAPS_def
        rat_fpu_def ceiling_divide_eq_div)
  have l: "int (length (replicate 3072 (0 :: rat))) = PROTOTYPE_COEFS \<and> (147 - 1) * 160 < (2 ^ 31 :: int)"
    "int (length (replicate 3072 (0 :: rat))) = PROTOTYPE_COEFS \<and> (160 - 1) * 147 < (2 ^ 31 :: int)"
    by (simp_all add: PROTOTYPE_COEFS_def PROTOTYPE_TAPS_def PROTOTYPE_PHASES_def)
  have a: "(0 :: int) < 147" "PROTOTYPE_TAPS * 147 < 2 ^ 31" "(0 :: int) \<le> 160"
    "(160 :: int) \<le> 147 \<or> PROTOTYPE_TAPS * 160 + 147 < 2 ^ 31"
    by (simp_all add: PROTOTYPE_TAPS_def)
  have b: "(0 :: int) < 160" "PROTOTYPE_TAPS * 160 < 2 ^ 31" "(0 :: int) \<le> 147"
    "(147 :: int) \<le> 160 \<or> PROTOTYPE_TAPS * 147 + 160 < 2 ^ 31"
    by (simp_all add: PROTOTYPE_TAPS_def)
  have "filterSize rat_fpu 147 160 1 =
          Some (spec_numTaps 147 160, spec_numCoefs 147 160, spec_gain rat_fpu 147 160 1) \<and>
        (\<exists>poly. createRationalFilter rat_fpu (replicate 3072 0) 147 160 1 =
          Some (spec_numTaps 147 160, poly, makeStepTable 147 147 160))"
    using C6_filter_widening [OF a, of rat_fpu 1 "replicate 3072 0"] l(1) by blast
  moreover have "filterSize rat_fpu 160 147 1 =
          Some (spec_numTaps 160 147, spec_numCoefs 160 147, spec_gain rat_fpu 160 147 1) \<and>
        (\<exists>poly. createRationalFilter rat_fpu (replicate 3072 0) 160 147 1 =
          Some (spec_numTaps 160 147, poly, makeStepTable 160 160 147))"
    using C6_filter_widening [OF b, of rat_fpu 1 "replicate 3072 0"] l(2) by blast
  ultimately show ?thesis unfolding n by blast
qed

text \<open>
  Against the claim as the spec words it, for every \<open>D > U\<close>: \<open>AudioSRC(44739243, 1, C)\<close>
  has \<open>U = 1\<close> and \<open>D = 44739243\<close>, and \<open>\<lceil>96 D / U\<rceil> = 4294967328\<close> is not a value of \<^verbatim>\<open>int\<close>.
  The conversion of \<open>96 D\<close> to \<^verbatim>\<open>int\<close> leaves \<open>numCoefs = 32\<close>, and the builder returns
  \<open>numTaps = 32\<close>.
\<close>

theorem C6_widening_overflow:
  "chooseMode 44739243 1 = Some (1, 44739243, 0) \<and>
   spec_numTaps 1 44739243 = 4294967328 \<and>
   filterSize rat_fpu 1 44739243 1 = Some (32, 32, 3) \<and>
   (\<exists>poly. createRationalFilter rat_fpu (replicate 3072 0) 1 44739243 1 =
      Some (32, poly, makeStepTable 1 1 44739243))"
proof -
  have c: "chooseMode 44739243 1 = Some (1, 44739243, 0)"
    using chooseMode_value [of 44739243 1] by simp
  have n: "spec_numTaps 1 44739243 = 4294967328"
    by (simp add: spec_numTaps_def PROTOTYPE_TAPS_def)
  have f: "filterSize rat_fpu 1 44739243 1 = Some (32, 32, 3)"
    by (simp add: filterSize_def PROTOTYPE_TAPS_def int32_def wrap32_def wrap64_def cdiv_def
        rat_fpu_def Let_def)
  have l: "int (length (replicate 3072 (0 :: rat))) = PROTOTYPE_COEFS"
    by (simp add: PROTOTYPE_COEFS_def PROTOTYPE_TAPS_def PROTOTYPE_PHASES_def)
  have "\<exists>poly. createRationalFilter rat_fpu (replicate 3072 0) 1 44739243 1 =
      Some (32, poly, makeStepTable 1 1 44739243) \<and> int (length poly) = 32 * 1"
    by (rule createRationalFilter_returns [OF f _ _ _ _ _ _ _ l]) simp_all
  then show ?thesis using c n f by blast
qed

lemma getMaxInput_rational:
  assumes "step s = 0" "0 < upFactor s" "0 \<le> downFactor s" "0 \<le> m" "m * downFactor s < 2 ^ 31"
  shows "getMaxInput s m = Some (m * downFactor s div upFactor s)"
proof -
  have a: "0 \<le> m * downFactor s" using assms(3,4) by simp
  then have w: "wrap64 (m * downFactor s) = m * downFactor s"
    using assms(5) by (intro wrap64_id) auto
  have c: "cdiv (m * downFactor s) (upFactor s) = m * downFactor s div upFactor s"
    using a assms(2) by (rule cdiv_nonneg)
  have "0 \<le> m * downFactor s div upFactor s" using a assms(2) by (simp add: pos_imp_zdiv_nonneg_iff)
  moreover have "m * downFactor s div upFactor s \<le> m * downFactor s div 1"
    using a assms(2) by (intro zdiv_mono2) auto
  ultimately have "wrap32 (m * downFactor s div upFactor s) = m * downFactor s div upFactor s"
    using assms(5) by (intro wrap32_id) auto
  then show ?thesis using assms(1,2) by (simp add: getMaxInput_def w c)
qed

lemma AudioSRC_rational_returns:
  assumes Fin: "0 < Fin" "Fin < 2 ^ 21" and Fout: "0 < Fout" "Fout < 2 ^ 31"
    and mode: "Fout div gcd Fin Fout \<le> 640" and C: "C = 1 \<or> C = 2"
    and proto: "int (length proto) = PROTOTYPE_COEFS"
  shows "\<exists>s. AudioSRC fp proto Fin Fout C = Some s \<and> src_ok s \<and> step s = 0 \<and>
           numChannels s = C \<and> upFactor s = Fout div gcd Fin Fout \<and>
           downFactor s = Fin div gcd Fin Fout \<and>
           numTaps s = spec_numTaps (upFactor s) (downFactor s) \<and> 0 < inputBlock s \<and>
           offset s = 0 \<and> phase s = 0"
proof -
  define g where "g = gcd Fin Fout"
  define U where "U = Fout div g"
  define D where "D = Fin div g"
  define nt where "nt = spec_numTaps U D"
  have g: "0 < g" "g dvd Fin" "g dvd Fout" using Fin Fout by (simp_all add: g_def)
  have g1: "1 \<le> g" using g(1) by linarith
  have Ug: "U * g = Fout" and Dg: "D * g = Fin" using g by (simp_all add: U_def D_def)
  have U0: "0 < U" using Ug Fout(1) g(1) by (metis zero_less_mult_pos2)
  have D0: "0 < D" using Dg Fin(1) g(1) by (metis zero_less_mult_pos2)
  have U1: "U \<le> 640" using mode by (simp add: U_def g_def)
  have "D \<le> Fin div 1" unfolding D_def using Fin(1) g1 by (intro zdiv_mono2) auto
  then have D1: "D < 2 ^ 21" using Fin(2) by simp
  have cm: "chooseMode Fin Fout = Some (U, D, 0)"
    using chooseMode_value [of Fin Fout] Fin Fout mode by (simp add: U_def D_def g_def)
  have h: "0 < U" "PROTOTYPE_TAPS * U < 2 ^ 31" "0 \<le> D" "D \<le> U \<or> PROTOTYPE_TAPS * D + U < 2 ^ 31"
    using U0 U1 D0 D1 by (simp_all add: PROTOTYPE_TAPS_def)
  note sz = spec_sizes(1) [OF h, of fp "f_of_int fp 1"] spec_sizes(2-5) [OF h]
  have "(U - 1) * D \<le> 639 * 2 ^ 21"
    using U0 U1 D0 D1 by (intro mult_mono) auto
  then have ud: "(U - 1) * D < 2 ^ 31" by simp
  obtain poly where cr: "createRationalFilter fp proto U D (f_of_int fp 1) =
      Some (nt, poly, makeStepTable U U D)"
    and lp: "int (length poly) = nt * U"
    using createRationalFilter_returns [OF sz(1) h(1) sz(2,3,4,5) h(3) ud proto]
    unfolding nt_def by blast
  have nt0: "0 < nt" using sz(2) by (simp add: nt_def)
  define hist where "hist = replicate (nat (2 * (nt - 1))) (fzero fp)"
  define buf where "buf = replicate (nat SRC_BLOCK) (fzero fp)"
  define ib where "ib = min SRC_BLOCK (SRC_BLOCK * D div U)"
  let ?init = "\<lparr> polyphaseFilter = poly, stepTable = makeStepTable U U D,
                    history = (hist, hist), inputs_m = (buf, buf), outputs_m = (buf, buf),
                    inputSampleRate = Fin, outputSampleRate = Fout,
                    numChannels = C, upFactor = U, downFactor = D,
                    numTaps = nt, numHistory = nt - 1, inputBlock = 0,
                    phase = 0, offset = 0, step = 0 \<rparr>"
  let ?s = "?init\<lparr>inputBlock := ib, offset := 0, phase := 0\<rparr>"
  have mi: "getMaxInput ?init SRC_BLOCK = Some (SRC_BLOCK * D div U)"
    using getMaxInput_rational [of ?init SRC_BLOCK] U0 D0 D1 by (simp add: SRC_BLOCK_def)
  have r: "AudioSRC fp proto Fin Fout C = Some ?s"
    unfolding AudioSRC_def
    using Fin(1) Fout(1) C cm cr nt0 mi
    by (auto simp: MAX_CHANNELS_def Let_def hist_def buf_def ib_def)
  have "1024 * U \<le> 1024 * D * 640" using U1 D0 by simp
  have q: "0 \<le> SRC_BLOCK * D div U" "(SRC_BLOCK * D div U) * U \<le> SRC_BLOCK * D"
    "1 \<le> SRC_BLOCK * D div U"
  proof -
    show "0 \<le> SRC_BLOCK * D div U" using U0 D0 by (simp add: SRC_BLOCK_def pos_imp_zdiv_nonneg_iff)
    have "0 \<le> (SRC_BLOCK * D) mod U" using U0 by simp
    moreover have "(SRC_BLOCK * D div U) * U = SRC_BLOCK * D - (SRC_BLOCK * D) mod U"
      by (simp add: minus_mod_eq_div_mult)
    ultimately show "(SRC_BLOCK * D div U) * U \<le> SRC_BLOCK * D" by linarith
    have "U \<le> SRC_BLOCK * D" using U1 D0 by (simp add: SRC_BLOCK_def)
    then have "U div U \<le> SRC_BLOCK * D div U" using U0 by (intro zdiv_mono1) auto
    then show "1 \<le> SRC_BLOCK * D div U" using U0 by simp
  qed
  have ibm: "ib * U \<le> SRC_BLOCK * D"
  proof -
    have "ib \<le> SRC_BLOCK * D div U" by (simp add: ib_def)
    then have "ib * U \<le> (SRC_BLOCK * D div U) * U" using U0 by (intro mult_right_mono) auto
    then show ?thesis using q(2) by linarith
  qed
  have ibr: "0 < ib" "ib \<le> SRC_BLOCK" using q(3) by (simp_all add: ib_def SRC_BLOCK_def)
  have ok: "src_ok ?s"
    unfolding src_ok_def cfg_ok_def pos_ok_def fineUnit_def fineStep_def
    using nt0 U0 U1 D0 D1 lp C ibm ibr
    by (simp add: hist_def buf_def lo32_def SRC_BLOCK_def)
  show ?thesis
    using r ok ibr(1) by (simp add: nt_def U_def D_def g_def)
qed

lemma AudioSRC_upFactor_pos:
  assumes "AudioSRC fp proto Fin Fout C = Some s"
  shows "0 < upFactor s" "offset s = 0" "phase s = 0"
proof -
  have r: "0 < Fin" "0 < Fout"
    using assms unfolding AudioSRC_def by (auto split: if_splits)
  have g: "gcd_src Fin Fout = Some (gcd Fin Fout)" using r by (rule gcd_src_correct)
  have g0: "0 < gcd Fin Fout" using r by simp
  have "gcd Fin Fout \<le> Fout" using r by (intro zdvd_imp_le) auto
  then have "Fout div Fout \<le> Fout div gcd Fin Fout" using g0 r by (intro zdiv_mono2) auto
  then have u: "0 < cdiv Fout (gcd Fin Fout)" using r g0 by (simp add: cdiv_nonneg)
  have "chooseMode Fin Fout = Some (upFactor s, downFactor s, step s)"
    using assms by (rule AudioSRC_mode)
  then show "0 < upFactor s"
    unfolding chooseMode_def using g u
    by (auto simp: SRC_PHASES_def SRC_PHASEBITS_def split: if_splits)
  show "offset s = 0" "phase s = 0"
    using assms unfolding AudioSRC_def
    by (auto simp: Let_def split: if_splits Option.bind_splits prod.splits)
qed

text \<open>
  Claim C10.  In rational mode, a call of \<^verbatim>\<open>multirateFilter1\<close> or \<^verbatim>\<open>multirateFilter2\<close>
  that starts with the low 32 bits of \<^verbatim>\<open>_offset\<close> zero, \<open>hi32(_offset) \<ge> 0\<close> and
  \<open>0 \<le> _phase < _upFactor\<close>, on arrays that hold the samples it reads and have room for
  the frames it writes, returns and leaves the three conditions true; and every
  constructed object satisfies them.
\<close>

theorem C10_rational_invariant:
  assumes "cfg_ok s" "step s = 0"
    and "lo32 (offset s) = 0" "0 \<le> hi32 (offset s)" "0 \<le> phase s" "phase s < upFactor s"
    and "n + numTaps s - 1 \<le> int (length X0)" "n + numTaps s - 1 \<le> int (length X1)"
    and "0 \<le> ob" "ob + int (length (points s n)) \<le> int (length out0)"
      "ob + int (length (points s n)) \<le> int (length out1)"
  shows "(\<exists>s' out' no. multirateFilter1 fp s X0 out0 ob n = Some (s', out', no) \<and>
            step s' = 0 \<and> upFactor s' = upFactor s \<and> lo32 (offset s') = 0 \<and>
            0 \<le> hi32 (offset s') \<and> 0 \<le> phase s' \<and> phase s' < upFactor s') \<and>
         (\<exists>s' out' out'' no. multirateFilter2 fp s X0 X1 out0 out1 ob n = Some (s', out', out'', no) \<and>
            step s' = 0 \<and> upFactor s' = upFactor s \<and> lo32 (offset s') = 0 \<and>
            0 \<le> hi32 (offset s') \<and> 0 \<le> phase s' \<and> phase s' < upFactor s') \<and>
         (\<forall>s0. AudioSRC fp proto Fin Fout C = Some s0 \<longrightarrow>
            lo32 (offset s0) = 0 \<and> 0 \<le> hi32 (offset s0) \<and> 0 \<le> phase s0 \<and>
            phase s0 < upFactor s0)"
proof -
  have o: "0 \<le> offset s" using assms(4) by (simp add: hi32_def pos_imp_zdiv_nonneg_iff)
  have pos: "pos_ok s" using assms(2,3,5,6) o by (simp add: pos_ok_def)
  let ?s' = "afterFilter s n"
  have p': "pos_ok ?s'" and st: "step ?s' = 0" and u: "upFactor ?s' = upFactor s"
    using afterFilter_facts [OF assms(1) pos, of n] assms(2) by simp_all
  have inv: "lo32 (offset ?s') = 0 \<and> 0 \<le> hi32 (offset ?s') \<and> 0 \<le> phase ?s' \<and>
        phase ?s' < upFactor ?s'"
    using p' st by (simp add: pos_ok_def hi32_def pos_imp_zdiv_nonneg_iff)
  have a: "\<exists>s' out' no. multirateFilter1 fp s X0 out0 ob n = Some (s', out', no) \<and>
            step s' = 0 \<and> upFactor s' = upFactor s \<and> lo32 (offset s') = 0 \<and>
            0 \<le> hi32 (offset s') \<and> 0 \<le> phase s' \<and> phase s' < upFactor s'"
    using multirateFilter1_run [OF assms(1) pos assms(7,9,10), of fp] inv st u by blast
  have b: "\<exists>s' out' out'' no. multirateFilter2 fp s X0 X1 out0 out1 ob n = Some (s', out', out'', no) \<and>
            step s' = 0 \<and> upFactor s' = upFactor s \<and> lo32 (offset s') = 0 \<and>
            0 \<le> hi32 (offset s') \<and> 0 \<le> phase s' \<and> phase s' < upFactor s'"
    using multirateFilter2_run [OF assms(1) pos assms(7,8,9,10,11), of fp] inv st u by blast
  have c: "lo32 (offset s0) = 0 \<and> 0 \<le> hi32 (offset s0) \<and> 0 \<le> phase s0 \<and> phase s0 < upFactor s0"
    if "AudioSRC fp proto Fin Fout C = Some s0" for s0
    using AudioSRC_upFactor_pos [OF that] by (simp add: lo32_def hi32_def)
  show ?thesis using a b c by blast
qed

theorem C10_rational_invariant_witness:
  "(\<exists>s' out' no. multirateFilter1 rat_fpu (unity 1) [0, 0] (replicate 1024 0) 0 1 = Some (s', out', no) \<and>
      step s' = 0 \<and> upFactor s' = upFactor (unity 1) \<and> lo32 (offset s') = 0 \<and>
      0 \<le> hi32 (offset s') \<and> 0 \<le> phase s' \<and> phase s' < upFactor s') \<and>
   (\<exists>s' out' out'' no. multirateFilter2 rat_fpu (unity 1) [0, 0] [0, 0] (replicate 1024 0)
        (replicate 1024 0) 0 1 = Some (s', out', out'', no) \<and>
      step s' = 0 \<and> upFactor s' = upFactor (unity 1) \<and> lo32 (offset s') = 0 \<and>
      0 \<le> hi32 (offset s') \<and> 0 \<le> phase s' \<and> phase s' < upFactor s') \<and>
   (\<exists>s0. AudioSRC rat_fpu (replicate 3072 0) 1 1 1 = Some s0 \<and>
      lo32 (offset s0) = 0 \<and> 0 \<le> hi32 (offset s0) \<and> 0 \<le> phase s0 \<and> phase s0 < upFactor s0)"
proof -
  have cfg: "cfg_ok (unity 1)" using unity_ok(1) by (simp add: src_ok_def)
  have k: "int (length (points (unity 1) 1)) \<le> SRC_BLOCK"
    by (rule src_ok_block(2) [OF unity_ok(1)]) (simp_all add: unity_def)
  have h: "step (unity 1) = 0" "lo32 (offset (unity 1)) = 0" "0 \<le> hi32 (offset (unity 1))"
    "0 \<le> phase (unity 1)" "phase (unity 1) < upFactor (unity 1)"
    "1 + numTaps (unity 1) - 1 \<le> int (length [0, 0 :: rat])" "(0 :: int) \<le> 0"
    "0 + int (length (points (unity 1) 1)) \<le> int (length (replicate 1024 (0 :: rat)))"
    using k by (simp_all add: unity_def lo32_def hi32_def SRC_BLOCK_def)
  note t = C10_rational_invariant [OF cfg h(1-6) h(6) h(7,8) h(8), of rat_fpu "replicate 3072 0" 1 1 1]
  obtain s0 where "AudioSRC rat_fpu (replicate 3072 0) 1 1 1 = Some s0"
    using AudioSRC_rational_returns [of 1 1 1 "replicate 3072 0" rat_fpu]
    by (auto simp: PROTOTYPE_COEFS_def PROTOTYPE_TAPS_def PROTOTYPE_PHASES_def)
  then show ?thesis using t by blast
qed

lemma processFloat_mono_arrays:
  "numChannels s = 1 \<Longrightarrow> processFloat fp s ins outs n = processFloat fp s ins' outs' n"
  by (simp add: processFloat_def)

text \<open>
  Claim C1.  The code does not do what the claim says.  With one channel,
  \<^verbatim>\<open>processFloat\<close> does not use its arguments \<^verbatim>\<open>inputs\<close> and \<^verbatim>\<open>outputs\<close>: for arrays
  \<open>ins\<close> and \<open>outs\<close> of the caller, a block of \<open>n \<le> _inputBlock\<close> frames returns the number
  of frames of the schedule, the frames are computed from the history and the member
  \<^verbatim>\<open>_inputs[0]\<close> and stored in the member \<^verbatim>\<open>_outputs[0]\<close>, the arrays behind \<^verbatim>\<open>outputs\<close> are
  as before the call, and the result is the one of the call with the members as
  arguments.
\<close>

theorem C1_processFloat_uses_members:
  assumes "src_ok s" "numChannels s = 1" "0 \<le> n" "n \<le> inputBlock s"
  shows "\<exists>s'. processFloat fp s (Caller ins) (Caller outs) n = Some (s', int (length (points s n))) \<and>
           take (length (points s n)) (fst (outputs_m s')) =
             frames fp s (stream (numHistory s) (fst (history s)) (fst (inputs_m s)) n) n \<and>
           outputs_after s' (Caller outs) = outs \<and>
           processFloat fp s (Caller ins) (Caller outs) n = processFloat fp s Members Members n"
proof -
  note b = src_ok_block [OF assms(1,3,4)]
  let ?F = "frames fp s (stream (numHistory s) (fst (history s)) (fst (inputs_m s)) n) n"
  obtain h' where r: "processFloat fp s (Caller ins) (Caller outs) n =
      Some ((afterFilter s n)\<lparr>history := (h', snd (history s)),
               outputs_m := (storeAt (fst (outputs_m s)) 0 ?F, snd (outputs_m s))\<rparr>,
            int (length (points s n)))"
    using processFloat_mono [OF assms(1,2,3) b, of fp "Caller ins" "Caller outs"] by blast
  have l: "length ?F = length (points s n)" by (simp add: frames_def)
  have "take (length (points s n)) (storeAt (fst (outputs_m s)) 0 ?F) = ?F"
    using l by (rule storeAt_take)
  then show ?thesis
    using r processFloat_mono_arrays [OF assms(2), of fp "Caller ins" "Caller outs" n Members Members]
    by (simp add: outputs_after_def)
qed

lemma direct_ok: "src_ok direct"
  using unity_ok(1) by (simp add: direct_def src_ok_def cfg_ok_def pos_ok_def unity_def
      fineUnit_def fineStep_def)

lemma direct_points: "points direct 1 = [(0, 0)]"
  by (simp add: points_def direct_def unity_def fineStep_def fineUnit_def finePos_def hi32_def
      outputPoints.simps)

lemma direct_frames:
  "frames rat_fpu direct
     (stream (numHistory direct) (fst (history direct)) (fst (inputs_m direct)) 1) 1 = [0]"
  unfolding frames_def direct_points
  by (simp add: frame_at_def tapsv_def stream_def fzero_def
      direct_def unity_def rat_fpu_def upt_0_2)

theorem C1_processFloat_uses_members_witness:
  "\<exists>s'. processFloat rat_fpu direct (Caller [[1]]) (Caller [[5]]) 1 = Some (s', 1) \<and>
        take 1 (fst (outputs_m s')) = [0] \<and>
        outputs_after s' (Caller [[5]]) = [[5]] \<and>
        processFloat rat_fpu direct (Caller [[1]]) (Caller [[5]]) 1 =
          processFloat rat_fpu direct Members Members 1"
proof -
  have "numChannels direct = 1" "(0 :: int) \<le> 1" "1 \<le> inputBlock direct"
    by (simp_all add: direct_def unity_def)
  then show ?thesis
    using C1_processFloat_uses_members [OF direct_ok, of 1 rat_fpu "[[1]]" "[[5]]"]
    by (simp add: direct_points direct_frames)
qed












end
